(* ===== verification/LspPrelude.thy ===== *)
theory LspPrelude imports Main "HOL-Library.Word" begin

section \<open>Prelude: outcomes of C code, machine integers, invariants of step relations\<close>

text \<open>
  What every component of the development shares.

  \<^item> A C function returns, runs into undefined behaviour or never returns. The type
    \<open>exec\<close> makes the three outcomes values; \<open>xbind\<close> sequences two pieces of code.
  \<^item> A local variable that the code reads before it writes it has no value of its own. A
    definition that models such a function takes the value as an argument (named \<open>rc0\<close>,
    \<open>b0\<close>, \<open>junk\<close> and so on), so a theorem about all arguments is a theorem about all values
    the memory may happen to hold.
  \<^item> Sizes, pointers and unsigned fields are words of their width. A C \<open>int\<close> is an
    \<open>int\<close> with the overflow of an increment or a decrement written out.
  \<^item> \<open>step_invariant\<close> is the interface between a step relation and its invariant.
\<close>

named_theorems lsp_consts "the values of the macros of the headers"
named_theorems exec_simps "unfolding the outcomes of sequenced code"

type_synonym u8 = "8 word"
type_synonym u16 = "16 word"
type_synonym u32 = "32 word"
type_synonym size_t = "64 word"

subsection \<open>Outcomes\<close>

datatype fault =
    NullDeref        \<comment> \<open>a NULL pointer is dereferenced\<close>
  | BadPtr           \<comment> \<open>a pointer to freed or foreign memory is used\<close>
  | OutOfBounds      \<comment> \<open>an access outside the block it indexes\<close>
  | BadFree          \<comment> \<open>a pointer that no allocator returned is freed\<close>
  | DivByZero
  | IntOverflow      \<comment> \<open>signed overflow\<close>
  | TypeConfusion    \<comment> \<open>a union member is used as the other member\<close>

datatype 'a exec = Done 'a | Fault fault | Hang

fun xbind :: "'a exec \<Rightarrow> ('a \<Rightarrow> 'b exec) \<Rightarrow> 'b exec" where
  "xbind (Done a) f = f a"
| "xbind (Fault e) f = Fault e"
| "xbind Hang f = Hang"

lemma xbind_Done_iff [exec_simps]:
  "xbind m f = Done b \<longleftrightarrow> (\<exists>a. m = Done a \<and> f a = Done b)"
  by (cases m) auto

lemma xbind_assoc: "xbind (xbind m f) g = xbind m (\<lambda>a. xbind (f a) g)"
  by (cases m) auto

lemma xbind_cong [fundef_cong]:
  "m = m' \<Longrightarrow> (\<And>a. m' = Done a \<Longrightarrow> f a = f' a) \<Longrightarrow> xbind m f = xbind m' f'"
  by (cases m') auto

text \<open>A guard: the code goes on only where the access it makes is defined.\<close>

definition xguard :: "bool \<Rightarrow> fault \<Rightarrow> unit exec" where
  "xguard b e = (if b then Done () else Fault e)"

lemma xguard_simps [simp]: "xguard True e = Done ()" "xguard False e = Fault e"
  by (simp_all add: xguard_def)

lemma xguard_Done_iff [exec_simps]: "xguard b e = Done u \<longleftrightarrow> b"
  by (simp add: xguard_def)

definition is_done :: "'a exec \<Rightarrow> bool" where
  "is_done m = (case m of Done _ \<Rightarrow> True | _ \<Rightarrow> False)"

lemma is_done_simps [simp]: "is_done (Done a)" "\<not> is_done (Fault e)" "\<not> is_done Hang"
  by (simp_all add: is_done_def)

text \<open>A loop that is not known to end: no value is the outcome \<open>Hang\<close>.\<close>

definition of_loop :: "'a exec option \<Rightarrow> 'a exec" where
  "of_loop r = (case r of None \<Rightarrow> Hang | Some x \<Rightarrow> x)"

lemma of_loop_simps [simp]: "of_loop (Some x) = x" "of_loop None = Hang"
  by (simp_all add: of_loop_def)

subsection \<open>C integers\<close>

abbreviation INT_MAX :: int where "INT_MAX \<equiv> 2147483647"
abbreviation INT_MIN :: int where "INT_MIN \<equiv> -2147483648"

definition c_inc :: "int \<Rightarrow> int exec" where
  "c_inc i = (if i = INT_MAX then Fault IntOverflow else Done (i + 1))"

definition c_dec :: "int \<Rightarrow> int exec" where
  "c_dec i = (if i = INT_MIN then Fault IntOverflow else Done (i - 1))"

text \<open>The usual conversions: an \<open>int\<close> to an unsigned type is taken modulo its size; an unsigned
  value to \<open>int\<close> keeps its low 32 bits, read as two's complement (what GCC documents).\<close>

definition int_to_size :: "int \<Rightarrow> size_t" where
  "int_to_size i = word_of_int i"

definition int_to_u32 :: "int \<Rightarrow> u32" where
  "int_to_u32 i = word_of_int i"

definition size_to_int :: "size_t \<Rightarrow> int" where
  "size_to_int w = signed_take_bit 31 (uint w)"

lemma unat_int_to_size: "0 \<le> i \<Longrightarrow> i < 2 ^ 64 \<Longrightarrow> unat (int_to_size i) = nat i"
  by (simp add: int_to_size_def unsigned_of_int take_bit_int_eq_self)

lemma uint_int_to_size: "0 \<le> i \<Longrightarrow> i < 2 ^ 64 \<Longrightarrow> uint (int_to_size i) = i"
  by (simp add: int_to_size_def unsigned_of_int take_bit_int_eq_self)

lemma size_to_int_small:
  assumes "uint w \<le> INT_MAX"
  shows "size_to_int w = uint w"
proof -
  have "INT_MIN \<le> uint w"
    by (rule order_trans [of _ 0]) simp_all
  with assms show ?thesis
    unfolding size_to_int_def by (subst signed_take_bit_int_eq_self) simp_all
qed

subsection \<open>Words: sums that do not wrap\<close>

lemma unat_plus_nowrap:
  fixes a b :: "'a::len word"
  assumes "unat a + unat b < 2 ^ LENGTH('a)"
  shows "unat (a + b) = unat a + unat b"
  using assms by (simp add: unat_add_lem)

lemma unat_minus_le:
  fixes a b :: "'a::len word"
  assumes "unat b \<le> unat a"
  shows "unat (a - b) = unat a - unat b"
  using assms by (simp add: unat_sub word_le_nat_alt)

lemma unat_lt_64: "unat (w :: size_t) < 2 ^ 64"
  using unsigned_less [of w, where 'a = nat] by simp

subsection \<open>Lists\<close>

lemma map_update_other:
  "i \<notin> set is \<Longrightarrow> map (\<lambda>j. if j = i then x else f j) is = map f is"
  by (induction "is") auto

lemma find_append: "find P (xs @ ys) = (case find P xs of None \<Rightarrow> find P ys | Some x \<Rightarrow> Some x)"
  by (induction xs) auto

subsection \<open>Step relations and their invariants\<close>

text \<open>When the runs from a state are bounded, one of them cannot be prolonged.\<close>

lemma longest_run:
  fixes r :: "'s \<Rightarrow> 's \<Rightarrow> bool"
  assumes "\<And>k s. (r ^^ k) x s \<Longrightarrow> k \<le> b"
  shows "\<exists>k s. (r ^^ k) x s \<and> (\<forall>s'. \<not> (r ^^ Suc k) x s')"
proof (rule ccontr)
  assume no: "\<nexists>k s. (r ^^ k) x s \<and> (\<forall>s'. \<not> (r ^^ Suc k) x s')"
  have "\<exists>s. (r ^^ k) x s" for k
  proof (induction k)
    case (Suc k)
    then show ?case
      using no by blast
  qed simp
  then have "Suc b \<le> b"
    using assms by blast
  then show False
    by simp
qed

text \<open>
  The interface of a state machine: the states it may start in, its steps, and a predicate that
  holds at the start and is kept by every step. The client's lemma is that the predicate holds
  in every state the machine can reach.
\<close>

locale step_invariant =
  fixes start :: "'s \<Rightarrow> bool"
    and step :: "'s \<Rightarrow> 's \<Rightarrow> bool"
    and inv :: "'s \<Rightarrow> bool"
  assumes inv_start: "start s \<Longrightarrow> inv s"
    and inv_step: "step s t \<Longrightarrow> inv s \<Longrightarrow> inv t"
begin

lemma inv_steps: "rtranclp step s t \<Longrightarrow> inv s \<Longrightarrow> inv t"
  by (induction rule: rtranclp_induct) (auto intro: inv_step)

lemma inv_reachable: "start s \<Longrightarrow> rtranclp step s t \<Longrightarrow> inv t"
  by (blast intro: inv_steps inv_start)

end

end
