(* ===== verification/LspList.thy ===== *)
theory LspList imports LspPrelude begin

section \<open>Intrusive doubly linked lists (lsp_list.h)\<close>

text \<open>
  The pointer model: a node is a value of a type \<open>'a\<close> chosen by the client (the list head and
  the structs the node is embedded in, so \<open>container_of\<close> is the identity), a pointer is an
  \<open>'a option\<close> with \<open>None\<close> for NULL, and the memory holds the two links of every node and
  which nodes may be accessed. The operations are those of \<open>include/lsp_list.h\<close>, statement by
  statement; the abstraction \<open>ring h head xs\<close> says that the memory holds the circular list with
  head \<open>head\<close> and nodes \<open>xs\<close>.
\<close>

record 'a lheap =
  lnext :: "'a \<Rightarrow> 'a option"
  lprev :: "'a \<Rightarrow> 'a option"
  lvalid :: "'a \<Rightarrow> bool"

subsection \<open>Reading and writing a link\<close>

fun deref :: "'a lheap \<Rightarrow> 'a option \<Rightarrow> 'a exec" where
  "deref h None = Fault NullDeref"
| "deref h (Some a) = (if lvalid h a then Done a else Fault BadPtr)"

definition rd_next :: "'a lheap \<Rightarrow> 'a option \<Rightarrow> 'a option exec" where
  "rd_next h p = xbind (deref h p) (\<lambda>a. Done (lnext h a))"

definition rd_prev :: "'a lheap \<Rightarrow> 'a option \<Rightarrow> 'a option exec" where
  "rd_prev h p = xbind (deref h p) (\<lambda>a. Done (lprev h a))"

definition wr_next :: "'a option \<Rightarrow> 'a option \<Rightarrow> 'a lheap \<Rightarrow> 'a lheap exec" where
  "wr_next p v h = xbind (deref h p) (\<lambda>a. Done (h\<lparr>lnext := (lnext h)(a := v)\<rparr>))"

definition wr_prev :: "'a option \<Rightarrow> 'a option \<Rightarrow> 'a lheap \<Rightarrow> 'a lheap exec" where
  "wr_prev p v h = xbind (deref h p) (\<lambda>a. Done (h\<lparr>lprev := (lprev h)(a := v)\<rparr>))"

lemmas link_defs = rd_next_def rd_prev_def wr_next_def wr_prev_def

subsection \<open>The operations\<close>

definition lsp_list_head_init :: "'a option \<Rightarrow> 'a lheap \<Rightarrow> 'a lheap exec" where
  "lsp_list_head_init head h = xbind (wr_next head head h) (wr_prev head head)"

text \<open>The static initialiser of a head: both links point to the head itself.\<close>

definition LSP_LIST_HEAD_INIT :: "'a \<Rightarrow> 'a lheap \<Rightarrow> 'a lheap" where
  "LSP_LIST_HEAD_INIT name h =
     h\<lparr>lnext := (lnext h)(name := Some name), lprev := (lprev h)(name := Some name)\<rparr>"

lemma static_head_is_init:
  "lvalid h name \<Longrightarrow> lsp_list_head_init (Some name) h = Done (LSP_LIST_HEAD_INIT name h)"
  by (simp add: lsp_list_head_init_def LSP_LIST_HEAD_INIT_def wr_next_def wr_prev_def)

definition lsp_list_add_between ::
  "'a option \<Rightarrow> 'a option \<Rightarrow> 'a option \<Rightarrow> 'a lheap \<Rightarrow> 'a lheap exec" where
  "lsp_list_add_between n prev nxt h =
     xbind (wr_prev nxt n h) (\<lambda>h.
     xbind (wr_next n nxt h) (\<lambda>h.
     xbind (wr_prev n prev h) (\<lambda>h.
     wr_next prev n h)))"

definition lsp_list_add :: "'a option \<Rightarrow> 'a option \<Rightarrow> 'a lheap \<Rightarrow> 'a lheap exec" where
  "lsp_list_add n head h =
     xbind (rd_next h head) (\<lambda>nx. lsp_list_add_between n head nx h)"

definition lsp_list_add_tail :: "'a option \<Rightarrow> 'a option \<Rightarrow> 'a lheap \<Rightarrow> 'a lheap exec" where
  "lsp_list_add_tail n head h =
     xbind (rd_prev h head) (\<lambda>pv. lsp_list_add_between n pv head h)"

definition lsp_list_insert_after :: "'a option \<Rightarrow> 'a option \<Rightarrow> 'a lheap \<Rightarrow> 'a lheap exec" where
  "lsp_list_insert_after n node h =
     xbind (rd_next h node) (\<lambda>nx. lsp_list_add_between n node nx h)"

definition lsp_list_insert_before :: "'a option \<Rightarrow> 'a option \<Rightarrow> 'a lheap \<Rightarrow> 'a lheap exec" where
  "lsp_list_insert_before n node h =
     xbind (rd_prev h node) (\<lambda>pv. lsp_list_add_between n pv node h)"

definition lsp_list_del :: "'a option \<Rightarrow> 'a lheap \<Rightarrow> 'a lheap exec" where
  "lsp_list_del n h =
     xbind (rd_next h n) (\<lambda>nx.
     xbind (rd_prev h n) (\<lambda>pv.
     xbind (wr_prev nx pv h) (\<lambda>h.
     xbind (rd_prev h n) (\<lambda>pv.
     xbind (rd_next h n) (\<lambda>nx.
     wr_next pv nx h)))))"

definition lsp_list_is_empty :: "'a option \<Rightarrow> 'a lheap \<Rightarrow> bool exec" where
  "lsp_list_is_empty head h =
     xbind (rd_next h head) (\<lambda>nx. xbind (rd_prev h head) (\<lambda>pv. Done (nx = pv)))"

subsection \<open>The iteration macros\<close>

text \<open>
  Both macros are used as \<open>lsp_list_for(ptr, member, head) if (P ptr) break;\<close> (or \<open>return\<close>):
  the loop is the search for the first node that satisfies \<open>P\<close>, with \<open>None\<close> where the cursor
  ends as NULL. Evaluating \<open>P\<close> reads the struct, so the node must be accessible. A NULL link
  has no container (pointer arithmetic on NULL is undefined). The loop over \<open>link\<close> may not end:
  no value then.
\<close>

partial_function (option) list_search ::
  "('a lheap \<Rightarrow> 'a option \<Rightarrow> 'a option exec) \<Rightarrow> 'a lheap \<Rightarrow> 'a \<Rightarrow> ('a \<Rightarrow> bool) \<Rightarrow> 'a \<Rightarrow>
     'a option exec option" where
  "list_search link h head P p =
     (case deref h (Some p) of
        Fault e \<Rightarrow> Some (Fault e)
      | Hang \<Rightarrow> Some Hang
      | Done _ \<Rightarrow>
          if P p then Some (Done (Some p))
          else (case link h (Some p) of
                  Fault e \<Rightarrow> Some (Fault e)
                | Hang \<Rightarrow> Some Hang
                | Done None \<Rightarrow> Some (Fault NullDeref)
                | Done (Some q) \<Rightarrow>
                    if q \<noteq> head then list_search link h head P q else Some (Done None)))"

definition list_for_from ::
  "('a lheap \<Rightarrow> 'a option \<Rightarrow> 'a option exec) \<Rightarrow> ('a \<Rightarrow> bool) \<Rightarrow> 'a \<Rightarrow> 'a lheap \<Rightarrow> 'a option exec" where
  "list_for_from link P head h =
     xbind (rd_next h (Some head)) (\<lambda>nx.
     xbind (rd_prev h (Some head)) (\<lambda>pv.
     if nx \<noteq> pv
     then xbind (link h (Some head)) (\<lambda>first.
            case first of
              None \<Rightarrow> Fault NullDeref
            | Some p \<Rightarrow> of_loop (list_search link h head P p))
     else Done None))"

definition lsp_list_for :: "('a \<Rightarrow> bool) \<Rightarrow> 'a \<Rightarrow> 'a lheap \<Rightarrow> 'a option exec" where
  "lsp_list_for P head h = list_for_from rd_next P head h"

definition lsp_list_for_back :: "('a \<Rightarrow> bool) \<Rightarrow> 'a \<Rightarrow> 'a lheap \<Rightarrow> 'a option exec" where
  "lsp_list_for_back P head h = list_for_from rd_prev P head h"

subsection \<open>The abstraction: a circular list\<close>

fun linked :: "'a lheap \<Rightarrow> 'a list \<Rightarrow> bool" where
  "linked h (x # y # r) \<longleftrightarrow> lnext h x = Some y \<and> lprev h y = Some x \<and> linked h (y # r)"
| "linked h _ \<longleftrightarrow> True"

definition ring :: "'a lheap \<Rightarrow> 'a \<Rightarrow> 'a list \<Rightarrow> bool" where
  "ring h head xs \<longleftrightarrow>
     distinct (head # xs) \<and> (\<forall>x\<in>set (head # xs). lvalid h x) \<and> linked h (head # xs @ [head])"

lemma linked_append:
  "linked h (xs @ y # ys) \<longleftrightarrow> linked h (xs @ [y]) \<and> linked h (y # ys)"
  by (induction h xs rule: linked.induct) auto

lemma linked_frame:
  assumes "\<And>a. a \<in> set (butlast xs) \<Longrightarrow> lnext h' a = lnext h a"
    and "\<And>a. a \<in> set (tl xs) \<Longrightarrow> lprev h' a = lprev h a"
  shows "linked h' xs = linked h xs"
  using assms
proof (induction h xs rule: linked.induct)
  case (1 h x y r)
  have "linked h' (y # r) = linked h (y # r)"
    using "1.prems" by (intro "1.IH") (auto split: if_splits)
  with "1.prems" show ?case by simp
qed auto

lemma ring_validD [dest]: "ring h head xs \<Longrightarrow> a \<in> set (head # xs) \<Longrightarrow> lvalid h a"
  by (auto simp: ring_def)

lemma ring_distinctD: "ring h head xs \<Longrightarrow> distinct xs \<and> head \<notin> set xs"
  by (simp add: ring_def)

text \<open>The ring cut open at a link: what comes up to the link and what comes after it.\<close>

lemma ring_split:
  assumes "ring h head (xs @ ys)"
  obtains A p q B where "head # xs = A @ [p]" and "ys @ [head] = q # B"
    and "linked h (A @ [p])" and "linked h (p # q # B)"
    and "set (head # xs) = insert p (set A)" and "set xs = set (tl (A @ [p]))"
    and "set (ys @ [head]) = insert q (set B)" and "set ys = set (butlast (q # B))"
    and "distinct (A @ [p])" and "distinct (q # B)"
proof -
  obtain A p where A: "head # xs = A @ [p]"
    by (metis list.discI rev_exhaust)
  obtain q B where B: "ys @ [head] = q # B"
    by (cases ys) auto
  have "head # (xs @ ys) @ [head] = (head # xs) @ (ys @ [head])"
    by simp
  also have "\<dots> = A @ p # q # B"
    unfolding A B by simp
  finally have l: "linked h (A @ p # q # B)"
    using assms by (simp add: ring_def)
  have d: "distinct (A @ [p])" "distinct (q # B)"
    using assms unfolding A [symmetric] B [symmetric] by (auto simp: ring_def)
  have s: "set (head # xs) = insert p (set A)" "set (ys @ [head]) = insert q (set B)"
    unfolding A B by simp_all
  have t: "set xs = set (tl (A @ [p]))" "set ys = set (butlast (q # B))"
    unfolding A [symmetric] B [symmetric] by simp_all
  have l': "linked h (A @ [p])" "linked h (p # q # B)"
    using l linked_append [of h A p "q # B"] by simp_all
  show thesis
    by (rule that [OF A B l' s(1) t(1) s(2) t(2) d])
qed

lemma ring_cut:
  assumes "ring h head (xs @ ys)"
  shows "lnext h (last (head # xs)) = Some (hd (ys @ [head]))"
    and "lprev h (hd (ys @ [head])) = Some (last (head # xs))"
proof -
  from assms obtain A p q B where AB: "head # xs = A @ [p]" "ys @ [head] = q # B"
    and l: "linked h (p # q # B)"
    by (rule ring_split)
  from l show "lnext h (last (head # xs)) = Some (hd (ys @ [head]))"
    and "lprev h (hd (ys @ [head])) = Some (last (head # xs))"
    unfolding AB by simp_all
qed

lemma ring_first: "ring h head xs \<Longrightarrow> lnext h head = Some (hd (xs @ [head]))"
  using ring_cut(1) [of h head "[]" xs] by simp

lemma ring_last: "ring h head xs \<Longrightarrow> lprev h head = Some (last (head # xs))"
  using ring_cut(2) [of h head xs "[]"] by simp

subsection \<open>Insertion and removal on a ring\<close>

definition link_between :: "'a \<Rightarrow> 'a \<Rightarrow> 'a \<Rightarrow> 'a lheap \<Rightarrow> 'a lheap" where
  "link_between n p q h =
     h\<lparr>lnext := (lnext h)(n := Some q, p := Some n), lprev := (lprev h)(q := Some n, n := Some p)\<rparr>"

definition unlink_between :: "'a \<Rightarrow> 'a \<Rightarrow> 'a lheap \<Rightarrow> 'a lheap" where
  "unlink_between p q h = h\<lparr>lnext := (lnext h)(p := Some q), lprev := (lprev h)(q := Some p)\<rparr>"

lemma lvalid_link [simp]:
  "lvalid (link_between n p q h) = lvalid h" "lvalid (unlink_between p q h) = lvalid h"
  by (simp_all add: link_between_def unlink_between_def)

lemma add_between_eq:
  assumes "lvalid h n" "lvalid h p" "lvalid h q" "n \<noteq> p" "n \<noteq> q"
  shows "lsp_list_add_between (Some n) (Some p) (Some q) h = Done (link_between n p q h)"
  using assms by (simp add: lsp_list_add_between_def link_defs link_between_def fun_upd_twist)

lemma ring_link_between:
  assumes r: "ring h head (xs @ ys)" and n: "n \<notin> set (head # xs @ ys)" "lvalid h n"
  shows "ring (link_between n (last (head # xs)) (hd (ys @ [head])) h) head (xs @ n # ys)"
    (is "ring ?h' _ _")
proof -
  from r obtain A p q B where A: "head # xs = A @ [p]" and B: "ys @ [head] = q # B"
    and l: "linked h (A @ [p])" "linked h (p # q # B)"
    and sA: "set (head # xs) = insert p (set A)" "set xs = set (tl (A @ [p]))"
    and sB: "set (ys @ [head]) = insert q (set B)" "set ys = set (butlast (q # B))"
    and d: "distinct (A @ [p])" "distinct (q # B)"
    by (rule ring_split)
  have disj: "set xs \<inter> set (ys @ [head]) = {}" "set ys \<inter> set (head # xs) = {}"
    and nn: "n \<notin> insert p (set A)" "n \<notin> insert q (set B)"
    using r n by (auto simp: ring_def simp flip: sA sB)
  have h': "?h' = link_between n p q h"
    unfolding A B by simp
  have pq: "p \<notin> set (butlast (q # B))" "q \<notin> set (tl (A @ [p]))"
    using disj sA(1) sB(1) by (simp_all only: flip: sA(2) sB(2)) blast+
  have nn': "n \<notin> set (tl (A @ [p]))" "n \<notin> set (butlast (q # B))"
    using n by (simp_all only: flip: sA(2) sB(2)) simp_all
  have 1: "linked ?h' (A @ [p])"
    unfolding h' using l(1) d nn nn' pq
    by (subst linked_frame [where h = h]) (auto simp: link_between_def)
  have 2: "linked ?h' (q # B)"
    unfolding h' using l(2) d nn nn' pq
    by (subst linked_frame [where h = h]) (auto simp: link_between_def)
  have "linked ?h' (p # n # q # B)"
    using 2 nn unfolding h' by (auto simp: link_between_def)
  with 1 have "linked ?h' (A @ p # n # q # B)"
    by (simp only: linked_append [of ?h' A p "n # q # B"])
  also have "A @ p # n # q # B = (A @ [p]) @ n # (q # B)"
    by simp
  also have "\<dots> = head # (xs @ n # ys) @ [head]"
    unfolding A [symmetric] B [symmetric] by simp
  finally show ?thesis
    using r n by (auto simp: ring_def)
qed

text \<open>The one lemma about insertion: the three entry points are instances of it.\<close>

lemma add_between_ring:
  assumes r: "ring h head (xs @ ys)" and n: "n \<notin> set (head # xs @ ys)" "lvalid h n"
  shows "lsp_list_add_between (Some n) (Some (last (head # xs))) (Some (hd (ys @ [head]))) h
      = Done (link_between n (last (head # xs)) (hd (ys @ [head])) h)"
proof (rule add_between_eq)
  have p: "last (head # xs) \<in> set (head # xs @ ys)"
    by simp
  have q: "hd (ys @ [head]) \<in> set (head # xs @ ys)"
    by (cases ys) simp_all
  show "lvalid h (last (head # xs))" "lvalid h (hd (ys @ [head]))"
    using r p q by (auto simp: ring_def)
  show "n \<noteq> last (head # xs)" "n \<noteq> hd (ys @ [head])"
    using n p q by metis+
qed (rule n)

text \<open>What an operation leaves alone: the links of the nodes outside a set, and validity.\<close>

definition same_outside :: "'a set \<Rightarrow> 'a lheap \<Rightarrow> 'a lheap \<Rightarrow> bool" where
  "same_outside S h h' \<longleftrightarrow> lvalid h' = lvalid h
     \<and> (\<forall>a. a \<notin> S \<longrightarrow> lnext h' a = lnext h a \<and> lprev h' a = lprev h a)"

lemma ring_same_outside:
  assumes "ring h head xs" "same_outside S h h'" "S \<inter> set (head # xs) = {}"
  shows "ring h' head xs"
proof -
  have s: "lnext h' a = lnext h a \<and> lprev h' a = lprev h a" if "a \<in> set (head # xs @ [head])" for a
    using assms(2,3) that by (auto simp: same_outside_def)
  have "linked h' (head # xs @ [head]) = linked h (head # xs @ [head])"
    by (rule linked_frame) (use s in \<open>auto dest: in_set_butlastD\<close>)
  with assms show ?thesis
    by (auto simp: ring_def same_outside_def)
qed

lemma ring_more_valid:
  assumes "ring h head xs"
  shows "ring (h\<lparr>lvalid := (lvalid h)(n := True)\<rparr>) head xs"
proof -
  have "linked (h\<lparr>lvalid := (lvalid h)(n := True)\<rparr>) (head # xs @ [head]) = linked h (head # xs @ [head])"
    by (rule linked_frame) simp_all
  with assms show ?thesis
    by (simp add: ring_def)
qed

lemma same_outside_link:
  "{n, p, q} \<subseteq> S \<Longrightarrow> same_outside S h (link_between n p q h)"
  by (auto simp: same_outside_def link_between_def)

lemma same_outside_unlink:
  "{p, q} \<subseteq> S \<Longrightarrow> same_outside S h (unlink_between p q h)"
  by (auto simp: same_outside_def unlink_between_def)

lemma ring_neighbours:
  "last (head # xs) \<in> set (head # xs)" "hd (ys @ [head]) \<in> set (head # ys)"
  by (simp, cases ys, simp_all)

text \<open>One statement for the three ways to insert: what is on the ring before and after.\<close>

definition inserts ::
  "('a lheap \<Rightarrow> 'a lheap exec) \<Rightarrow> 'a lheap \<Rightarrow> 'a \<Rightarrow> 'a \<Rightarrow> 'a list \<Rightarrow> 'a list \<Rightarrow> bool" where
  "inserts f h head n xs ys \<longleftrightarrow>
     (\<exists>h'. f h = Done h' \<and> ring h' head (xs @ n # ys)
        \<and> same_outside (set (n # head # xs @ ys)) h h')"

lemma insertsI:
  assumes "ring h head (xs @ ys)" "n \<notin> set (head # xs @ ys)" "lvalid h n"
    and "f h = lsp_list_add_between (Some n) (Some (last (head # xs))) (Some (hd (ys @ [head]))) h"
  shows "inserts f h head n xs ys"
  unfolding inserts_def
proof (intro exI conjI)
  show "f h = Done (link_between n (last (head # xs)) (hd (ys @ [head])) h)"
    using assms(4) add_between_ring [OF assms(1-3)] by simp
  show "ring (link_between n (last (head # xs)) (hd (ys @ [head])) h) head (xs @ n # ys)"
    by (rule ring_link_between [OF assms(1-3)])
  show "same_outside (set (n # head # xs @ ys)) h
      (link_between n (last (head # xs)) (hd (ys @ [head])) h)"
    by (rule same_outside_link) (use ring_neighbours(1) [of head xs] ring_neighbours(2) [of ys head] in auto)
qed

lemma lsp_list_add_inserts:
  assumes "ring h head xs" "n \<notin> set (head # xs)" "lvalid h n"
  shows "inserts (lsp_list_add (Some n) (Some head)) h head n [] xs"
  using assms by (intro insertsI) (auto simp: lsp_list_add_def link_defs ring_first ring_validD)

lemma lsp_list_add_tail_inserts:
  assumes "ring h head xs" "n \<notin> set (head # xs)" "lvalid h n"
  shows "inserts (lsp_list_add_tail (Some n) (Some head)) h head n xs []"
  using assms ring_last [OF assms(1)]
  by (intro insertsI) (auto simp: lsp_list_add_tail_def link_defs ring_validD)

lemma lsp_list_insert_before_inserts:
  assumes "ring h head (xs @ p # ys)" "n \<notin> set (head # xs @ p # ys)" "lvalid h n"
  shows "inserts (lsp_list_insert_before (Some n) (Some p)) h head n xs (p # ys)"
  using assms ring_cut(2) [OF assms(1)]
  by (intro insertsI) (auto simp: lsp_list_insert_before_def link_defs ring_validD)

lemma lsp_list_insert_after_inserts:
  assumes "ring h head (xs @ p # ys)" "n \<notin> set (head # xs @ p # ys)" "lvalid h n"
  shows "inserts (lsp_list_insert_after (Some n) (Some p)) h head n (xs @ [p]) ys"
  using assms ring_cut(1) [of h head "xs @ [p]" ys]
  by (intro insertsI) (auto simp: lsp_list_insert_after_def link_defs ring_validD)

subsection \<open>Removal\<close>

lemma ring_unlink_between:
  assumes r: "ring h head (xs @ n # ys)"
  shows "ring (unlink_between (last (head # xs)) (hd (ys @ [head])) h) head (xs @ ys)"
    (is "ring ?h' _ _")
proof -
  from r obtain A p q B where A: "head # xs = A @ [p]" and B: "(n # ys) @ [head] = q # B"
    and l: "linked h (A @ [p])" "linked h (p # q # B)"
    and sA: "set (head # xs) = insert p (set A)" "set xs = set (tl (A @ [p]))"
    and d: "distinct (A @ [p])"
    by (rule ring_split)
  obtain q' C where C: "ys @ [head] = q' # C"
    by (cases ys) auto
  have [simp]: "q = n" "B = q' # C"
    using B C by auto
  have sC: "set ys = set (butlast (q' # C))" "set (ys @ [head]) = insert q' (set C)"
    by (simp only: flip: C) (simp, simp only: C, simp)
  have dC: "distinct (q' # C)"
    using r unfolding C [symmetric] by (auto simp: ring_def)
  have disj: "set xs \<inter> set (ys @ [head]) = {}" "set ys \<inter> set (head # xs) = {}"
    using r by (auto simp: ring_def)
  have h': "?h' = unlink_between p q' h"
    unfolding A C by simp
  have pq: "p \<notin> set (butlast (q' # C))" "q' \<notin> set (tl (A @ [p]))"
    using disj sA(1) sC(2) by (simp_all only: flip: sA(2) sC(1)) blast+
  have 1: "linked ?h' (A @ [p])"
    unfolding h' using l(1) d pq
    by (subst linked_frame [where h = h]) (auto simp: unlink_between_def)
  have 2: "linked ?h' (q' # C)"
    unfolding h' using l(2) dC pq
    by (subst linked_frame [where h = h]) (auto simp: unlink_between_def)
  then have "linked ?h' (p # q' # C)"
    unfolding h' by (simp add: unlink_between_def)
  with 1 have "linked ?h' (A @ p # q' # C)"
    by (simp only: linked_append [of ?h' A p "q' # C"])
  also have "A @ p # q' # C = (A @ [p]) @ q' # C"
    by simp
  also have "\<dots> = head # (xs @ ys) @ [head]"
    unfolding A [symmetric] C [symmetric] by simp
  finally show ?thesis
    using r by (auto simp: ring_def)
qed

lemma lsp_list_del_ring:
  assumes r: "ring h head (xs @ n # ys)"
  shows "\<exists>h'. lsp_list_del (Some n) h = Done h' \<and> ring h' head (xs @ ys)
    \<and> same_outside (set (head # xs @ ys)) h h'"
proof (intro exI conjI)
  let ?p = "last (head # xs)" and ?q = "hd (ys @ [head])"
  have p: "?p \<in> set (head # xs)" and q: "?q \<in> set (head # ys)"
    by (rule ring_neighbours)+
  have v: "lvalid h n" "lvalid h ?p" "lvalid h ?q"
    using r p q by (auto simp: ring_def)
  have l: "lprev h n = Some ?p" "lnext h n = Some ?q"
    using ring_cut(2) [OF r] ring_cut(1) [of h head "xs @ [n]" ys] r by simp_all
  have ne: "n \<noteq> ?p" "n \<noteq> ?q"
    using r p q by (auto simp: ring_def)
  show "lsp_list_del (Some n) h = Done (unlink_between ?p ?q h)"
    using v l ne by (simp add: lsp_list_del_def link_defs unlink_between_def)
  show "ring (unlink_between ?p ?q h) head (xs @ ys)"
    by (rule ring_unlink_between [OF r])
  show "same_outside (set (head # xs @ ys)) h (unlink_between ?p ?q h)"
    by (rule same_outside_unlink) (use p q in auto)
qed

subsection \<open>Iteration\<close>

lemma list_search_next:
  "ring h head (xs @ p # ys) \<Longrightarrow>
     list_search rd_next h head P p = Some (Done (find P (p # ys)))"
proof (induction ys arbitrary: xs p)
  case Nil
  then show ?case
    using ring_cut(1) [of h head "xs @ [p]" "[]"]
    by (subst list_search.simps) (auto simp: link_defs ring_validD)
next
  case (Cons y ys)
  have "lnext h p = Some y" "y \<noteq> head"
    using Cons.prems ring_cut(1) [of h head "xs @ [p]" "y # ys"] by (auto simp: ring_def)
  moreover have "list_search rd_next h head P y = Some (Done (find P (y # ys)))"
    using Cons.prems by (intro Cons.IH [of "xs @ [p]"]) simp
  ultimately show ?case
    using Cons.prems by (subst list_search.simps) (auto simp: link_defs ring_validD)
qed

lemma list_search_prev:
  "ring h head (xs @ p # ys) \<Longrightarrow>
     list_search rd_prev h head P p = Some (Done (find P (p # rev xs)))"
proof (induction xs arbitrary: ys p rule: rev_induct)
  case Nil
  then show ?case
    using ring_cut(2) [of h head "[]" "p # ys"]
    by (subst list_search.simps) (auto simp: link_defs ring_validD)
next
  case (snoc x xs)
  have "lprev h p = Some x" "x \<noteq> head"
    using snoc.prems ring_cut(2) [of h head "xs @ [x]" "p # ys"] by (auto simp: ring_def)
  moreover have "list_search rd_prev h head P x = Some (Done (find P (x # rev xs)))"
    using snoc.prems by (intro snoc.IH [of _ "p # ys"]) simp
  ultimately show ?case
    using snoc.prems by (subst list_search.simps) (auto simp: link_defs ring_validD)
qed

lemma ring_ends_eq:
  assumes "ring h head xs"
  shows "lnext h head = lprev h head \<longleftrightarrow> length xs \<le> 1"
proof (cases xs)
  case (Cons x ys)
  with assms have "x \<noteq> last (x # ys) \<longleftrightarrow> ys \<noteq> []"
    by (auto simp: ring_def)
  with assms Cons show ?thesis
    by (auto simp: ring_first ring_last Suc_le_eq)
qed (use assms in \<open>simp add: ring_first ring_last\<close>)

lemma lsp_list_is_empty_ring:
  "ring h head xs \<Longrightarrow> lsp_list_is_empty (Some head) h = Done (length xs \<le> 1)"
  using ring_ends_eq [of h head xs] by (simp add: lsp_list_is_empty_def link_defs ring_validD)

lemma lsp_list_for_ring:
  assumes "ring h head xs"
  shows "lsp_list_for P head h = Done (if length xs \<le> 1 then None else find P xs)"
proof (cases xs)
  case (Cons x ys)
  with assms show ?thesis
    using ring_ends_eq [OF assms] ring_first [OF assms] list_search_next [of h head "[]" x ys P]
    by (simp add: lsp_list_for_def list_for_from_def link_defs ring_validD)
qed (use assms ring_ends_eq [OF assms] in
    \<open>simp add: lsp_list_for_def list_for_from_def link_defs ring_validD\<close>)

lemma lsp_list_for_back_ring:
  assumes "ring h head xs"
  shows "lsp_list_for_back P head h = Done (if length xs \<le> 1 then None else find P (rev xs))"
proof (cases xs rule: rev_cases)
  case (snoc ys x)
  with assms show ?thesis
    using ring_ends_eq [OF assms] ring_last [OF assms] list_search_prev [of h head ys x "[]" P]
    by (simp add: lsp_list_for_back_def list_for_from_def link_defs ring_validD)
qed (use assms ring_ends_eq [OF assms] in
    \<open>simp add: lsp_list_for_back_def list_for_from_def link_defs ring_validD\<close>)

lemma lsp_list_head_init_ring:
  assumes "lvalid h head"
  shows "\<exists>h'. lsp_list_head_init (Some head) h = Done h' \<and> ring h' head [] \<and> same_outside {head} h h'"
  using assms by (simp add: lsp_list_head_init_def link_defs ring_def same_outside_def)

subsection \<open>The interface the clients use\<close>

text \<open>
  The route table and the interface list use two operations: put a node in front, search with
  the iteration macro. The laws are what \<open>lsp_list_add\<close> and \<open>lsp_list_for\<close> promise over the
  list of nodes; the client's lemmas say what a search finds after an insertion.
\<close>

locale node_store =
  fixes holds :: "'h \<Rightarrow> 'n list \<Rightarrow> bool"
    and usable :: "'h \<Rightarrow> 'n \<Rightarrow> bool"
    and add :: "'n \<Rightarrow> 'h \<Rightarrow> 'h exec"
    and search :: "('n \<Rightarrow> bool) \<Rightarrow> 'h \<Rightarrow> 'n option exec"
  assumes add_holds: "holds h xs \<Longrightarrow> usable h n \<Longrightarrow> n \<notin> set xs \<Longrightarrow>
      \<exists>h'. add n h = Done h' \<and> holds h' (n # xs) \<and> usable h' = usable h"
    and search_holds: "holds h xs \<Longrightarrow> search P h = Done (if length xs \<le> 1 then None else find P xs)"
begin

lemma add_then_search:
  assumes "holds h xs" "usable h n" "n \<notin> set xs"
  obtains h' where "add n h = Done h'" and "holds h' (n # xs)" and "usable h' = usable h"
    and "\<And>P. search P h' = Done (if xs = [] then None else if P n then Some n else find P xs)"
proof -
  from add_holds [OF assms] obtain h' where h': "add n h = Done h'" "holds h' (n # xs)"
    "usable h' = usable h"
    by blast
  have "search P h' = Done (if xs = [] then None else if P n then Some n else find P xs)" for P
    using search_holds [OF h'(2), of P] by (cases xs) auto
  with h' show thesis by (rule that)
qed

text \<open>A search never finds what is not there, and its result satisfies the predicate.\<close>

lemma search_sound:
  assumes "holds h xs" "search P h = Done (Some n)"
  shows "n \<in> set xs \<and> P n"
  using assms search_holds [of h xs P] by (auto split: if_splits simp: find_Some_iff in_set_conv_nth)

lemma search_complete:
  assumes "holds h xs" "2 \<le> length xs" "n \<in> set xs" "P n"
  shows "\<exists>m. search P h = Done (Some m)"
proof -
  from assms(3,4) have "find P xs \<noteq> None"
    by (auto simp: find_None_iff)
  with assms(1,2) show ?thesis
    using search_holds [of h xs P] by auto
qed

end

interpretation ring_store: node_store
  "\<lambda>h. ring h head" "\<lambda>h n. lvalid h n \<and> n \<noteq> head"
  "\<lambda>n. lsp_list_add (Some n) (Some head)" "\<lambda>P. lsp_list_for P head"
  for head
proof unfold_locales
  fix h :: "'a lheap" and xs n
  assume "ring h head xs" "lvalid h n \<and> n \<noteq> head" "n \<notin> set xs"
  then show "\<exists>h'. lsp_list_add (Some n) (Some head) h = Done h' \<and> ring h' head (n # xs)
      \<and> (\<lambda>n. lvalid h' n \<and> n \<noteq> head) = (\<lambda>n. lvalid h n \<and> n \<noteq> head)"
    using lsp_list_add_inserts [of h head xs n] by (auto simp: inserts_def same_outside_def)
qed (rule lsp_list_for_ring)

subsection \<open>Properties\<close>

text \<open>A list with head 0 and nodes 2 and 5, and a free node 3, for the examples.\<close>

definition list_example :: "nat lheap" where
  "list_example =
     \<lparr>lnext = (\<lambda>n. if n = 0 then Some 2 else if n = 2 then Some 5 else if n = 5 then Some 0 else None),
      lprev = (\<lambda>n. if n = 0 then Some 5 else if n = 5 then Some 2 else if n = 2 then Some 0 else None),
      lvalid = (\<lambda>n. n < 8)\<rparr>"

lemma list_example_ring: "ring list_example 0 [2, 5]"
  by (simp add: ring_def list_example_def)

lemma list_example_valid: "lvalid list_example n \<longleftrightarrow> n < 8"
  by (simp add: list_example_def)

text \<open>
  C16. Insertion, at the front (\<open>lsp_list_add\<close>), at the back (\<open>lsp_list_add_tail\<close>), before a node
  and after a node: on a well-formed list every entry point returns, the new list is the old one
  with the node at the stated place, still well-formed in both directions, and no link outside
  the list and the new node is written.
\<close>

theorem list_insertions:
  assumes "ring h head (xs @ p # ys)" and "n \<notin> set (head # xs @ p # ys)" and "lvalid h n"
  shows "inserts (lsp_list_add (Some n) (Some head)) h head n [] (xs @ p # ys)
    \<and> inserts (lsp_list_add_tail (Some n) (Some head)) h head n (xs @ p # ys) []
    \<and> inserts (lsp_list_insert_before (Some n) (Some p)) h head n xs (p # ys)
    \<and> inserts (lsp_list_insert_after (Some n) (Some p)) h head n (xs @ [p]) ys"
  using assms
  by (intro conjI lsp_list_add_inserts lsp_list_add_tail_inserts
      lsp_list_insert_before_inserts lsp_list_insert_after_inserts)

theorem list_insertions_witness:
  "inserts (lsp_list_insert_before (Some 3) (Some 5)) list_example 0 3 [2] [5]"
  using list_insertions [of list_example 0 "[2]" 5 "[]" 3]
  by (simp add: list_example_ring list_example_valid)

text \<open>
  C17. Removal: \<open>lsp_list_del\<close> of a node of a well-formed list returns, leaves the well-formed list
  of the other nodes in their order, and writes no link of the removed node: its own links still
  point into the list.
\<close>

theorem list_removal:
  assumes "ring h head (xs @ n # ys)"
  shows "\<exists>h'. lsp_list_del (Some n) h = Done h' \<and> ring h' head (xs @ ys)
    \<and> lnext h' n = Some (hd (ys @ [head])) \<and> lprev h' n = Some (last (head # xs))"
proof -
  from lsp_list_del_ring [OF assms] obtain h' where h': "lsp_list_del (Some n) h = Done h'"
    "ring h' head (xs @ ys)" "same_outside (set (head # xs @ ys)) h h'"
    by blast
  have "n \<notin> set (head # xs @ ys)"
    using assms by (auto simp: ring_def)
  then have "lnext h' n = lnext h n" "lprev h' n = lprev h n"
    using h'(3) by (simp_all add: same_outside_def)
  with h' show ?thesis
    using ring_cut(2) [OF assms] ring_cut(1) [of h head "xs @ [n]" ys] assms by simp
qed

theorem list_removal_witness:
  "\<exists>h'. lsp_list_del (Some 2) list_example = Done h' \<and> ring h' 0 [5]
    \<and> lnext h' 2 = Some 5 \<and> lprev h' 2 = Some 0"
  using list_removal [of list_example 0 "[]" 2 "[5]"] by (simp add: list_example_ring)

text \<open>
  The emptiness test and the iteration macros: both compare \<open>next\<close> and \<open>prev\<close> of the head,
  which are equal for a list of one node too. A list of one node is reported empty and both
  iterations visit nothing; a list of two or more nodes is searched in order (or in reverse)
  to its end, and the loop always ends.
\<close>

theorem list_iteration:
  assumes "ring h head xs"
  shows "lsp_list_is_empty (Some head) h = Done (length xs \<le> 1)
    \<and> lsp_list_for P head h = Done (if length xs \<le> 1 then None else find P xs)
    \<and> lsp_list_for_back P head h = Done (if length xs \<le> 1 then None else find P (rev xs))"
  using assms
  by (intro conjI lsp_list_is_empty_ring lsp_list_for_ring lsp_list_for_back_ring)

theorem list_iteration_witness:
  "lsp_list_is_empty (Some 0) list_example = Done False
   \<and> lsp_list_for (\<lambda>n. n = 5) 0 list_example = Done (Some 5)"
  using list_iteration [of list_example 0 "[2, 5]" "\<lambda>n. n = 5"] list_example_ring by simp

text \<open>
  Removing a node right after inserting it, at either end, gives back the list and every link
  of the list as it was.
\<close>

theorem list_add_del_roundtrip:
  assumes "ring h head xs" and "n \<notin> set (head # xs)" and "lvalid h n"
  shows "\<exists>h1 h2. lsp_list_add (Some n) (Some head) h = Done h1
    \<and> lsp_list_del (Some n) h1 = Done h2 \<and> ring h2 head xs \<and> same_outside {n} h h2"
proof -
  let ?q = "hd (xs @ [head])"
  let ?h1 = "link_between n head ?q h"
  have a: "lsp_list_add (Some n) (Some head) h = Done ?h1" and r: "ring ?h1 head (n # xs)"
    using assms add_between_ring [of h head "[]" xs n] ring_link_between [of h head "[]" xs n]
    by (simp_all add: lsp_list_add_def link_defs ring_first ring_validD)
  have q: "?q \<in> set (head # xs)"
    by (rule ring_neighbours)
  have v: "lvalid h head" "lvalid h ?q"
    using assms(1) q by (auto simp: ring_def)
  have ne: "n \<noteq> head" "n \<noteq> ?q"
    using assms(2) q by auto
  let ?h2 = "unlink_between head ?q ?h1"
  have d: "lsp_list_del (Some n) ?h1 = Done ?h2"
    using v assms(3) ne by (simp add: lsp_list_del_def link_defs unlink_between_def link_between_def)
  have "ring ?h2 head xs"
    using ring_unlink_between [of ?h1 head "[]" n xs] r by simp
  moreover have "same_outside {n} h ?h2"
    using ring_first [OF assms(1)] ring_cut(2) [of h head "[]" xs] assms(1)
    by (simp add: same_outside_def unlink_between_def link_between_def)
  ultimately show ?thesis
    using a d by blast
qed

theorem list_add_del_roundtrip_witness:
  "\<exists>h1 h2. lsp_list_add (Some 3) (Some 0) list_example = Done h1
    \<and> lsp_list_del (Some 3) h1 = Done h2 \<and> ring h2 0 [2, 5] \<and> same_outside {3} list_example h2"
  using list_add_del_roundtrip [of list_example 0 "[2, 5]" 3] list_example_ring
  by (simp add: list_example_valid)

end
