(* ===== verification/LspTypes.thy ===== *)
theory LspTypes imports LspPrelude begin

section \<open>Constants, size macros and the packet header (lsp_types.h, lsp_defaults.h, lsp_buffer.h)\<close>

text \<open>
  The macros of \<open>include/lsp_types.h\<close> and \<open>include/lsp_defaults.h\<close> under their own names,
  \<open>IS_ALIGNED\<close> and \<open>ALIGNED_SIZE\<close> on a 64-bit \<open>size_t\<close>, and \<open>struct lsp_packet_s\<close> with the
  layout GCC gives its bit fields on a little-endian machine (a field starts at the lowest free
  bit of its 16-bit unit).
\<close>

unbundle bit_operations_syntax

subsection \<open>Error codes\<close>

definition LSP_ERR_NONE :: int where [lsp_consts]: "LSP_ERR_NONE = 0"
definition LSP_ERR :: int where [lsp_consts]: "LSP_ERR = 1"
definition LSP_ERR_NOMEM :: int where [lsp_consts]: "LSP_ERR_NOMEM = 2"
definition LSP_ERR_MUTEX :: int where [lsp_consts]: "LSP_ERR_MUTEX = 3"
definition LSP_ERR_TIMEOUT :: int where [lsp_consts]: "LSP_ERR_TIMEOUT = 4"
definition LSP_ERR_INVALID :: int where [lsp_consts]: "LSP_ERR_INVALID = 5"
definition LSP_ERR_RESOURCE_IN_USE :: int where [lsp_consts]: "LSP_ERR_RESOURCE_IN_USE = 5"
definition LSP_ERR_QUEUE_FULL :: int where [lsp_consts]: "LSP_ERR_QUEUE_FULL = 10"
definition LSP_ERR_QUEUE_EMPTY :: int where [lsp_consts]: "LSP_ERR_QUEUE_EMPTY = 11"
definition LSP_ERR_PORT_IN_USE :: int where [lsp_consts]: "LSP_ERR_PORT_IN_USE = 20"
definition LSP_ERR_PORT_INVALID :: int where [lsp_consts]: "LSP_ERR_PORT_INVALID = 21"
definition LSP_ERR_ADDR_NOTFOUND :: int where [lsp_consts]: "LSP_ERR_ADDR_NOTFOUND = 30"
definition LSP_ERR_ADDR_INVALID :: int where [lsp_consts]: "LSP_ERR_ADDR_INVALID = 31"
definition LSP_ERR_SOCK_NOT_CONNECTED :: int
  where [lsp_consts]: "LSP_ERR_SOCK_NOT_CONNECTED = 40"
definition LSP_ERR_SOCK_OPT_INVALID :: int where [lsp_consts]: "LSP_ERR_SOCK_OPT_INVALID = 41"
definition LSP_ERR_CONN_FULL :: int where [lsp_consts]: "LSP_ERR_CONN_FULL = 40"

subsection \<open>Protocol constants\<close>

definition AF_LSP :: int where [lsp_consts]: "AF_LSP = 46"
definition LSP_SOCK_STREAM :: int where [lsp_consts]: "LSP_SOCK_STREAM = 1"
definition LSP_SOCK_RAW :: int where [lsp_consts]: "LSP_SOCK_RAW = 3"
definition LSPPROTO_LSP :: int where [lsp_consts]: "LSPPROTO_LSP = 46"
definition LSP_PORT_ANY :: int where [lsp_consts]: "LSP_PORT_ANY = 255"
definition LSP_ADDR_ANY :: int where [lsp_consts]: "LSP_ADDR_ANY = 65535"
definition LSP_CONN_PRIO_MAX :: int where [lsp_consts]: "LSP_CONN_PRIO_MAX = 7"
definition LSP_CONN_PRIO_DEF :: int where [lsp_consts]: "LSP_CONN_PRIO_DEF = 4"
definition LSP_TIMEOUT_MAX :: u32 where [lsp_consts]: "LSP_TIMEOUT_MAX = 0xFFFFFFFF"

definition LSP_PACKET_ADDR_BITS :: nat where [lsp_consts]: "LSP_PACKET_ADDR_BITS = 16"
definition LSP_PACKET_PLEN_BITS :: nat where [lsp_consts]: "LSP_PACKET_PLEN_BITS = 10"
definition LSP_PACKET_PROTO_BITS :: nat where [lsp_consts]: "LSP_PACKET_PROTO_BITS = 6"
definition LSP_PACKET_FRAG_BITS :: nat where [lsp_consts]: "LSP_PACKET_FRAG_BITS = 3"
definition LSP_PACKET_SEQNUM_BITS :: nat where [lsp_consts]: "LSP_PACKET_SEQNUM_BITS = 3"
definition LSP_PACKET_PORT_BITS :: nat where [lsp_consts]: "LSP_PACKET_PORT_BITS = 5"

definition LSP_PACKET_ADDR_MAX :: int
  where [lsp_consts]: "LSP_PACKET_ADDR_MAX = push_bit LSP_PACKET_ADDR_BITS 1 - 1"
definition LSP_PACKET_PLEN_MAX :: int
  where [lsp_consts]: "LSP_PACKET_PLEN_MAX = push_bit LSP_PACKET_PLEN_BITS 1 - 1"
definition LSP_PACKET_PROTO_MAX :: int
  where [lsp_consts]: "LSP_PACKET_PROTO_MAX = push_bit LSP_PACKET_PROTO_BITS 1 - 1"
definition LSP_PACKET_FRAG_MAX :: int
  where [lsp_consts]: "LSP_PACKET_FRAG_MAX = push_bit LSP_PACKET_FRAG_BITS 1 - 1"
definition LSP_PACKET_SEQNUM_MAX :: int
  where [lsp_consts]: "LSP_PACKET_SEQNUM_MAX = push_bit LSP_PACKET_SEQNUM_BITS 1 - 1"
definition LSP_PACKET_PORT_MAX :: int
  where [lsp_consts]: "LSP_PACKET_PORT_MAX = push_bit LSP_PACKET_PORT_BITS 1 - 1"

definition LSP_IF_FLAGS_ZERO_COPY :: int where [lsp_consts]: "LSP_IF_FLAGS_ZERO_COPY = push_bit 0 1"
definition LSP_IF_FLAGS_HW_CRC :: int where [lsp_consts]: "LSP_IF_FLAGS_HW_CRC = push_bit 1 1"
definition LSP_EVENT_RX_EVENT :: int where [lsp_consts]: "LSP_EVENT_RX_EVENT = 1"

text \<open>The ports of the services of the library.\<close>

datatype lsp_service_ports = LSP_SP_SYS | LSP_SP_PING | LSP_SP_FORWARDING | LSP_SP_MAX

fun service_port :: "lsp_service_ports \<Rightarrow> int" where
  "service_port LSP_SP_SYS = 0"
| "service_port LSP_SP_PING = 1"
| "service_port LSP_SP_FORWARDING = 2"
| "service_port LSP_SP_MAX = 8"

text \<open>Two pairs of error codes share a number, so a caller cannot tell an invalid argument from a resource
  that is in use, nor a full pool from a socket that is not connected.\<close>

lemma error_codes_collide:
  "LSP_ERR_INVALID = LSP_ERR_RESOURCE_IN_USE" "LSP_ERR_SOCK_NOT_CONNECTED = LSP_ERR_CONN_FULL"
  by (simp_all add: lsp_consts)

lemma LSP_PACKET_PORT_MAX_eq: "LSP_PACKET_PORT_MAX = 31"
  by (simp add: lsp_consts push_bit_eq_mult)

lemma LSP_PACKET_ADDR_MAX_eq: "LSP_PACKET_ADDR_MAX = 65535"
  by (simp add: lsp_consts push_bit_eq_mult)

subsection \<open>Defaults\<close>

definition LSP_DEFAULT_ADDR :: u16 where [lsp_consts]: "LSP_DEFAULT_ADDR = 0xAE55"
definition LSP_DEFAULT_HOSTNAME :: string
  where [lsp_consts]: "LSP_DEFAULT_HOSTNAME = ''LSP Hostname''"
definition LSP_DEFAULT_MACHINENAME :: string
  where [lsp_consts]: "LSP_DEFAULT_MACHINENAME = ''LSP Machinename''"
definition LSP_DEFAULT_LSPREV :: string
  where [lsp_consts]: "LSP_DEFAULT_LSPREV = ''LSP Revision''"
definition LSP_DEFAULT_BUFFER_HEADER_LEN :: int
  where [lsp_consts]: "LSP_DEFAULT_BUFFER_HEADER_LEN = 8"
definition LSP_DEFAULT_MAX_CONNECTIONS :: int
  where [lsp_consts]: "LSP_DEFAULT_MAX_CONNECTIONS = 32"
definition LSP_DEFAULT_CONN_QUEUELEN :: int
  where [lsp_consts]: "LSP_DEFAULT_CONN_QUEUELEN = 4"
definition LSP_DEFAULT_QUEUE_TIMEOUT_MS :: u32
  where [lsp_consts]: "LSP_DEFAULT_QUEUE_TIMEOUT_MS = 100"
definition LSP_DEFAULT_MUTEX_TIMEOUT_MS :: u32
  where [lsp_consts]: "LSP_DEFAULT_MUTEX_TIMEOUT_MS = 100"
definition LSP_DEFAULT_ROUTE_EXPIRY_MS :: int
  where [lsp_consts]: "LSP_DEFAULT_ROUTE_EXPIRY_MS = 500"
definition LSP_DEFAULT_CORE_STACK_SIZE :: int
  where [lsp_consts]: "LSP_DEFAULT_CORE_STACK_SIZE = 2048"
definition LSP_DEFAULT_CORE_PRIORITY :: int
  where [lsp_consts]: "LSP_DEFAULT_CORE_PRIORITY = 7"
definition LSP_DEFAULT_CORE_EVQUEUE_LEN :: int
  where [lsp_consts]: "LSP_DEFAULT_CORE_EVQUEUE_LEN = 32"

subsection \<open>Alignment macros\<close>

text \<open>\<open>sizeof(void *)\<close> is 8 and \<open>sizeof(int)\<close> is 4; the arithmetic is that of \<open>size_t\<close>.\<close>

definition IS_ALIGNED :: "size_t \<Rightarrow> bool" where
  "IS_ALIGNED x \<longleftrightarrow> x mod 8 = 0 \<or> x mod 4 = 0 \<or> x = 1 \<or> x = 2"

definition ALIGNED_SIZE :: "size_t \<Rightarrow> size_t" where
  "ALIGNED_SIZE x = (x div 8 + (if x mod 8 \<noteq> 0 then 1 else 0)) * 8"

lemma unat_numeral_8: "unat (8 :: size_t) = 8"
  by simp

lemma round_up_8: "n div 8 + (if n mod 8 \<noteq> 0 then 1 else 0) = (n + 7) div (8 :: nat)"
proof -
  have split: "(8 * q + r + 7) div 8 = q + (if r \<noteq> 0 then 1 else 0)" if "r < 8" for q r :: nat
    using that by (intro div_nat_eqI) (auto simp: mult_Suc_right)
  show ?thesis
    using split [of "n mod 8" "n div 8"] by simp
qed

lemma unat_ALIGNED_SIZE:
  assumes "unat x + 7 < 2 ^ 64"
  shows "unat (ALIGNED_SIZE x) = (unat x + 7) div 8 * 8"
proof -
  have m: "x mod 8 = 0 \<longleftrightarrow> unat x mod 8 = 0"
    by (metis unat_eq_zero unat_mod_distrib unat_numeral_8)
  have "(unat x + 7) div 8 * 8 \<le> unat x + 7"
    by (rule div_times_less_eq_dividend)
  then have le: "(unat x + 7) div 8 * 8 < 2 ^ 64"
    using assms by (rule le_less_trans)
  have "unat (ALIGNED_SIZE x) = (unat x div 8 + (if unat x mod 8 \<noteq> 0 then 1 else 0)) * 8 mod 2 ^ 64"
    unfolding ALIGNED_SIZE_def m by (simp add: unat_word_ariths unat_div_distrib mod_simps)
  then show ?thesis
    unfolding round_up_8 using le by (metis mod_less)
qed

text \<open>The last seven sizes have no aligned size: rounding them up wraps around to 0.\<close>

lemma ALIGNED_SIZE_wraps: "ALIGNED_SIZE (- 1) = 0"
  by code_simp

subsection \<open>The packet header\<close>

record lsp_packet =
  dst_addr :: u16
  src_addr :: u16
  plen :: "10 word"
  proto :: "6 word"
  frag :: "3 word"
  seqnum :: "3 word"
  src_port :: "5 word"
  dst_port :: "5 word"

definition packet_units :: "lsp_packet \<Rightarrow> u16 list" where
  "packet_units p =
    [dst_addr p,
     src_addr p,
     ucast (plen p) OR push_bit 10 (ucast (proto p)),
     ucast (frag p) OR push_bit 3 (ucast (seqnum p))
       OR push_bit 6 (ucast (src_port p)) OR push_bit 11 (ucast (dst_port p))]"

definition units_packet :: "u16 list \<Rightarrow> lsp_packet option" where
  "units_packet us =
    (case us of
       [d, s, l, f] \<Rightarrow>
         Some \<lparr>dst_addr = d, src_addr = s, plen = ucast l, proto = ucast (drop_bit 10 l),
               frag = ucast f, seqnum = ucast (drop_bit 3 f),
               src_port = ucast (drop_bit 6 f), dst_port = ucast (drop_bit 11 f)\<rparr>
     | _ \<Rightarrow> None)"

definition unit_bytes :: "u16 \<Rightarrow> u8 list" where
  "unit_bytes u = [ucast u, ucast (drop_bit 8 u)]"

definition packet_bytes :: "lsp_packet \<Rightarrow> u8 list" where
  "packet_bytes p = concat (map unit_bytes (packet_units p))"

fun bytes_units :: "u8 list \<Rightarrow> u16 list option" where
  "bytes_units [] = Some []"
| "bytes_units [_] = None"
| "bytes_units (lo # hi # bs) =
     map_option (\<lambda>us. (ucast lo OR push_bit 8 (ucast hi)) # us) (bytes_units bs)"

definition bytes_packet :: "u8 list \<Rightarrow> lsp_packet option" where
  "bytes_packet bs = Option.bind (bytes_units bs) units_packet"

lemmas unit_bits = bit_or_iff bit_push_bit_iff bit_drop_bit_eq bit_ucast_iff

lemma bytes_units_concat: "bytes_units (concat (map unit_bytes us)) = Some us"
proof (induction us)
  case (Cons u us)
  have "(ucast (ucast u :: u8) OR push_bit 8 (ucast (ucast (drop_bit 8 u) :: u8)) :: u16) = u"
    by (rule bit_word_eqI) (auto simp: unit_bits dest: bit_imp_le_length)
  with Cons.IH show ?case by (simp add: unit_bytes_def)
qed simp

lemma unit_fields2:
  fixes l :: "10 word" and r :: "6 word"
  shows "(ucast (ucast l OR push_bit 10 (ucast r) :: u16) :: 10 word) = l"
    and "(ucast (drop_bit 10 (ucast l OR push_bit 10 (ucast r) :: u16)) :: 6 word) = r"
  by (rule bit_word_eqI; auto simp: unit_bits dest: bit_imp_le_length)+

lemma unit_fields4:
  fixes a b :: "3 word" and c d :: "5 word"
  defines "u \<equiv> (ucast a OR push_bit 3 (ucast b) OR push_bit 6 (ucast c)
        OR push_bit 11 (ucast d) :: u16)"
  shows "(ucast u :: 3 word) = a" and "(ucast (drop_bit 3 u) :: 3 word) = b"
    and "(ucast (drop_bit 6 u) :: 5 word) = c" and "(ucast (drop_bit 11 u) :: 5 word) = d"
  unfolding u_def by (rule bit_word_eqI; auto simp: unit_bits dest: bit_imp_le_length)+

lemma units_packet_units: "units_packet (packet_units p) = Some p"
  by (cases p) (simp only: packet_units_def units_packet_def list.case unit_fields2 unit_fields4
      lsp_packet.select_convs)

lemma packet_bytes_inverse:
  "bytes_packet (packet_bytes p) = Some p" "length (packet_bytes p) = 8"
proof -
  show "bytes_packet (packet_bytes p) = Some p"
    unfolding bytes_packet_def by (simp add: packet_bytes_def bytes_units_concat units_packet_units)
  show "length (packet_bytes p) = 8"
    by (simp add: packet_bytes_def packet_units_def unit_bytes_def)
qed

text \<open>The other direction: any eight bytes are a header.\<close>

lemma unit_bytes_pair: "unit_bytes (ucast lo OR push_bit 8 (ucast hi)) = [lo, hi]"
  for lo hi :: u8
proof -
  have "(ucast (ucast lo OR push_bit 8 (ucast hi) :: u16) :: u8) = lo"
    "(ucast (drop_bit 8 (ucast lo OR push_bit 8 (ucast hi) :: u16)) :: u8) = hi"
    by (rule bit_word_eqI; auto simp: unit_bits dest: bit_imp_le_length)+
  then show ?thesis
    by (simp add: unit_bytes_def)
qed

lemma bytes_units_Some: "bytes_units bs = Some us \<longleftrightarrow> bs = concat (map unit_bytes us)"
proof
  show "bytes_units bs = Some us \<Longrightarrow> bs = concat (map unit_bytes us)"
    by (induction bs arbitrary: us rule: bytes_units.induct) (auto simp: unit_bytes_pair)
qed (simp add: bytes_units_concat)

lemma field_pair:
  fixes l :: u16
  shows "(ucast (ucast l :: 10 word) OR push_bit 10 (ucast (ucast (drop_bit 10 l) :: 6 word))) = l"
  by (rule bit_word_eqI) (auto simp: unit_bits dest: bit_imp_le_length)

lemma field_quad:
  fixes f :: u16
  shows "(ucast (ucast f :: 3 word) OR push_bit 3 (ucast (ucast (drop_bit 3 f) :: 3 word))
    OR push_bit 6 (ucast (ucast (drop_bit 6 f) :: 5 word)) OR push_bit 11 (ucast (ucast (drop_bit 11 f) :: 5 word))) = f"
    (is "?u = f")
proof (rule bit_word_eqI)
  show "bit ?u n = bit f n" if "n < LENGTH(16)" for n
    using that by (cases "n < 11"; cases "n < 6") (auto simp: unit_bits)
qed

lemma units_packet_Some: "units_packet us = Some p \<longleftrightarrow> us = packet_units p"
proof
  show "units_packet us = Some p \<Longrightarrow> us = packet_units p"
    by (auto simp: units_packet_def packet_units_def field_pair field_quad split: list.splits)
qed (simp add: units_packet_units)

lemma bytes_packet_Some: "bytes_packet bs = Some p \<longleftrightarrow> bs = packet_bytes p"
  by (auto simp: bytes_packet_def packet_bytes_def bind_eq_Some_conv bytes_units_Some units_packet_Some)

lemma bytes_packet_total: "length bs = 8 \<Longrightarrow> \<exists>p. bytes_packet bs = Some p"
  by (auto simp: bytes_packet_def units_packet_def numeral_eq_Suc length_Suc_conv)

lemma field_le: "uint (w :: 'a::len word) \<le> push_bit LENGTH('a) 1 - 1"
  using uint_lt2p [of w] by (simp add: push_bit_eq_mult)

text \<open>
  A packet header and the memory layout of \<open>struct lsp_packet_s\<close>. The bytes of a header read back
  as the same header and as no other, and a string of bytes is a header exactly when it has the
  8 bytes that the library reserves in front of a payload (\<open>LSP_DEFAULT_BUFFER_HEADER_LEN\<close>); no
  field that is read is greater than the macro of its maximum.
\<close>

theorem packet_roundtrip:
  "(bytes_packet bs = Some p \<longleftrightarrow> bs = packet_bytes p)
   \<and> ((\<exists>p. bytes_packet bs = Some p) \<longleftrightarrow> int (length bs) = LSP_DEFAULT_BUFFER_HEADER_LEN)
   \<and> uint (dst_addr p) \<le> LSP_PACKET_ADDR_MAX \<and> uint (plen p) \<le> LSP_PACKET_PLEN_MAX
   \<and> uint (proto p) \<le> LSP_PACKET_PROTO_MAX \<and> uint (frag p) \<le> LSP_PACKET_FRAG_MAX
   \<and> uint (seqnum p) \<le> LSP_PACKET_SEQNUM_MAX \<and> uint (dst_port p) \<le> LSP_PACKET_PORT_MAX"
proof -
  have "(\<exists>p. bytes_packet bs = Some p) \<longleftrightarrow> length bs = 8"
    using bytes_packet_total bytes_packet_Some packet_bytes_inverse(2) by metis
  moreover have "LSP_DEFAULT_BUFFER_HEADER_LEN = 8"
    by (simp add: lsp_consts)
  ultimately show ?thesis
    using field_le [of "dst_addr p"] field_le [of "plen p"] field_le [of "proto p"] field_le [of "frag p"]
      field_le [of "seqnum p"] field_le [of "dst_port p"]
    by (simp add: bytes_packet_Some lsp_consts)
qed

end
