(* ===== verification/LspTime.thy ===== *)
theory LspTime imports LspTypes begin

section \<open>Clocks and deadlines (arch/posix/lsp_time.c and the deadlines of the waits)\<close>

text \<open>
  A \<open>struct timespec\<close> is a record of two integers (a 64-bit \<open>time_t\<close> and \<open>long\<close>, which the
  sums below do not overflow). What the operating system answers is an argument: \<open>None\<close> for
  a failing \<open>clock_gettime\<close>, a \<open>scan_result\<close> for \<open>sscanf\<close>. Two deadlines are computed from a
  timeout in the code, one for the timed lock of a mutex and one for the timed wait on a
  condition variable; only the first is normalised.
\<close>

record timespec =
  tv_sec :: int
  tv_nsec :: int

definition valid_timespec :: "timespec \<Rightarrow> bool" where
  "valid_timespec ts \<longleftrightarrow> 0 \<le> tv_nsec ts \<and> tv_nsec ts < 1000000000"

definition timespec_ns :: "timespec \<Rightarrow> int" where
  "timespec_ns ts = tv_sec ts * 1000000000 + tv_nsec ts"

abbreviation ETIMEDOUT :: int where "ETIMEDOUT \<equiv> 110"
abbreviation EINVAL :: int where "EINVAL \<equiv> 22"

subsection \<open>Reading the clock\<close>

definition lsp_gettime_ms :: "timespec option \<Rightarrow> u32" where
  "lsp_gettime_ms clk =
     (case clk of
        None \<Rightarrow> 0
      | Some ts \<Rightarrow> int_to_u32 (tv_sec ts) * 1000 + int_to_u32 (tv_nsec ts) * 1000000)"

definition lsp_gettime_s :: "timespec option \<Rightarrow> u32" where
  "lsp_gettime_s clk =
     (case clk of None \<Rightarrow> 0 | Some ts \<Rightarrow> int_to_u32 (tv_sec ts) * 1000)"

text \<open>\<open>sscanf(buf, "%lf", &uptime)\<close> returns 1 and assigns, or returns 0 or \<open>EOF\<close> and does not.\<close>

datatype scan_result = Scanned int | Matching_failure | Input_failure

fun scan_rc :: "scan_result \<Rightarrow> int" where
  "scan_rc (Scanned _) = 1"
| "scan_rc Matching_failure = 0"
| "scan_rc Input_failure = -1"

definition lsp_uptime :: "bool \<Rightarrow> bool \<Rightarrow> scan_result \<Rightarrow> u32" where
  "lsp_uptime fopen_ok fgets_ok scanned =
     (let uptime = 0 in
      if fopen_ok then
        (if fgets_ok then
           (let uptime = (case scanned of Scanned v \<Rightarrow> v | _ \<Rightarrow> uptime);
                uptime = (if scan_rc scanned \<noteq> 0 then 0 else uptime)
            in int_to_u32 uptime)
         else int_to_u32 uptime)
      else int_to_u32 uptime)"

lemma uint_gettime_ms:
  "uint (lsp_gettime_ms (Some ts)) = (tv_sec ts * 1000 + tv_nsec ts * 1000000) mod 2 ^ 32"
  by (simp add: lsp_gettime_ms_def int_to_u32_def uint_word_ariths unsigned_of_int take_bit_eq_mod
      mod_simps)

lemma uint_gettime_s: "uint (lsp_gettime_s (Some ts)) = (tv_sec ts * 1000) mod 2 ^ 32"
  by (simp add: lsp_gettime_s_def int_to_u32_def uint_word_ariths unsigned_of_int take_bit_eq_mod
      mod_simps)

subsection \<open>Deadlines\<close>

text \<open>The deadline of \<open>lsp_mutex_lock\<close>: the timeout is added, then the nanoseconds are carried.\<close>

definition mutex_deadline :: "timespec \<Rightarrow> u32 \<Rightarrow> timespec" where
  "mutex_deadline ts timeout =
     (let sec = tv_sec ts + uint (timeout div 1000);
          nsec = tv_nsec ts + uint ((timeout mod 1000) * 1000000)
      in if nsec \<ge> 1000000000
         then \<lparr>tv_sec = sec + nsec div 1000000000, tv_nsec = nsec mod 1000000000\<rparr>
         else \<lparr>tv_sec = sec, tv_nsec = nsec\<rparr>)"

text \<open>The deadline of \<open>queue_wait_internal\<close> and \<open>egroup_wait_internal\<close>: nothing is carried.\<close>

definition cond_deadline :: "timespec \<Rightarrow> u32 \<Rightarrow> timespec" where
  "cond_deadline ts timeout =
     \<lparr>tv_sec = tv_sec ts + uint (timeout div 1000),
      tv_nsec = tv_nsec ts + uint ((timeout mod 1000) * 1000000)\<rparr>"

text \<open>The 32-bit product of the sub-second part does not wrap.\<close>

lemma uint_ms_to_ns: "uint ((timeout mod 1000) * 1000000 :: u32) = uint timeout mod 1000 * 1000000"
proof -
  have "uint timeout mod 1000 * 1000000 < 2 ^ 32"
  proof -
    have "uint timeout mod 1000 < 1000" by simp
    then show ?thesis by simp
  qed
  moreover have "0 \<le> uint timeout mod 1000 * 1000000"
    by simp
  ultimately show ?thesis
    by (simp add: uint_word_ariths uint_mod_distrib)
qed

lemma uint_div_1000: "uint (timeout div 1000 :: u32) = uint timeout div 1000"
  by (simp add: uint_div_distrib)

lemma cond_deadline_ns:
  "timespec_ns (cond_deadline ts timeout) = timespec_ns ts + uint timeout * 1000000"
proof -
  have scale: "u = q * 1000 + r \<Longrightarrow> u * 1000000 = q * 1000000000 + r * 1000000" for u q r :: int
    by simp
  have split: "u * 1000000 = u div 1000 * 1000000000 + u mod 1000 * 1000000" for u :: int
    by (rule scale) (rule div_mult_mod_eq [symmetric])
  show ?thesis
    unfolding split [of "uint timeout"] by (simp add: timespec_ns_def cond_deadline_def uint_ms_to_ns uint_div_1000 algebra_simps)
qed

lemma mutex_deadline_ns:
  "timespec_ns (mutex_deadline ts timeout) = timespec_ns ts + uint timeout * 1000000"
proof -
  have "timespec_ns (mutex_deadline ts timeout) = timespec_ns (cond_deadline ts timeout)"
    unfolding mutex_deadline_def cond_deadline_def timespec_ns_def Let_def
    by (simp add: algebra_simps)
  then show ?thesis
    by (simp add: cond_deadline_ns)
qed

lemma mutex_deadline_valid:
  "valid_timespec ts \<Longrightarrow> valid_timespec (mutex_deadline ts timeout)"
  by (simp add: valid_timespec_def mutex_deadline_def Let_def)

lemma cond_deadline_valid:
  assumes "valid_timespec ts"
  shows "valid_timespec (cond_deadline ts timeout)
    \<longleftrightarrow> tv_nsec ts + uint timeout mod 1000 * 1000000 < 1000000000"
  using assms by (simp add: valid_timespec_def cond_deadline_def uint_ms_to_ns)

subsection \<open>Properties\<close>

text \<open>
  Both deadlines are the current time plus the timeout, to the nanosecond. The one for a
  mutex is always a valid \<open>timespec\<close>; the one for a condition variable is valid exactly when the
  sub-second part of the timeout does not carry into the seconds.
\<close>

theorem deadlines:
  assumes "valid_timespec ts"
  shows "timespec_ns (mutex_deadline ts timeout) = timespec_ns ts + uint timeout * 1000000
    \<and> valid_timespec (mutex_deadline ts timeout)
    \<and> timespec_ns (cond_deadline ts timeout) = timespec_ns ts + uint timeout * 1000000
    \<and> (valid_timespec (cond_deadline ts timeout)
         \<longleftrightarrow> tv_nsec ts + uint timeout mod 1000 * 1000000 < 1000000000)"
  using assms by (intro conjI mutex_deadline_ns mutex_deadline_valid cond_deadline_ns cond_deadline_valid)

theorem deadlines_witness:
  "valid_timespec (mutex_deadline \<lparr>tv_sec = 7, tv_nsec = 950000000\<rparr> 100)
   \<and> \<not> valid_timespec (cond_deadline \<lparr>tv_sec = 7, tv_nsec = 950000000\<rparr> 100)"
  using deadlines [of "\<lparr>tv_sec = 7, tv_nsec = 950000000\<rparr>" 100] by (simp add: valid_timespec_def)

text \<open>
  The clocks: \<open>lsp_gettime_ms\<close> scales nanoseconds up by a million instead of down, so it is the
  time in milliseconds (modulo 32 bits) on whole seconds, one nanosecond later it has moved by
  1000000, and it is not monotone inside a second; \<open>lsp_gettime_s\<close> is in milliseconds; and
  \<open>lsp_uptime\<close> is 0 whatever the system answers.
\<close>

theorem clock_readings:
  "uint (lsp_gettime_ms (Some \<lparr>tv_sec = s, tv_nsec = 0\<rparr>)) = s * 1000 mod 2 ^ 32
   \<and> lsp_gettime_ms (Some \<lparr>tv_sec = s, tv_nsec = n + 1\<rparr>)
       = lsp_gettime_ms (Some \<lparr>tv_sec = s, tv_nsec = n\<rparr>) + 1000000
   \<and> lsp_gettime_ms (Some \<lparr>tv_sec = 0, tv_nsec = 4295\<rparr>)
       < lsp_gettime_ms (Some \<lparr>tv_sec = 0, tv_nsec = 4294\<rparr>)
   \<and> uint (lsp_gettime_s (Some \<lparr>tv_sec = s, tv_nsec = n\<rparr>)) = s * 1000 mod 2 ^ 32
   \<and> lsp_uptime fopen_ok fgets_ok scanned = 0"
proof (intro conjI)
  show "lsp_gettime_ms (Some \<lparr>tv_sec = s, tv_nsec = n + 1\<rparr>)
      = lsp_gettime_ms (Some \<lparr>tv_sec = s, tv_nsec = n\<rparr>) + 1000000"
    by (simp add: lsp_gettime_ms_def int_to_u32_def algebra_simps)
  show "lsp_uptime fopen_ok fgets_ok scanned = 0"
    by (cases scanned) (simp_all add: lsp_uptime_def int_to_u32_def)
  show "lsp_gettime_ms (Some \<lparr>tv_sec = 0, tv_nsec = 4295\<rparr>)
      < lsp_gettime_ms (Some \<lparr>tv_sec = 0, tv_nsec = 4294\<rparr>)"
    by (simp add: lsp_gettime_ms_def int_to_u32_def)
qed (simp_all add: uint_gettime_ms uint_gettime_s)

end
