(* ===== verification/LspMutex.thy ===== *)
theory LspMutex imports LspTime begin

section \<open>Mutexes and threads (arch/posix/lsp_mutex.c, lsp_thread.c)\<close>

text \<open>
  The wrappers over pthread. What a pthread call returns is an argument (0 for success); for the
  timed lock the answer depends on the deadline it is given.
\<close>

definition lsp_mutex_init :: "int \<Rightarrow> int" where
  "lsp_mutex_init rc = (if rc \<noteq> 0 then LSP_ERR_MUTEX else LSP_ERR_NONE)"

definition lsp_mutex_destroy :: "int \<Rightarrow> int" where
  "lsp_mutex_destroy rc = (if rc \<noteq> 0 then LSP_ERR_MUTEX else LSP_ERR_NONE)"

definition lsp_mutex_lock :: "int \<Rightarrow> timespec option \<Rightarrow> (timespec \<Rightarrow> int) \<Rightarrow> u32 \<Rightarrow> int" where
  "lsp_mutex_lock lock clk timedlock timeout =
     (if timeout = LSP_TIMEOUT_MAX
      then (if lock \<noteq> 0 then LSP_ERR_MUTEX else LSP_ERR_NONE)
      else (case clk of
              None \<Rightarrow> LSP_ERR_MUTEX
            | Some ts \<Rightarrow>
                (if timedlock (mutex_deadline ts timeout) \<noteq> 0 then LSP_ERR_MUTEX
                 else LSP_ERR_NONE)))"

definition lsp_mutex_unlock :: "int \<Rightarrow> int" where
  "lsp_mutex_unlock rc = (if rc \<noteq> 0 then LSP_ERR_MUTEX else LSP_ERR_NONE)"

definition lsp_mutex_create :: "'m option" where
  "lsp_mutex_create = None"

definition lsp_thread_create :: "int \<Rightarrow> int" where
  "lsp_thread_create rc = (if rc \<noteq> 0 then LSP_ERR else LSP_ERR_NONE)"

text \<open>
  Locking a mutex returns \<open>LSP_ERR_NONE\<close> or \<open>LSP_ERR_MUTEX\<close> and nothing else: an expired
  timeout is reported as \<open>LSP_ERR_MUTEX\<close>, never as the \<open>LSP_ERR_TIMEOUT\<close> of the header's comment.
\<close>

theorem mutex_lock_codes:
  "lsp_mutex_lock lock clk timedlock timeout \<in> {LSP_ERR_NONE, LSP_ERR_MUTEX}
   \<and> lsp_mutex_lock lock clk timedlock timeout \<noteq> LSP_ERR_TIMEOUT
   \<and> lsp_mutex_lock lock (Some ts) (\<lambda>_. ETIMEDOUT) 100 = LSP_ERR_MUTEX"
  by (auto simp: lsp_mutex_lock_def lsp_consts split: option.splits)

end
