(* ===== verification/LspQueue.thy ===== *)
theory LspQueue imports LspMutex begin

section \<open>Bounded message queues (arch/posix/lsp_queue.c)\<close>

text \<open>
  The record of \<open>struct _lsp_queue_handle\<close> without its pthread objects: the indices and counters
  are C \<open>int\<close>s (\<open>sig_atomic_t\<close>), the sizes are \<open>size_t\<close>, and \<open>qdata\<close> is the part of the allocated
  chunk behind the control block. Critical sections run under the queue's mutex, so each is one
  step; a call that waits gives up the mutex in the middle, so it is two steps, \<open>push_enter\<close> and
  \<open>push_resume\<close> (\<open>pop_enter\<close> and \<open>pop_resume\<close>), and \<open>lsp_queue_push\<close> (\<open>lsp_queue_pop\<close>) puts them
  together around what happens during the wait. \<open>LSP_QUEUE_ALIGNMEM\<close> is not defined in the build,
  so an entry is \<open>itemsize\<close> bytes (a build with it does not compile). Log output is not modelled.
\<close>

record lsp_queue =
  q_length :: int
  q_head :: int
  q_tail :: int
  waiting_full :: int
  waiting_empty :: int
  queue_size :: size_t
  itemsize :: size_t
  qdata :: "u8 list"

subsection \<open>Creation\<close>

definition queue_init_pthread_cond :: "int \<Rightarrow> int \<Rightarrow> int" where
  "queue_init_pthread_cond setclock cond_init = (if setclock = 0 then cond_init else setclock)"

text \<open>\<open>hdr\<close> is \<open>ALIGNED_SIZEOF(_lsp_queue_handle_t)\<close>, which depends on the pthread headers;
  \<open>malloc n\<close> tells whether \<open>n\<close> bytes can be had; the three return codes are those of the
  initialisers.\<close>

definition queue_blocksize :: "size_t \<Rightarrow> int \<Rightarrow> size_t \<Rightarrow> size_t" where
  "queue_blocksize hdr len isz = hdr + int_to_size len * isz"

definition lsp_queue_create ::
  "size_t \<Rightarrow> (size_t \<Rightarrow> bool) \<Rightarrow> int \<Rightarrow> int \<Rightarrow> int \<Rightarrow> int \<Rightarrow> size_t \<Rightarrow> lsp_queue option exec" where
  "lsp_queue_create hdr malloc mutex_rc full_rc empty_rc len isz =
     (let blocksize = queue_blocksize hdr len isz in
      if \<not> malloc blocksize then Done None
      else xbind (xguard (hdr \<le> blocksize) OutOfBounds) (\<lambda>_.
        if lsp_mutex_init mutex_rc \<noteq> LSP_ERR_NONE \<or> full_rc \<noteq> 0 \<or> empty_rc \<noteq> 0 then Done None
        else Done (Some
          \<lparr>q_length = 0, q_head = 0, q_tail = 0, waiting_full = 0, waiting_empty = 0,
           queue_size = int_to_size len, itemsize = isz,
           qdata = replicate (unat (blocksize - hdr)) 0\<rparr>)))"

text \<open>A successful destruction reaches the end of a non-void function: the caller reads \<open>rc0\<close>.\<close>

definition lsp_queue_destroy :: "int \<Rightarrow> lsp_queue \<Rightarrow> int \<times> lsp_queue option" where
  "lsp_queue_destroy rc0 q =
     (if waiting_empty q \<noteq> 0 \<or> waiting_full q \<noteq> 0 then (LSP_ERR_RESOURCE_IN_USE, Some q)
      else (rc0, None))"

subsection \<open>Entries\<close>

definition entry_find :: "lsp_queue \<Rightarrow> int \<Rightarrow> size_t" where
  "entry_find q idx = int_to_size idx * itemsize q"

text \<open>\<open>hdl->tail = ++hdl->tail % hdl->queue_size\<close>, and the same for the head.\<close>

definition next_index :: "lsp_queue \<Rightarrow> int \<Rightarrow> int exec" where
  "next_index q idx =
     xbind (c_inc idx) (\<lambda>i.
     xbind (xguard (queue_size q \<noteq> 0) DivByZero) (\<lambda>_.
     Done (size_to_int (int_to_size i mod queue_size q))))"

definition queue_store :: "u8 list \<Rightarrow> lsp_queue \<Rightarrow> lsp_queue exec" where
  "queue_store item q =
     (let off = unat (entry_find q (q_tail q)); isz = unat (itemsize q) in
      xbind (xguard (off + isz \<le> length (qdata q) \<and> isz \<le> length item) OutOfBounds) (\<lambda>_.
      xbind (next_index q (q_tail q)) (\<lambda>t.
      xbind (c_inc (q_length q)) (\<lambda>l.
      Done (q\<lparr>qdata := take off (qdata q) @ take isz item @ drop (off + isz) (qdata q),
              q_tail := t, q_length := l\<rparr>)))))"

definition queue_take :: "lsp_queue \<Rightarrow> (u8 list \<times> lsp_queue) exec" where
  "queue_take q =
     (let off = unat (entry_find q (q_head q)); isz = unat (itemsize q) in
      xbind (xguard (off + isz \<le> length (qdata q)) OutOfBounds) (\<lambda>_.
      xbind (next_index q (q_head q)) (\<lambda>h.
      xbind (c_dec (q_length q)) (\<lambda>l.
      Done (take isz (drop off (qdata q)), q\<lparr>q_head := h, q_length := l\<rparr>)))))"

subsection \<open>Waiting\<close>

text \<open>The return code of a wait: of \<open>pthread_cond_wait\<close> (\<open>wait_rc\<close>) where there is no deadline or
  the clock fails, else of \<open>pthread_cond_timedwait\<close> on the deadline.\<close>

definition queue_wait_internal ::
  "timespec option \<Rightarrow> int \<Rightarrow> (timespec \<Rightarrow> int) \<Rightarrow> u32 \<Rightarrow> int" where
  "queue_wait_internal clk wait_rc timedwait timeout =
     (if timeout \<noteq> LSP_TIMEOUT_MAX
      then (case clk of None \<Rightarrow> wait_rc | Some ts \<Rightarrow> timedwait (cond_deadline ts timeout))
      else wait_rc)"

subsection \<open>Push\<close>

text \<open>The first critical section: \<open>Some rc\<close> where the call is over, \<open>None\<close> where it waits.\<close>

definition push_enter :: "int \<Rightarrow> u8 list \<Rightarrow> u32 \<Rightarrow> lsp_queue \<Rightarrow> (int option \<times> lsp_queue) exec" where
  "push_enter lock_rc item timeout q =
     (if lock_rc \<noteq> LSP_ERR_NONE then Done (Some lock_rc, q)
      else if int_to_size (q_length q) \<ge> queue_size q
      then (if timeout > 0
            then xbind (c_inc (waiting_full q)) (\<lambda>w. Done (None, q\<lparr>waiting_full := w\<rparr>))
            else Done (Some LSP_ERR_QUEUE_FULL, q))
      else xbind (queue_store item q) (\<lambda>q. Done (Some LSP_ERR_NONE, q)))"

definition wait_error :: "int \<Rightarrow> int" where
  "wait_error rc = (if rc = ETIMEDOUT then LSP_ERR_TIMEOUT else LSP_ERR_INVALID)"

definition push_resume :: "int \<Rightarrow> u8 list \<Rightarrow> lsp_queue \<Rightarrow> (int \<times> lsp_queue) exec" where
  "push_resume wait_rc item q =
     xbind (c_dec (waiting_full q)) (\<lambda>w.
     let q = q\<lparr>waiting_full := w\<rparr> in
     if wait_rc \<noteq> 0 then Done (wait_error wait_rc, q)
     else xbind (queue_store item q) (\<lambda>q. Done (LSP_ERR_NONE, q)))"

definition lsp_queue_push ::
  "int \<Rightarrow> (lsp_queue \<Rightarrow> int \<times> lsp_queue) \<Rightarrow> u8 list \<Rightarrow> u32 \<Rightarrow> lsp_queue \<Rightarrow> (int \<times> lsp_queue) exec" where
  "lsp_queue_push lock_rc wait item timeout q =
     xbind (push_enter lock_rc item timeout q) (\<lambda>(r, q).
     case r of
       Some rc \<Rightarrow> Done (rc, q)
     | None \<Rightarrow> (let (wait_rc, q) = wait q in push_resume wait_rc item q))"

subsection \<open>Pop\<close>

definition pop_enter :: "int \<Rightarrow> u32 \<Rightarrow> lsp_queue \<Rightarrow> ((int \<times> u8 list option) option \<times> lsp_queue) exec" where
  "pop_enter lock_rc timeout q =
     (if lock_rc \<noteq> LSP_ERR_NONE then Done (Some (lock_rc, None), q)
      else if q_length q \<le> 0
      then (if timeout > 0
            then xbind (c_inc (waiting_empty q)) (\<lambda>w. Done (None, q\<lparr>waiting_empty := w\<rparr>))
            else Done (Some (LSP_ERR_QUEUE_EMPTY, None), q))
      else xbind (queue_take q) (\<lambda>(item, q). Done (Some (LSP_ERR_NONE, Some item), q)))"

definition pop_resume :: "int \<Rightarrow> lsp_queue \<Rightarrow> (int \<times> u8 list option \<times> lsp_queue) exec" where
  "pop_resume wait_rc q =
     xbind (c_dec (waiting_empty q)) (\<lambda>w.
     let q = q\<lparr>waiting_empty := w\<rparr> in
     if wait_rc \<noteq> 0 then Done (wait_error wait_rc, None, q)
     else xbind (queue_take q) (\<lambda>(item, q). Done (LSP_ERR_NONE, Some item, q)))"

definition lsp_queue_pop ::
  "int \<Rightarrow> (lsp_queue \<Rightarrow> int \<times> lsp_queue) \<Rightarrow> u32 \<Rightarrow> lsp_queue \<Rightarrow> (int \<times> u8 list option \<times> lsp_queue) exec" where
  "lsp_queue_pop lock_rc wait timeout q =
     xbind (pop_enter lock_rc timeout q) (\<lambda>(r, q).
     case r of
       Some (rc, item) \<Rightarrow> Done (rc, item, q)
     | None \<Rightarrow> (let (wait_rc, q) = wait q in pop_resume wait_rc q))"

subsection \<open>The small operations\<close>

definition lsp_queue_length :: "lsp_queue \<Rightarrow> int" where
  "lsp_queue_length q = size_to_int (queue_size q)"

definition lsp_queue_itemsize :: "lsp_queue \<Rightarrow> int" where
  "lsp_queue_itemsize q = size_to_int (itemsize q)"

definition lsp_queue_clear :: "lsp_queue \<Rightarrow> int \<times> lsp_queue" where
  "lsp_queue_clear q =
     (if waiting_empty q \<noteq> 0 \<or> waiting_full q \<noteq> 0 then (LSP_ERR_RESOURCE_IN_USE, q)
      else (LSP_ERR_NONE, q\<lparr>q_head := 0, q_tail := 0, q_length := 0\<rparr>))"

subsection \<open>The abstract queue\<close>

text \<open>What the users of a queue rely on: a list of items and a capacity.\<close>

record 'a aqueue =
  aq_items :: "'a list"
  aq_cap :: nat

definition aq_push :: "'a \<Rightarrow> 'a aqueue \<Rightarrow> int \<times> 'a aqueue" where
  "aq_push x q =
     (if length (aq_items q) \<ge> aq_cap q then (LSP_ERR_QUEUE_FULL, q)
      else (LSP_ERR_NONE, q\<lparr>aq_items := aq_items q @ [x]\<rparr>))"

definition aq_pop :: "'a aqueue \<Rightarrow> int \<times> 'a option \<times> 'a aqueue" where
  "aq_pop q =
     (case aq_items q of
        [] \<Rightarrow> (LSP_ERR_QUEUE_EMPTY, None, q)
      | x # xs \<Rightarrow> (LSP_ERR_NONE, Some x, q\<lparr>aq_items := xs\<rparr>))"

text \<open>The chunk as an array of entries, and the items from the head on.\<close>

definition entry :: "lsp_queue \<Rightarrow> nat \<Rightarrow> u8 list" where
  "entry q i = take (unat (itemsize q)) (drop (i * unat (itemsize q)) (qdata q))"

definition q_items :: "lsp_queue \<Rightarrow> u8 list list" where
  "q_items q =
     map (\<lambda>k. entry q ((nat (q_head q) + k) mod unat (queue_size q))) [0..<nat (q_length q)]"

definition q_abs :: "lsp_queue \<Rightarrow> u8 list aqueue" where
  "q_abs q = \<lparr>aq_items = q_items q, aq_cap = unat (queue_size q)\<rparr>"

text \<open>
  The layout invariant holds of every queue the code makes, whatever the count says: the chunk has
  one slot per index, both indices are inside, and the tail is the head plus the count, modulo the
  size. The full invariant adds that the count is between 0 and the size.
\<close>

definition q_wf :: "lsp_queue \<Rightarrow> bool" where
  "q_wf q \<longleftrightarrow>
     0 < uint (queue_size q) \<and> uint (queue_size q) \<le> INT_MAX
     \<and> length (qdata q) = unat (queue_size q) * unat (itemsize q)
     \<and> unat (queue_size q) * unat (itemsize q) < 2 ^ 64
     \<and> 0 \<le> q_head q \<and> q_head q < uint (queue_size q)
     \<and> q_tail q = (q_head q + q_length q) mod uint (queue_size q)"

definition q_inv :: "lsp_queue \<Rightarrow> bool" where
  "q_inv q \<longleftrightarrow> q_wf q \<and> 0 \<le> q_length q \<and> q_length q \<le> uint (queue_size q)"


subsection \<open>The store and take steps on a well-formed queue\<close>

lemma q_wf_tail: "q_wf q \<Longrightarrow> 0 \<le> q_tail q \<and> q_tail q < uint (queue_size q)"
  by (simp add: q_wf_def)

lemma nat_lt_unat: "0 \<le> i \<Longrightarrow> i < uint w \<Longrightarrow> nat i < unat w"
  by (simp add: nat_less_iff)

lemma slot_bound:
  assumes "i < (n :: nat)"
  shows "i * s + s \<le> n * s"
proof -
  from assms have "(i + 1) * s \<le> n * s"
    by (intro mult_le_mono1) simp
  then show ?thesis by simp
qed

lemma unat_entry_find:
  assumes "q_wf q" "0 \<le> i" "i < uint (queue_size q)"
  shows "unat (entry_find q i) = nat i * unat (itemsize q)"
proof -
  let ?n = "unat (queue_size q)" and ?s = "unat (itemsize q)"
  have "uint (queue_size q) \<le> INT_MAX"
    using assms by (simp add: q_wf_def)
  then have i: "nat i < ?n" "i < 2 ^ 64"
    using assms(2,3) by (simp_all add: nat_lt_unat)
  have "nat i * ?s \<le> ?n * ?s"
    using i by (intro mult_le_mono1) simp
  also have "\<dots> < 2 ^ 64"
    using assms by (simp add: q_wf_def)
  finally have "nat i * ?s < 2 ^ 64" .
  then show ?thesis
    using assms(2) i unfolding entry_find_def
    by (simp add: unat_word_ariths unat_int_to_size)
qed

lemma next_index_wf:
  assumes "q_wf q" "0 \<le> i" "i < uint (queue_size q)"
  shows "next_index q i = Done ((i + 1) mod uint (queue_size q))"
proof -
  have n: "0 < uint (queue_size q)" "uint (queue_size q) \<le> INT_MAX"
    using assms by (simp_all add: q_wf_def)
  have i: "i \<noteq> INT_MAX" "i + 1 < 2 ^ 64"
    using n assms(3) by simp_all
  have m: "uint (int_to_size (i + 1) mod queue_size q) = (i + 1) mod uint (queue_size q)"
    using assms(2) i(2) by (simp add: uint_mod_distrib uint_int_to_size)
  have "(i + 1) mod uint (queue_size q) < uint (queue_size q)"
    using n(1) by simp
  then have "(i + 1) mod uint (queue_size q) \<le> INT_MAX"
    using n(2) by linarith
  then have "size_to_int (int_to_size (i + 1) mod queue_size q) = (i + 1) mod uint (queue_size q)"
    using m by (simp add: size_to_int_small)
  moreover have "queue_size q \<noteq> 0"
    using n(1) by auto
  ultimately show ?thesis
    using i by (simp add: next_index_def c_inc_def)
qed

definition stored :: "u8 list \<Rightarrow> lsp_queue \<Rightarrow> lsp_queue" where
  "stored item q =
     (let off = nat (q_tail q) * unat (itemsize q); s = unat (itemsize q) in
      q\<lparr>qdata := take off (qdata q) @ take s item @ drop (off + s) (qdata q),
        q_tail := (q_tail q + 1) mod uint (queue_size q), q_length := q_length q + 1\<rparr>)"

definition taken :: "lsp_queue \<Rightarrow> lsp_queue" where
  "taken q = q\<lparr>q_head := (q_head q + 1) mod uint (queue_size q), q_length := q_length q - 1\<rparr>"

lemma queue_store_wf:
  assumes "q_wf q" "unat (itemsize q) \<le> length item"
  shows "queue_store item q = (if q_length q = INT_MAX then Fault IntOverflow else Done (stored item q))"
proof -
  have t: "0 \<le> q_tail q" "q_tail q < uint (queue_size q)"
    using q_wf_tail [OF assms(1)] by simp_all
  have "nat (q_tail q) * unat (itemsize q) + unat (itemsize q) \<le> length (qdata q)"
    using t assms(1) slot_bound [of "nat (q_tail q)" "unat (queue_size q)" "unat (itemsize q)"]
    by (simp add: q_wf_def nat_lt_unat)
  then show ?thesis
    using assms t
    by (simp add: queue_store_def Let_def unat_entry_find next_index_wf c_inc_def stored_def)
qed

lemma queue_take_wf:
  assumes "q_wf q"
  shows "queue_take q = (if q_length q = INT_MIN then Fault IntOverflow
    else Done (entry q (nat (q_head q)), taken q))"
proof -
  have h: "0 \<le> q_head q" "q_head q < uint (queue_size q)"
    using assms by (simp_all add: q_wf_def)
  have "nat (q_head q) * unat (itemsize q) + unat (itemsize q) \<le> length (qdata q)"
    using h assms slot_bound [of "nat (q_head q)" "unat (queue_size q)" "unat (itemsize q)"]
    by (simp add: q_wf_def nat_lt_unat)
  then show ?thesis
    using assms h
    by (simp add: queue_take_def Let_def unat_entry_find next_index_wf c_dec_def taken_def entry_def)
qed

lemma stored_wf:
  assumes "q_wf q" "unat (itemsize q) \<le> length item"
  shows "q_wf (stored item q)"
proof -
  have t: "0 \<le> q_tail q" "q_tail q < uint (queue_size q)"
    using q_wf_tail [OF assms(1)] by simp_all
  have b: "nat (q_tail q) * unat (itemsize q) + unat (itemsize q) \<le> length (qdata q)"
    using t assms(1) slot_bound [of "nat (q_tail q)" "unat (queue_size q)" "unat (itemsize q)"]
    by (simp add: q_wf_def nat_lt_unat)
  show ?thesis
    using assms b by (simp add: q_wf_def stored_def Let_def mod_simps algebra_simps)
qed

lemma taken_wf: "q_wf q \<Longrightarrow> q_wf (taken q)"
  by (simp add: q_wf_def taken_def mod_simps)


subsection \<open>Slots: what a store changes and what a take reads\<close>

lemma take_drop_store:
  fixes s :: nat
  assumes len: "length data = n * s" and t: "t < n" and j: "j < n" and item: "length item = s"
  shows "take s (drop (j * s) (take (t * s) data @ item @ drop (t * s + s) data))
    = (if j = t then item else take s (drop (j * s) data))"
proof -
  have tb: "t * s + s \<le> length data" and jb: "j * s + s \<le> length data"
    using slot_bound [OF t, of s] slot_bound [OF j, of s] len by simp_all
  consider "j = t" | "j < t" | "t < j" by linarith
  then show ?thesis
  proof cases
    case 1
    then show ?thesis using tb item by simp
  next
    case 2
    then have "j * s + s \<le> t * s"
      by (rule slot_bound)
    then have "take s (drop (j * s) (take (t * s) data @ item @ drop (t * s + s) data))
        = take s (drop (j * s) (take (t * s) data))"
      using tb by simp
    also have "\<dots> = take s (drop (j * s) data)"
      using \<open>j * s + s \<le> t * s\<close> by (simp add: drop_take min_def)
    finally show ?thesis using 2 by simp
  next
    case 3
    then have le: "t * s + s \<le> j * s"
      by (rule slot_bound)
    then obtain d where d: "j * s = t * s + s + d"
      using le_Suc_ex by blast
    have "drop (j * s) (take (t * s) data @ item @ drop (t * s + s) data) = drop (j * s) data"
      using tb item d by (simp add: add.commute)
    with 3 show ?thesis by simp
  qed
qed

lemma entry_stored:
  assumes "q_wf q" "length item = unat (itemsize q)" "j < unat (queue_size q)"
  shows "entry (stored item q) j = (if j = nat (q_tail q) then item else entry q j)"
proof -
  have "nat (q_tail q) < unat (queue_size q)"
    using q_wf_tail [OF assms(1)] by (simp add: nat_lt_unat)
  then show ?thesis
    using assms take_drop_store [of "qdata q" "unat (queue_size q)" "unat (itemsize q)"
        "nat (q_tail q)" j item]
    by (simp add: entry_def stored_def Let_def q_wf_def)
qed

lemma mod_add_neq:
  assumes "k < l" "l < k + (n :: nat)"
  shows "(h + k) mod n \<noteq> (h + l) mod n"
proof
  assume "(h + k) mod n = (h + l) mod n"
  moreover have "h + k \<le> h + l" using assms by simp
  ultimately have "n dvd l - k"
    using mod_eq_dvd_iff_nat [of "h + k" "h + l" n] by simp
  then show False
    using assms by (auto dest: dvd_imp_le)
qed

lemma q_tail_nat:
  assumes "q_inv q"
  shows "nat (q_tail q) = (nat (q_head q) + nat (q_length q)) mod unat (queue_size q)"
proof -
  have "q_tail q = (q_head q + q_length q) mod uint (queue_size q)"
    and nn: "0 \<le> q_head q" "0 \<le> q_length q"
    using assms by (auto simp: q_inv_def q_wf_def)
  then have "q_tail q = int ((nat (q_head q) + nat (q_length q)) mod unat (queue_size q))"
    by (simp add: zmod_int)
  then show ?thesis by simp
qed

lemma q_length_bound: "q_inv q \<Longrightarrow> nat (q_length q) \<le> unat (queue_size q)"
  by (simp add: q_inv_def nat_le_iff)

lemma length_q_items [simp]: "length (q_items q) = nat (q_length q)"
  by (simp add: q_items_def)

lemma q_items_stored:
  assumes inv: "q_inv q" and item: "length item = unat (itemsize q)"
    and room: "q_length q < uint (queue_size q)"
  shows "q_items (stored item q) = q_items q @ [item]"
proof -
  let ?n = "unat (queue_size q)" and ?h = "nat (q_head q)" and ?l = "nat (q_length q)"
  have wf: "q_wf q" and l: "0 \<le> q_length q" and n: "0 < ?n" "?l < ?n"
    using inv room by (auto simp: q_inv_def q_wf_def nat_lt_unat unat_gt_0)
  have other: "(?h + k) mod ?n \<noteq> nat (q_tail q)" if "k < ?l" for k
    using mod_add_neq [of k ?l ?n ?h] that n(2) q_tail_nat [OF inv] by simp
  have e: "entry (stored item q) ((?h + k) mod ?n)
      = (if k < ?l then entry q ((?h + k) mod ?n) else item)" if "k \<le> ?l" for k
    using that other [of k] n q_tail_nat [OF inv] entry_stored [OF wf item, of "(?h + k) mod ?n"]
    by (cases "k = ?l") simp_all
  have s: "q_head (stored item q) = q_head q" "queue_size (stored item q) = queue_size q"
    "nat (q_length (stored item q)) = Suc ?l"
    using l by (simp_all add: stored_def Let_def nat_add_distrib)
  show ?thesis
    unfolding q_items_def s upt_Suc using e by (simp add: map_eq_conv)
qed

lemma q_items_take:
  assumes inv: "q_inv q" and pos: "0 < q_length q"
  shows "q_items q = entry q (nat (q_head q)) # q_items (taken q)"
proof -
  let ?n = "unat (queue_size q)" and ?h = "nat (q_head q)" and ?l = "nat (q_length q)"
  have wf: "q_wf q" and h: "0 \<le> q_head q" "?h < ?n"
    using inv by (auto simp: q_inv_def q_wf_def nat_lt_unat)
  have l: "?l = Suc (nat (q_length q - 1))"
    using pos by simp
  have h': "nat ((q_head q + 1) mod uint (queue_size q)) = (?h + 1) mod ?n"
  proof -
    have "(q_head q + 1) mod uint (queue_size q) = int ((?h + 1) mod ?n)"
      using h(1) by (simp add: zmod_int add.commute)
    then show ?thesis by simp
  qed
  have s: "nat (q_head (taken q)) = (?h + 1) mod ?n" "queue_size (taken q) = queue_size q"
    "q_length (taken q) = q_length q - 1" "entry (taken q) = entry q"
    using h' by (simp_all add: taken_def entry_def fun_eq_iff)
  have "q_items q = map (\<lambda>k. entry q ((?h + k) mod ?n)) (0 # map Suc [0..<nat (q_length q - 1)])"
    unfolding q_items_def l by (simp add: upt_conv_Cons map_Suc_upt del: upt_Suc)
  also have "\<dots> = entry q ?h # q_items (taken q)"
    unfolding q_items_def s using h(2) by (simp add: mod_simps)
  finally show ?thesis .
qed

lemma stored_inv:
  assumes "q_inv q" "unat (itemsize q) \<le> length item" "q_length q < uint (queue_size q)"
  shows "q_inv (stored item q)"
  using assms stored_wf [of q item] by (simp add: q_inv_def) (simp add: stored_def Let_def)

lemma taken_inv: "q_inv q \<Longrightarrow> 0 < q_length q \<Longrightarrow> q_inv (taken q)"
  using taken_wf [of q] by (simp add: q_inv_def) (simp add: taken_def)


subsection \<open>Push and pop that do not wait\<close>

lemma full_test:
  assumes "q_inv q"
  shows "int_to_size (q_length q) \<ge> queue_size q \<longleftrightarrow> q_length q = uint (queue_size q)"
proof -
  have l: "0 \<le> q_length q" "q_length q \<le> uint (queue_size q)" "uint (queue_size q) \<le> INT_MAX"
    using assms by (simp_all add: q_inv_def q_wf_def)
  then have "uint (int_to_size (q_length q)) = q_length q"
    by (simp add: uint_int_to_size)
  then show ?thesis
    using l by (auto simp: word_le_def)
qed

lemma q_abs_push_full: "q_inv q \<Longrightarrow> q_length q = uint (queue_size q) \<Longrightarrow>
    aq_push x (q_abs q) = (LSP_ERR_QUEUE_FULL, q_abs q)"
  by (simp add: aq_push_def q_abs_def)

lemma q_abs_push_room:
  assumes "q_inv q" "q_length q \<noteq> uint (queue_size q)" "length item = unat (itemsize q)"
  shows "aq_push item (q_abs q) = (LSP_ERR_NONE, q_abs (stored item q))"
proof -
  have room: "q_length q < uint (queue_size q)"
    using assms by (simp add: q_inv_def)
  then have "nat (q_length q) < unat (queue_size q)"
    using assms(1) by (simp add: nat_lt_unat q_inv_def)
  moreover have "queue_size (stored item q) = queue_size q"
    by (simp add: stored_def Let_def)
  ultimately show ?thesis
    using q_items_stored [OF assms(1,3) room] by (simp add: aq_push_def q_abs_def)
qed

lemma q_abs_pop_empty: "q_inv q \<Longrightarrow> q_length q \<le> 0 \<Longrightarrow>
    aq_pop (q_abs q) = (LSP_ERR_QUEUE_EMPTY, None, q_abs q)"
  by (simp add: aq_pop_def q_abs_def q_items_def)

lemma q_abs_pop_some:
  assumes "q_inv q" "0 < q_length q"
  shows "aq_pop (q_abs q) = (LSP_ERR_NONE, Some (entry q (nat (q_head q))), q_abs (taken q))"
  using q_items_take [OF assms] by (simp add: aq_pop_def q_abs_def) (simp add: taken_def)

lemma length_in_range: "q_inv q \<Longrightarrow> q_length q \<noteq> uint (queue_size q) \<Longrightarrow> q_length q \<noteq> INT_MAX"
  by (simp add: q_inv_def q_wf_def)

text \<open>A call with timeout 0 never waits, so what happens in a wait (\<open>w\<close>) does not matter.\<close>

lemma push_nowait:
  assumes "q_inv q" "length item = unat (itemsize q)"
  shows "lsp_queue_push LSP_ERR_NONE w item 0 q =
    (if q_length q = uint (queue_size q) then Done (LSP_ERR_QUEUE_FULL, q)
     else Done (LSP_ERR_NONE, stored item q))"
  using assms full_test [OF assms(1)] length_in_range [OF assms(1)]
    queue_store_wf [of q item]
  by (simp add: lsp_queue_push_def push_enter_def q_inv_def)

lemma pop_nowait:
  assumes "q_inv q"
  shows "lsp_queue_pop LSP_ERR_NONE w 0 q =
    (if q_length q \<le> 0 then Done (LSP_ERR_QUEUE_EMPTY, None, q)
     else Done (LSP_ERR_NONE, Some (entry q (nat (q_head q))), taken q))"
  using assms queue_take_wf [of q]
  by (simp add: lsp_queue_pop_def pop_enter_def q_inv_def)

lemma push_refines:
  assumes "q_inv q" "length item = unat (itemsize q)"
  shows "\<exists>rc q'. lsp_queue_push LSP_ERR_NONE w item 0 q = Done (rc, q')
    \<and> aq_push item (q_abs q) = (rc, q_abs q') \<and> q_inv q' \<and> itemsize q' = itemsize q"
proof (cases "q_length q = uint (queue_size q)")
  case True
  then show ?thesis
    using assms push_nowait [OF assms] q_abs_push_full by auto
next
  case False
  then have "q_length q < uint (queue_size q)"
    using assms by (simp add: q_inv_def)
  moreover have "itemsize (stored item q) = itemsize q"
    by (simp add: stored_def Let_def)
  ultimately show ?thesis
    using False assms push_nowait [OF assms] q_abs_push_room [OF assms(1) False assms(2)]
      stored_inv [OF assms(1), of item] by auto
qed

lemma pop_refines:
  assumes "q_inv q"
  shows "\<exists>rc x q'. lsp_queue_pop LSP_ERR_NONE w 0 q = Done (rc, x, q')
    \<and> aq_pop (q_abs q) = (rc, x, q_abs q') \<and> q_inv q' \<and> itemsize q' = itemsize q"
proof (cases "q_length q \<le> 0")
  case True
  then show ?thesis
    using assms pop_nowait [OF assms] q_abs_pop_empty by auto
next
  case False
  moreover have "itemsize (taken q) = itemsize q"
    by (simp add: taken_def)
  ultimately show ?thesis
    using assms pop_nowait [OF assms] q_abs_pop_some [OF assms] taken_inv [OF assms] by auto
qed

subsection \<open>The interface of a queue\<close>

text \<open>
  Push and pop as their users see them. The laws are those of a bounded first-in-first-out
  queue; the client's lemmas are about running several of them. \<open>push_all\<close> pushes a list until
  a push is refused, \<open>pop_all\<close> pops until the queue is empty or the fuel is used up.
\<close>

fun push_all :: "('a \<Rightarrow> 'q \<Rightarrow> (int \<times> 'q) exec) \<Rightarrow> 'a list \<Rightarrow> 'q \<Rightarrow> (int \<times> 'q) exec" where
  "push_all push [] q = Done (LSP_ERR_NONE, q)"
| "push_all push (x # xs) q =
     xbind (push x q) (\<lambda>(rc, q).
     if rc = LSP_ERR_NONE then push_all push xs q else Done (rc, q))"

fun pop_all :: "('q \<Rightarrow> (int \<times> 'a option \<times> 'q) exec) \<Rightarrow> nat \<Rightarrow> 'q \<Rightarrow> ('a list \<times> 'q) exec" where
  "pop_all pop 0 q = Done ([], q)"
| "pop_all pop (Suc n) q =
     xbind (pop q) (\<lambda>(rc, x, q).
     case x of
       None \<Rightarrow> Done ([], q)
     | Some a \<Rightarrow> xbind (pop_all pop n q) (\<lambda>(xs, q). Done (a # xs, q)))"

locale fifo =
  fixes inv :: "'q \<Rightarrow> bool"
    and fits :: "'q \<Rightarrow> 'a \<Rightarrow> bool"
    and items :: "'q \<Rightarrow> 'a list"
    and cap :: "'q \<Rightarrow> nat"
    and push :: "'a \<Rightarrow> 'q \<Rightarrow> (int \<times> 'q) exec"
    and pop :: "'q \<Rightarrow> (int \<times> 'a option \<times> 'q) exec"
  assumes push_room: "inv q \<Longrightarrow> fits q x \<Longrightarrow> length (items q) < cap q \<Longrightarrow>
      \<exists>q'. push x q = Done (LSP_ERR_NONE, q') \<and> inv q' \<and> items q' = items q @ [x]
        \<and> cap q' = cap q \<and> fits q' = fits q"
    and push_full: "inv q \<Longrightarrow> fits q x \<Longrightarrow> cap q \<le> length (items q) \<Longrightarrow>
      push x q = Done (LSP_ERR_QUEUE_FULL, q)"
    and pop_some: "inv q \<Longrightarrow> items q = x # xs \<Longrightarrow>
      \<exists>q'. pop q = Done (LSP_ERR_NONE, Some x, q') \<and> inv q' \<and> items q' = xs
        \<and> cap q' = cap q \<and> fits q' = fits q"
    and pop_none: "inv q \<Longrightarrow> items q = [] \<Longrightarrow> pop q = Done (LSP_ERR_QUEUE_EMPTY, None, q)"
begin

lemma push_all_room:
  "inv q \<Longrightarrow> \<forall>x\<in>set xs. fits q x \<Longrightarrow> length (items q) + length xs \<le> cap q \<Longrightarrow>
     \<exists>q'. push_all push xs q = Done (LSP_ERR_NONE, q') \<and> inv q' \<and> items q' = items q @ xs
       \<and> cap q' = cap q \<and> fits q' = fits q"
proof (induction xs arbitrary: q)
  case (Cons x xs)
  from Cons.prems obtain q1 where q1: "push x q = Done (LSP_ERR_NONE, q1)" "inv q1"
    "items q1 = items q @ [x]" "cap q1 = cap q" "fits q1 = fits q"
    using push_room [of q x] by auto
  with Cons.prems obtain q2 where "push_all push xs q1 = Done (LSP_ERR_NONE, q2)" "inv q2"
    "items q2 = items q1 @ xs" "cap q2 = cap q1" "fits q2 = fits q1"
    using Cons.IH [of q1] by auto
  with q1 show ?case by auto
qed simp

lemma pop_all_drains:
  "inv q \<Longrightarrow> length (items q) < n \<Longrightarrow>
     \<exists>q'. pop_all pop n q = Done (items q, q') \<and> inv q' \<and> items q' = [] \<and> cap q' = cap q"
proof (induction n arbitrary: q)
  case (Suc n)
  show ?case
  proof (cases "items q")
    case Nil
    with Suc.prems show ?thesis by (simp add: pop_none)
  next
    case (Cons x xs)
    from Suc.prems(1) Cons obtain q1 where q1: "pop q = Done (LSP_ERR_NONE, Some x, q1)" "inv q1"
      "items q1 = xs" "cap q1 = cap q"
      using pop_some by blast
    with Suc.prems Cons obtain q2 where "pop_all pop n q1 = Done (xs, q2)" "inv q2"
      "items q2 = []" "cap q2 = cap q1"
      using Suc.IH [of q1] by auto
    with q1 Cons show ?thesis by simp
  qed
qed simp

text \<open>First in, first out: what was pushed comes out behind what was there, in order.\<close>

lemma push_all_pop_all:
  assumes "inv q" "\<forall>x\<in>set xs. fits q x" "length (items q) + length xs \<le> cap q" "cap q < n"
  obtains q1 q2 where "push_all push xs q = Done (LSP_ERR_NONE, q1)"
    and "pop_all pop n q1 = Done (items q @ xs, q2)" and "inv q2" and "items q2 = []"
proof -
  obtain q1 where q1: "push_all push xs q = Done (LSP_ERR_NONE, q1)" "inv q1"
    "items q1 = items q @ xs" "cap q1 = cap q"
    using push_all_room [OF assms(1-3)] by blast
  moreover obtain q2 where "pop_all pop n q1 = Done (items q1, q2)" "inv q2" "items q2 = []"
    using pop_all_drains [OF q1(2), of n] q1 assms(3,4) by auto
  ultimately show thesis
    using that by simp
qed

end

interpretation abs_queue: fifo "\<lambda>_. True" "\<lambda>_ _. True" aq_items aq_cap
  "\<lambda>x q. Done (aq_push x q)" "\<lambda>q. Done (aq_pop q)"
  by unfold_locales (auto simp: aq_push_def aq_pop_def)

interpretation ring_buffer: fifo q_inv "\<lambda>q item. length item = unat (itemsize q)" q_items
  "\<lambda>q. unat (queue_size q)" "\<lambda>x. lsp_queue_push LSP_ERR_NONE w x 0"
  "lsp_queue_pop LSP_ERR_NONE w 0"
  for w
proof unfold_locales
  fix q :: lsp_queue and x :: "u8 list"
  assume *: "q_inv q" "length x = unat (itemsize q)"
  from push_refines [OF *, of w] obtain rc q' where q':
    "lsp_queue_push LSP_ERR_NONE w x 0 q = Done (rc, q')"
    "aq_push x (q_abs q) = (rc, q_abs q')" "q_inv q'" "itemsize q' = itemsize q"
    by blast
  show "\<exists>q'. lsp_queue_push LSP_ERR_NONE w x 0 q = Done (LSP_ERR_NONE, q') \<and> q_inv q'
      \<and> q_items q' = q_items q @ [x] \<and> unat (queue_size q') = unat (queue_size q)
      \<and> (\<lambda>item. length item = unat (itemsize q')) = (\<lambda>item. length item = unat (itemsize q))"
    if "length (q_items q) < unat (queue_size q)"
    using q' that by (auto simp: aq_push_def q_abs_def)
  show "lsp_queue_push LSP_ERR_NONE w x 0 q = Done (LSP_ERR_QUEUE_FULL, q)"
    if "unat (queue_size q) \<le> length (q_items q)"
  proof -
    have "nat (q_length q) = unat (queue_size q)" "0 \<le> q_length q"
      using that q_length_bound [OF *(1)] *(1) by (simp_all add: q_inv_def)
    then have "q_length q = uint (queue_size q)"
      by (simp add: nat_eq_iff)
    then show ?thesis
      using push_nowait [OF *] by simp
  qed
next
  fix q :: lsp_queue and x xs
  assume *: "q_inv q" "q_items q = x # xs"
  then have pos: "0 < q_length q"
    by (auto simp: q_items_def intro: ccontr)
  show "\<exists>q'. lsp_queue_pop LSP_ERR_NONE w 0 q = Done (LSP_ERR_NONE, Some x, q') \<and> q_inv q'
      \<and> q_items q' = xs \<and> unat (queue_size q') = unat (queue_size q)
      \<and> (\<lambda>item. length item = unat (itemsize q')) = (\<lambda>item. length item = unat (itemsize q))"
    using * pos pop_nowait [OF *(1), of w] q_items_take [OF *(1) pos] taken_inv [OF *(1) pos]
    by (auto simp: taken_def)
next
  fix q :: lsp_queue
  assume *: "q_inv q" "q_items q = []"
  then have "q_length q \<le> 0"
    by (simp add: q_items_def)
  with * show "lsp_queue_pop LSP_ERR_NONE w 0 q = Done (LSP_ERR_QUEUE_EMPTY, None, q)"
    by (simp add: pop_nowait)
qed

subsection \<open>Creation and the small operations\<close>

lemma queue_create_inv:
  assumes len: "0 < len" "len \<le> INT_MAX"
    and fits: "unat hdr + nat len * unat isz < 2 ^ 64"
    and ok: "malloc (queue_blocksize hdr len isz)"
  shows "\<exists>q. lsp_queue_create hdr malloc 0 0 0 len isz = Done (Some q) \<and> q_inv q
    \<and> q_items q = [] \<and> unat (queue_size q) = nat len \<and> itemsize q = isz
    \<and> waiting_full q = 0 \<and> waiting_empty q = 0"
proof -
  have n: "unat (int_to_size len) = nat len" "uint (int_to_size len) = len"
    using len by (simp_all add: unat_int_to_size uint_int_to_size)
  have m: "unat (int_to_size len * isz) = nat len * unat isz"
    using fits n by (simp add: unat_word_ariths)
  have b: "unat (queue_blocksize hdr len isz) = unat hdr + nat len * unat isz"
    unfolding queue_blocksize_def using fits m by (subst unat_plus_nowrap) simp_all
  then have le: "hdr \<le> queue_blocksize hdr len isz"
    by (simp add: word_le_nat_alt)
  then have d: "unat (queue_blocksize hdr len isz - hdr) = nat len * unat isz"
    using b by (simp add: unat_minus_le word_le_nat_alt)
  show ?thesis
    using ok le d n len fits
    by (simp add: lsp_queue_create_def lsp_mutex_init_def q_inv_def q_wf_def q_items_def)
qed

lemma queue_clear_inv:
  assumes "q_inv q" "waiting_full q = 0" "waiting_empty q = 0"
  shows "\<exists>q'. lsp_queue_clear q = (LSP_ERR_NONE, q') \<and> q_inv q' \<and> q_items q' = []"
  using assms by (auto simp: lsp_queue_clear_def q_inv_def q_wf_def q_items_def)

subsection \<open>Properties\<close>

text \<open>A queue of two one-byte entries, for the examples.\<close>

definition queue_example :: lsp_queue where
  "queue_example =
     \<lparr>q_length = 0, q_head = 0, q_tail = 0, waiting_full = 0, waiting_empty = 0,
      queue_size = 2, itemsize = 1, qdata = [0, 0]\<rparr>"

lemma queue_example_inv: "q_inv queue_example"
  by (simp add: q_inv_def q_wf_def queue_example_def)

text \<open>
  C1. The ring buffer implements a bounded first-in-first-out queue: a push and a pop with timeout 0
  return what the abstract queue returns (full, empty or success), pop hands over the oldest item,
  the byte-level state they leave represents the abstract state, and the invariant (the indices in
  range, tail = head + count modulo the size, count at most the size) is kept.
\<close>

theorem queue_refines_fifo:
  assumes "q_inv q" and "length item = unat (itemsize q)"
  shows "(\<exists>rc q'. lsp_queue_push LSP_ERR_NONE w item 0 q = Done (rc, q')
      \<and> aq_push item (q_abs q) = (rc, q_abs q') \<and> q_inv q')
    \<and> (\<exists>rc x q'. lsp_queue_pop LSP_ERR_NONE w 0 q = Done (rc, x, q')
      \<and> aq_pop (q_abs q) = (rc, x, q_abs q') \<and> q_inv q')"
  using push_refines [OF assms, of w] pop_refines [OF assms(1), of w] by blast

theorem queue_refines_fifo_witness:
  "\<exists>rc q'. lsp_queue_push LSP_ERR_NONE (\<lambda>q. (0, q)) [7] 0 queue_example = Done (rc, q')
      \<and> aq_push [7] (q_abs queue_example) = (rc, q_abs q') \<and> q_inv q'"
  using queue_refines_fifo [OF queue_example_inv, of "[7]" "\<lambda>q. (0, q)"]
  by (simp add: queue_example_def)

text \<open>
  First in, first out over whole runs: as many items as there is room for can be pushed, and
  popping until the queue is empty returns the items that were there followed by the pushed ones,
  byte for byte and in order.
\<close>

theorem queue_fifo_roundtrip:
  assumes "q_inv q" and "\<forall>item\<in>set xs. length item = unat (itemsize q)"
    and "length (q_items q) + length xs \<le> unat (queue_size q)"
  shows "\<exists>q1 q2. push_all (\<lambda>x. lsp_queue_push LSP_ERR_NONE w x 0) xs q = Done (LSP_ERR_NONE, q1)
    \<and> pop_all (lsp_queue_pop LSP_ERR_NONE w 0) (Suc (unat (queue_size q))) q1
        = Done (q_items q @ xs, q2)
    \<and> q_items q2 = []"
  by (rule ring_buffer.push_all_pop_all [OF assms, of "Suc (unat (queue_size q))" w]) auto

theorem queue_fifo_roundtrip_witness:
  "\<exists>q1 q2. push_all (\<lambda>x. lsp_queue_push LSP_ERR_NONE (\<lambda>q. (0, q)) x 0) [[7], [9]] queue_example
      = Done (LSP_ERR_NONE, q1)
    \<and> pop_all (lsp_queue_pop LSP_ERR_NONE (\<lambda>q. (0, q)) 0) 3 q1 = Done ([[7], [9]], q2)"
proof -
  have 3: "Suc (unat (queue_size queue_example)) = 3"
    by (simp add: queue_example_def)
  show ?thesis
    using queue_fifo_roundtrip [OF queue_example_inv, of "[[7], [9]]" "\<lambda>q. (0, q)"]
    unfolding 3 by (auto simp: queue_example_def q_items_def)
qed

text \<open>
  Creation: for a positive length whose entries and control block fit in the address space, a
  queue is created empty, with the invariant and the capacity asked for, the return value of
  \<open>lsp_queue_length\<close> being that capacity. For a negative length the size computation wraps
  around: with entries no larger than the control block the block allocated for length -1 is
  smaller than the control block that is written into it.
\<close>

theorem queue_creation:
  assumes "0 < len" and "len \<le> INT_MAX" and "unat hdr + nat len * unat isz < 2 ^ 64"
    and "0 < unat isz" and "unat isz \<le> unat hdr"
  shows "(\<exists>q. lsp_queue_create hdr (\<lambda>_. True) 0 0 0 len isz = Done (Some q) \<and> q_inv q
      \<and> q_items q = [] \<and> lsp_queue_length q = len)
    \<and> lsp_queue_create hdr (\<lambda>_. True) 0 0 0 (- 1) isz = Fault OutOfBounds"
proof
  from queue_create_inv [OF assms(1-3), of "\<lambda>_. True"] obtain q where
    q: "lsp_queue_create hdr (\<lambda>_. True) 0 0 0 len isz = Done (Some q)" "q_inv q"
      "q_items q = []" "unat (queue_size q) = nat len"
    by auto
  have "uint (queue_size q) = len"
    using q(4) assms(1) by (metis int_nat_eq less_imp_le of_nat_unat uint_nat)
  then have "lsp_queue_length q = len"
    using assms(2) by (simp add: lsp_queue_length_def size_to_int_small)
  with q show "\<exists>q. lsp_queue_create hdr (\<lambda>_. True) 0 0 0 len isz = Done (Some q) \<and> q_inv q
      \<and> q_items q = [] \<and> lsp_queue_length q = len"
    by blast
next
  have "queue_blocksize hdr (- 1) isz = hdr - isz"
    by (simp add: queue_blocksize_def int_to_size_def)
  moreover have "unat (hdr - isz) < unat hdr"
    using assms(4,5) by (simp add: unat_minus_le)
  ultimately have "\<not> hdr \<le> queue_blocksize hdr (- 1) isz"
    by (simp add: word_le_nat_alt)
  then show "lsp_queue_create hdr (\<lambda>_. True) 0 0 0 (- 1) isz = Fault OutOfBounds"
    by (simp add: lsp_queue_create_def)
qed

theorem queue_creation_witness:
  "(\<exists>q. lsp_queue_create 200 (\<lambda>_. True) 0 0 0 4 8 = Done (Some q) \<and> q_inv q
      \<and> q_items q = [] \<and> lsp_queue_length q = 4)
    \<and> lsp_queue_create 200 (\<lambda>_. True) 0 0 0 (- 1) 8 = Fault OutOfBounds"
  using queue_creation [of 4 200 8] by simp

text \<open>
  A blocking push on a full queue ends with \<open>LSP_ERR_TIMEOUT\<close> only where the deadline is a valid
  \<open>timespec\<close>: where the sub-second part of the timeout carries into the seconds,
  \<open>pthread_cond_timedwait\<close> refuses the deadline (it answers \<open>EINVAL\<close> to an invalid one) and the
  push returns \<open>LSP_ERR_INVALID\<close>. The queue is left as it was in both cases.
\<close>

theorem full_push_timeout:
  assumes "q_inv q" and "q_length q = uint (queue_size q)" and "waiting_full q = 0"
    and "valid_timespec now" and "0 < timeout" and "timeout \<noteq> LSP_TIMEOUT_MAX"
    and "\<forall>ts. timedwait ts = (if valid_timespec ts then ETIMEDOUT else EINVAL)"
  shows "lsp_queue_push LSP_ERR_NONE
      (\<lambda>q. (queue_wait_internal (Some now) wait_rc timedwait timeout, q)) item timeout q
    = Done (if tv_nsec now + uint timeout mod 1000 * 1000000 < 1000000000
            then LSP_ERR_TIMEOUT else LSP_ERR_INVALID, q)"
  using assms full_test [OF assms(1)] cond_deadline_valid [OF assms(4), of timeout]
  by (simp add: lsp_queue_push_def push_enter_def push_resume_def c_inc_def c_dec_def
      queue_wait_internal_def wait_error_def)

theorem full_push_timeout_witness:
  "lsp_queue_push LSP_ERR_NONE
      (\<lambda>q. (queue_wait_internal (Some \<lparr>tv_sec = 7, tv_nsec = 950000000\<rparr>) 0
              (\<lambda>ts. if valid_timespec ts then ETIMEDOUT else EINVAL) 100, q))
      [7] 100 (queue_example\<lparr>q_length := 2\<rparr>)
    = Done (LSP_ERR_INVALID, queue_example\<lparr>q_length := 2\<rparr>)"
proof -
  have "q_inv (queue_example\<lparr>q_length := 2\<rparr>)"
    by (simp add: q_inv_def q_wf_def queue_example_def)
  from full_push_timeout [OF this, of "\<lparr>tv_sec = 7, tv_nsec = 950000000\<rparr>" 100
      "\<lambda>ts. if valid_timespec ts then ETIMEDOUT else EINVAL" 0 "[7]"]
  show ?thesis
    by (simp add: queue_example_def valid_timespec_def lsp_consts)
qed

end
