(* ===== verification/LspQueueConc.thy ===== *)
theory LspQueueConc imports LspQueue begin

section \<open>Threads on one queue\<close>

text \<open>
  Any number of threads (numbered) call \<open>lsp_queue_push\<close> and \<open>lsp_queue_pop\<close> on one queue. A
  critical section runs under the queue's mutex, so a step is one critical section of one thread:
  a call that returns at once, a call that starts to wait, or a wait that ends with some return
  code. The code does not test the queue again after a wait, so nothing relates the end of a wait
  to the state of the queue: another thread may run between the signal and the wake-up, and
  POSIX lets a wait end without a signal. A call that cannot have the mutex in time (\<open>lock_rc\<close> is
  what \<open>lsp_mutex_lock\<close> returned) leaves at once with that code.

  The flag of \<open>qstep\<close> is the environment: \<open>False\<close> is the code as it runs, \<open>True\<close> restricts the runs
  to those where a successful wait ends in a state in which the waiter can go on.
\<close>

datatype thread_state = Running | PushWait "u8 list" | PopWait

record qsys =
  qq :: lsp_queue
  thr :: "nat \<Rightarrow> thread_state"

inductive qstep :: "bool \<Rightarrow> qsys \<Rightarrow> qsys \<Rightarrow> bool" for prompt where
  push_return:
    "thr s t = Running \<Longrightarrow> length item = unat (itemsize (qq s)) \<Longrightarrow>
     push_enter lock_rc item timeout (qq s) = Done (Some rc, q') \<Longrightarrow>
     qstep prompt s (s\<lparr>qq := q'\<rparr>)"
| push_block:
    "thr s t = Running \<Longrightarrow> length item = unat (itemsize (qq s)) \<Longrightarrow>
     push_enter LSP_ERR_NONE item timeout (qq s) = Done (None, q') \<Longrightarrow>
     qstep prompt s (s\<lparr>qq := q', thr := (thr s)(t := PushWait item)\<rparr>)"
| push_wake:
    "thr s t = PushWait item \<Longrightarrow>
     push_resume wait_rc item (qq s) = Done (rc, q') \<Longrightarrow>
     prompt \<and> wait_rc = 0 \<longrightarrow> q_length (qq s) < uint (queue_size (qq s)) \<Longrightarrow>
     qstep prompt s (s\<lparr>qq := q', thr := (thr s)(t := Running)\<rparr>)"
| pop_return:
    "thr s t = Running \<Longrightarrow>
     pop_enter lock_rc timeout (qq s) = Done (Some r, q') \<Longrightarrow>
     qstep prompt s (s\<lparr>qq := q'\<rparr>)"
| pop_block:
    "thr s t = Running \<Longrightarrow>
     pop_enter LSP_ERR_NONE timeout (qq s) = Done (None, q') \<Longrightarrow>
     qstep prompt s (s\<lparr>qq := q', thr := (thr s)(t := PopWait)\<rparr>)"
| pop_wake:
    "thr s t = PopWait \<Longrightarrow>
     pop_resume wait_rc (qq s) = Done (rc, x, q') \<Longrightarrow>
     prompt \<and> wait_rc = 0 \<longrightarrow> 0 < q_length (qq s) \<Longrightarrow>
     qstep prompt s (s\<lparr>qq := q', thr := (thr s)(t := Running)\<rparr>)"

definition q_start :: "qsys \<Rightarrow> bool" where
  "q_start s \<longleftrightarrow> q_inv (qq s) \<and> waiting_full (qq s) = 0 \<and> waiting_empty (qq s) = 0
     \<and> thr s = (\<lambda>_. Running)"

definition push_waiters :: "qsys \<Rightarrow> nat set" where
  "push_waiters s = {t. \<exists>item. thr s t = PushWait item}"

definition pop_waiters :: "qsys \<Rightarrow> nat set" where
  "pop_waiters s = {t. thr s t = PopWait}"

text \<open>
  The invariant of every run: the layout of the chunk, every waiting thread counted once, and the
  items held by waiting pushes of the queue's item size.
\<close>

definition conc_inv :: "qsys \<Rightarrow> bool" where
  "conc_inv s \<longleftrightarrow> q_wf (qq s)
     \<and> finite (push_waiters s) \<and> waiting_full (qq s) = int (card (push_waiters s))
     \<and> finite (pop_waiters s) \<and> waiting_empty (qq s) = int (card (pop_waiters s))
     \<and> (\<forall>t item. thr s t = PushWait item \<longrightarrow> length item = unat (itemsize (qq s)))"

subsection \<open>What one critical section does to the queue\<close>

lemma queue_fields [simp]:
  "waiting_full (stored item q) = waiting_full q" "waiting_empty (stored item q) = waiting_empty q"
  "waiting_full (taken q) = waiting_full q" "waiting_empty (taken q) = waiting_empty q"
  "itemsize (stored item q) = itemsize q" "itemsize (taken q) = itemsize q"
  "queue_size (stored item q) = queue_size q" "queue_size (taken q) = queue_size q"
  "q_length (stored item q) = q_length q + 1" "q_length (taken q) = q_length q - 1"
  by (simp_all add: stored_def taken_def Let_def)

lemma wf_waiting [simp]:
  "q_wf (q\<lparr>waiting_full := w\<rparr>) = q_wf q" "q_wf (q\<lparr>waiting_empty := w\<rparr>) = q_wf q"
  "q_inv (q\<lparr>waiting_full := w\<rparr>) = q_inv q" "q_inv (q\<lparr>waiting_empty := w\<rparr>) = q_inv q"
  by (simp_all add: q_wf_def q_inv_def)

lemma push_enter_cases:
  assumes "q_wf q" "length item = unat (itemsize q)"
    and "push_enter lock_rc item timeout q = Done (r, q')"
  shows "(r \<noteq> None \<and> r \<noteq> Some LSP_ERR_NONE \<and> q' = q)
    \<or> (r = None \<and> q' = q\<lparr>waiting_full := waiting_full q + 1\<rparr>)
    \<or> (r = Some LSP_ERR_NONE \<and> q' = stored item q \<and> \<not> int_to_size (q_length q) \<ge> queue_size q)"
  using assms(3) queue_store_wf [OF assms(1), of item] assms(2)
  by (auto simp: push_enter_def c_inc_def lsp_consts split: if_splits)

lemma push_resume_cases:
  assumes "q_wf q" "length item = unat (itemsize q)"
    and "push_resume wait_rc item q = Done (rc, q')"
  shows "(wait_rc \<noteq> 0 \<and> q' = q\<lparr>waiting_full := waiting_full q - 1\<rparr>)
    \<or> (wait_rc = 0 \<and> q' = stored item (q\<lparr>waiting_full := waiting_full q - 1\<rparr>))"
  using assms(3) queue_store_wf [of "q\<lparr>waiting_full := waiting_full q - 1\<rparr>" item] assms(1,2)
  by (auto simp: push_resume_def c_dec_def Let_def split: if_splits)

lemma pop_enter_cases:
  assumes "q_wf q" "pop_enter lock_rc timeout q = Done (r, q')"
  shows "(r \<noteq> None \<and> q' = q)
    \<or> (r = None \<and> q' = q\<lparr>waiting_empty := waiting_empty q + 1\<rparr>)
    \<or> (r \<noteq> None \<and> q' = taken q \<and> 0 < q_length q)"
  using assms(2) queue_take_wf [OF assms(1)]
  by (auto simp: pop_enter_def c_inc_def split: if_splits)

lemma pop_resume_cases:
  assumes "q_wf q" "pop_resume wait_rc q = Done (rc, x, q')"
  shows "(wait_rc \<noteq> 0 \<and> q' = q\<lparr>waiting_empty := waiting_empty q - 1\<rparr>)
    \<or> (wait_rc = 0 \<and> q' = taken (q\<lparr>waiting_empty := waiting_empty q - 1\<rparr>))"
  using assms(2) queue_take_wf [of "q\<lparr>waiting_empty := waiting_empty q - 1\<rparr>"] assms(1)
  by (auto simp: pop_resume_def c_dec_def Let_def split: if_splits)

text \<open>A thread that starts or ends a wait joins or leaves one set of waiters.\<close>

lemma waiters_update:
  "push_waiters (s\<lparr>qq := q, thr := (thr s)(t := PushWait item)\<rparr>) = insert t (push_waiters s)"
  "pop_waiters (s\<lparr>qq := q, thr := (thr s)(t := PushWait item)\<rparr>) = pop_waiters s - {t}"
  "push_waiters (s\<lparr>qq := q, thr := (thr s)(t := PopWait)\<rparr>) = push_waiters s - {t}"
  "pop_waiters (s\<lparr>qq := q, thr := (thr s)(t := PopWait)\<rparr>) = insert t (pop_waiters s)"
  "push_waiters (s\<lparr>qq := q, thr := (thr s)(t := Running)\<rparr>) = push_waiters s - {t}"
  "pop_waiters (s\<lparr>qq := q, thr := (thr s)(t := Running)\<rparr>) = pop_waiters s - {t}"
  "push_waiters (s\<lparr>qq := q\<rparr>) = push_waiters s" "pop_waiters (s\<lparr>qq := q\<rparr>) = pop_waiters s"
  by (auto simp: push_waiters_def pop_waiters_def)

lemma waiters_mem:
  "thr s t = Running \<Longrightarrow> t \<notin> push_waiters s \<and> t \<notin> pop_waiters s"
  "thr s t = PushWait item \<Longrightarrow> t \<in> push_waiters s \<and> t \<notin> pop_waiters s"
  "thr s t = PopWait \<Longrightarrow> t \<notin> push_waiters s \<and> t \<in> pop_waiters s"
  by (auto simp: push_waiters_def pop_waiters_def)

lemma card_leave: "finite A \<Longrightarrow> t \<in> A \<Longrightarrow> int (card (A - {t})) = int (card A) - 1"
  by (metis card_Suc_Diff1 add_diff_cancel_right' of_nat_Suc add.commute)

lemmas waiters_simps = waiters_update waiters_mem card_leave

lemma conc_inv_push:
  assumes "conc_inv s" "thr s t = Running" "length item = unat (itemsize (qq s))"
    and "push_enter lock_rc item timeout (qq s) = Done (r, q')"
  shows "r \<noteq> None \<Longrightarrow> conc_inv (s\<lparr>qq := q'\<rparr>)"
    and "r = None \<Longrightarrow> conc_inv (s\<lparr>qq := q', thr := (thr s)(t := PushWait item)\<rparr>)"
  using push_enter_cases [OF _ assms(3,4)] assms stored_wf [of "qq s" item]
    waiters_mem(1) [OF assms(2)]
  by (auto simp: conc_inv_def waiters_update)

lemma conc_inv_push_wake:
  assumes "conc_inv s" "thr s t = PushWait item"
    and "push_resume wait_rc item (qq s) = Done (rc, q')"
  shows "conc_inv (s\<lparr>qq := q', thr := (thr s)(t := Running)\<rparr>)"
proof -
  have item: "length item = unat (itemsize (qq s))"
    using assms by (simp add: conc_inv_def)
  show ?thesis
    using push_resume_cases [OF _ item assms(3)] assms item
      stored_wf [of "(qq s)\<lparr>waiting_full := waiting_full (qq s) - 1\<rparr>" item]
      waiters_mem(2) [OF assms(2)]
    by (auto simp: conc_inv_def waiters_update card_leave simp del: card_Diff_singleton card_Diff_insert)
qed

lemma conc_inv_pop:
  assumes "conc_inv s" "thr s t = Running"
    and "pop_enter lock_rc timeout (qq s) = Done (r, q')"
  shows "r \<noteq> None \<Longrightarrow> conc_inv (s\<lparr>qq := q'\<rparr>)"
    and "r = None \<Longrightarrow> conc_inv (s\<lparr>qq := q', thr := (thr s)(t := PopWait)\<rparr>)"
  using pop_enter_cases [OF _ assms(3)] assms taken_wf [of "qq s"] waiters_mem(1) [OF assms(2)]
  by (auto simp: conc_inv_def waiters_update)

lemma conc_inv_pop_wake:
  assumes "conc_inv s" "thr s t = PopWait"
    and "pop_resume wait_rc (qq s) = Done (rc, x, q')"
  shows "conc_inv (s\<lparr>qq := q', thr := (thr s)(t := Running)\<rparr>)"
  using pop_resume_cases [OF _ assms(3)] assms
    taken_wf [of "(qq s)\<lparr>waiting_empty := waiting_empty (qq s) - 1\<rparr>"] waiters_mem(3) [OF assms(2)]
  by (auto simp: conc_inv_def waiters_update card_leave simp del: card_Diff_singleton card_Diff_insert)

lemma qstep_conc_inv: "qstep prompt s s' \<Longrightarrow> conc_inv s \<Longrightarrow> conc_inv s'"
  by (induction rule: qstep.induct)
     (auto intro: conc_inv_push conc_inv_push_wake conc_inv_pop conc_inv_pop_wake)

lemma qstep_q_inv:
  assumes "qstep True s s'" "conc_inv s" "q_inv (qq s)"
  shows "q_inv (qq s')"
  using assms(1)
proof (cases rule: qstep.cases)
  case (push_return t item lock_rc timeout rc q')
  then show ?thesis
    using assms push_enter_cases [of "qq s" item lock_rc timeout "Some rc" q'] full_test [OF assms(3)]
      stored_inv [OF assms(3), of item]
    by (auto simp: conc_inv_def q_inv_def)
next
  case (push_block t item timeout q')
  then show ?thesis
    using assms push_enter_cases [of "qq s" item LSP_ERR_NONE timeout None q'] by (auto simp: conc_inv_def)
next
  case (push_wake t item wait_rc rc q')
  then have "length item = unat (itemsize (qq s))"
    using assms(2) by (simp add: conc_inv_def)
  then show ?thesis
    using assms push_wake push_resume_cases [of "qq s" item wait_rc rc q']
      stored_inv [of "(qq s)\<lparr>waiting_full := waiting_full (qq s) - 1\<rparr>" item]
    by (auto simp: conc_inv_def)
next
  case (pop_return t lock_rc timeout r q')
  then show ?thesis
    using assms pop_enter_cases [of "qq s" lock_rc timeout "Some r" q'] taken_inv [OF assms(3)]
    by (auto simp: conc_inv_def)
next
  case (pop_block t timeout q')
  then show ?thesis
    using assms pop_enter_cases [of "qq s" LSP_ERR_NONE timeout None q'] by (auto simp: conc_inv_def)
next
  case (pop_wake t wait_rc rc x q')
  then show ?thesis
    using assms pop_resume_cases [of "qq s" wait_rc rc x q']
      taken_inv [of "(qq s)\<lparr>waiting_empty := waiting_empty (qq s) - 1\<rparr>"]
    by (auto simp: conc_inv_def)
qed

lemma conc_inv_start: "q_start s \<Longrightarrow> conc_inv s"
  by (simp add: q_start_def conc_inv_def q_inv_def push_waiters_def pop_waiters_def)

interpretation any_run: step_invariant q_start "qstep prompt" conc_inv for prompt
  by unfold_locales (auto intro: conc_inv_start qstep_conc_inv)

interpretation prompt_run: step_invariant q_start "qstep True" "\<lambda>s. conc_inv s \<and> q_inv (qq s)"
  by unfold_locales (auto intro: conc_inv_start qstep_conc_inv qstep_q_inv simp: q_start_def)

subsection \<open>Properties\<close>

definition conc_example :: qsys where
  "conc_example = \<lparr>qq = queue_example, thr = (\<lambda>_. Running)\<rparr>"

lemma conc_example_start: "q_start conc_example"
  by (simp add: q_start_def conc_example_def queue_example_inv) (simp add: queue_example_def)

text \<open>A thread of the example starts to pop and waits.\<close>

lemma conc_example_wait:
  "qstep prompt conc_example
     \<lparr>qq = queue_example\<lparr>waiting_empty := 1\<rparr>, thr = (\<lambda>_. Running)(1 := PopWait)\<rparr>"
  using pop_block [of conc_example 1 100 "queue_example\<lparr>waiting_empty := 1\<rparr>" prompt]
  by (simp add: conc_example_def pop_enter_def queue_example_def c_inc_def)

text \<open>
  C18. In every run of any number of threads, whatever the order of their critical sections and
  however waits end: both indices stay inside the chunk, the tail is the head plus the count modulo
  the size, and the two counters of waiting threads are exact. So \<open>lsp_queue_destroy\<close> refuses exactly while some
  thread waits.
\<close>

theorem queue_run_invariant:
  assumes "q_start s" and "rtranclp (qstep prompt) s s'"
  shows "q_wf (qq s') \<and> waiting_full (qq s') = int (card (push_waiters s'))
    \<and> waiting_empty (qq s') = int (card (pop_waiters s'))
    \<and> (snd (lsp_queue_destroy rc0 (qq s')) = None \<longleftrightarrow> push_waiters s' \<union> pop_waiters s' = {})"
proof -
  have "conc_inv s'"
    using assms by (rule any_run.inv_reachable)
  then show ?thesis
    by (auto simp: conc_inv_def lsp_queue_destroy_def)
qed

theorem queue_run_invariant_witness:
  "snd (lsp_queue_destroy 0 (queue_example\<lparr>waiting_empty := 1\<rparr>)) \<noteq> None
   \<and> rtranclp (qstep False) conc_example
       \<lparr>qq = queue_example\<lparr>waiting_empty := 1\<rparr>, thr = (\<lambda>_. Running)(1 := PopWait)\<rparr>"
  using queue_run_invariant [OF conc_example_start r_into_rtranclp [of "qstep False", OF conc_example_wait], of 0]
    r_into_rtranclp [of "qstep False", OF conc_example_wait]
  by (auto simp: pop_waiters_def)

text \<open>
  What the missing second test costs: in the runs where a successful wait always ends in a state
  in which the waiter can go on, the count stays between 0 and the size, so the ring buffer remains
  a first-in-first-out queue under any interleaving.
\<close>

theorem prompt_runs_keep_fifo:
  assumes "q_start s" and "rtranclp (qstep True) s s'"
  shows "q_inv (qq s') \<and> length (q_items (qq s')) \<le> unat (queue_size (qq s'))"
proof -
  have "q_inv (qq s')"
    using prompt_run.inv_reachable [OF assms] by simp
  then show ?thesis
    by (simp add: q_length_bound)
qed

theorem prompt_runs_keep_fifo_witness:
  "q_inv (queue_example\<lparr>waiting_empty := 1\<rparr>)"
  using prompt_runs_keep_fifo [OF conc_example_start r_into_rtranclp [of "qstep True", OF conc_example_wait]]
  by simp

text \<open>
  A run of the code without any spurious wake-up in which the queue loses an item: a push waits
  on the full queue, a pop signals it, another push takes the free slot first, and the woken push
  stores without looking again. The count is 3 in a queue of size 2 and the oldest item (2) has been
  overwritten.
\<close>

theorem stolen_wakeup_overflows:
  "\<exists>s. rtranclp (qstep False) conc_example s \<and> q_length (qq s) = 3
     \<and> uint (queue_size (qq s)) = 2 \<and> 2 \<notin> set (qdata (qq s))
     \<and> (\<exists>s2. rtranclp (qstep False) conc_example s2 \<and> q_items (qq s2) = [[2], [4]]
         \<and> push_resume 0 [3] (qq s2) = Done (LSP_ERR_NONE, qq s))"
proof -
  define q where "q d l h t w = \<lparr>q_length = l, q_head = h, q_tail = t, waiting_full = w,
      waiting_empty = 0, queue_size = 2, itemsize = 1, qdata = d\<rparr>" for d l h t w
  note ev = q_def push_enter_def push_resume_def pop_enter_def queue_store_def queue_take_def
    entry_find_def next_index_def c_inc_def c_dec_def Let_def int_to_size_def size_to_int_def word_le_nat_alt lsp_consts
  let ?W = "(\<lambda>_. Running)(1 := PushWait [3])"
  let ?s0 = "\<lparr>qq = q [0, 0] 0 0 0 0, thr = (\<lambda>_. Running)\<rparr>"
  let ?s1 = "\<lparr>qq = q [1, 0] 1 0 1 0, thr = (\<lambda>_. Running)\<rparr>"
  let ?s2 = "\<lparr>qq = q [1, 2] 2 0 0 0, thr = (\<lambda>_. Running)\<rparr>"
  let ?s3 = "\<lparr>qq = q [1, 2] 2 0 0 1, thr = ?W\<rparr>"
  let ?s4 = "\<lparr>qq = q [1, 2] 1 1 0 1, thr = ?W\<rparr>"
  let ?s5 = "\<lparr>qq = q [4, 2] 2 1 1 1, thr = ?W\<rparr>"
  let ?s6 = "\<lparr>qq = q [4, 3] 3 1 0 0, thr = (\<lambda>_. Running)\<rparr>"
  have 1: "qstep False ?s0 ?s1"
    using push_return [of ?s0 0 "[1]" LSP_ERR_NONE 0 LSP_ERR_NONE "qq ?s1" False] by (simp add: ev)
  have 2: "qstep False ?s1 ?s2"
    using push_return [of ?s1 0 "[2]" LSP_ERR_NONE 0 LSP_ERR_NONE "qq ?s2" False] by (simp add: ev)
  have 3: "qstep False ?s2 ?s3"
    using push_block [of ?s2 1 "[3]" 100 "qq ?s3" False] by (simp add: ev)
  have 4: "qstep False ?s3 ?s4"
    using pop_return [of ?s3 2 LSP_ERR_NONE 0 "(LSP_ERR_NONE, Some [1])" "qq ?s4" False] by (simp add: ev)
  have 5: "qstep False ?s4 ?s5"
    using push_return [of ?s4 2 "[4]" LSP_ERR_NONE 0 LSP_ERR_NONE "qq ?s5" False] by (simp add: ev)
  have w: "push_resume 0 [3] (qq ?s5) = Done (LSP_ERR_NONE, qq ?s6)"
    by (simp add: ev)
  have 6: "qstep False ?s5 ?s6"
    using push_wake [of ?s5 1 "[3]" 0 LSP_ERR_NONE "qq ?s6" False] w by (simp add: fun_upd_idem)
  have r5: "rtranclp (qstep False) ?s0 ?s5"
    by (rule converse_rtranclp_into_rtranclp, rule 1, rule converse_rtranclp_into_rtranclp, rule 2, rule converse_rtranclp_into_rtranclp, rule 3,
        rule converse_rtranclp_into_rtranclp, rule 4, rule converse_rtranclp_into_rtranclp, rule 5, rule rtranclp.rtrancl_refl)
  moreover have "rtranclp (qstep False) ?s0 ?s6"
    using r5 6 by (rule rtranclp.rtrancl_into_rtrancl)
  moreover have "conc_example = ?s0"
    by (simp add: conc_example_def queue_example_def q_def)
  moreover have "q_items (qq ?s5) = [[2], [4]]"
    by (simp add: q_items_def q_def entry_def upt_rec)
  ultimately show ?thesis
    using w by (intro exI [of _ ?s6] conjI exI [of _ ?s5]) (simp_all add: q_def)
qed

lemma negative_is_full:
  assumes "q_wf q" "q_length q < 0" "INT_MIN \<le> q_length q"
  shows "queue_size q \<le> int_to_size (q_length q)"
proof -
  have "uint (int_to_size (q_length q)) = q_length q mod 2 ^ 64"
    by (simp add: int_to_size_def unsigned_of_int take_bit_eq_mod)
  also have "\<dots> = (q_length q + 2 ^ 64) mod 2 ^ 64"
    by simp
  also have "\<dots> = q_length q + 2 ^ 64"
    using assms(2,3) by (intro mod_pos_pos_trivial) simp_all
  finally show ?thesis
    using assms by (simp add: word_le_def q_wf_def)
qed

text \<open>
  The same race on the pop side makes the count negative, and a negative count is the end of the
  queue: compared with the size as an unsigned number it is larger than any size, so every later
  push with timeout 0 reports a full queue and every pop an empty one, without changing anything.
\<close>

theorem negative_count_wedges:
  assumes "q_wf q" and "q_length q < 0" and "INT_MIN \<le> q_length q"
  shows "lsp_queue_push LSP_ERR_NONE w item 0 q = Done (LSP_ERR_QUEUE_FULL, q)
    \<and> lsp_queue_pop LSP_ERR_NONE w 0 q = Done (LSP_ERR_QUEUE_EMPTY, None, q)
    \<and> (\<exists>s. rtranclp (qstep False) conc_example s \<and> q_wf (qq s) \<and> q_length (qq s) = - 1)"
proof (intro conjI)
  show "lsp_queue_push LSP_ERR_NONE w item 0 q = Done (LSP_ERR_QUEUE_FULL, q)"
    using negative_is_full [OF assms] by (simp add: lsp_queue_push_def push_enter_def)
  show "lsp_queue_pop LSP_ERR_NONE w 0 q = Done (LSP_ERR_QUEUE_EMPTY, None, q)"
    using assms(2) by (simp add: lsp_queue_pop_def pop_enter_def)
next
  define q where "q d l h t w = \<lparr>q_length = l, q_head = h, q_tail = t, waiting_full = 0,
      waiting_empty = w, queue_size = 2, itemsize = 1, qdata = d\<rparr>" for d l h t w
  note ev = q_def push_enter_def pop_resume_def pop_enter_def queue_store_def queue_take_def
    entry_find_def next_index_def c_inc_def c_dec_def Let_def int_to_size_def size_to_int_def word_le_nat_alt lsp_consts
  let ?W = "(\<lambda>_. Running)(1 := PopWait)"
  let ?s0 = "\<lparr>qq = q [0, 0] 0 0 0 0, thr = (\<lambda>_. Running)\<rparr>"
  let ?s1 = "\<lparr>qq = q [0, 0] 0 0 0 1, thr = ?W\<rparr>"
  let ?s2 = "\<lparr>qq = q [1, 0] 1 0 1 1, thr = ?W\<rparr>"
  let ?s3 = "\<lparr>qq = q [1, 0] 0 1 1 1, thr = ?W\<rparr>"
  let ?s4 = "\<lparr>qq = q [1, 0] (- 1) 0 1 0, thr = (\<lambda>_. Running)\<rparr>"
  have 1: "qstep False ?s0 ?s1"
    using pop_block [of ?s0 1 100 "qq ?s1" False] by (simp add: ev)
  have 2: "qstep False ?s1 ?s2"
    using push_return [of ?s1 2 "[1]" LSP_ERR_NONE 0 LSP_ERR_NONE "qq ?s2" False] by (simp add: ev)
  have 3: "qstep False ?s2 ?s3"
    using pop_return [of ?s2 3 LSP_ERR_NONE 0 "(LSP_ERR_NONE, Some [1])" "qq ?s3" False] by (simp add: ev)
  have 4: "qstep False ?s3 ?s4"
    using pop_wake [of ?s3 1 0 LSP_ERR_NONE "Some [0]" "qq ?s4" False] by (simp add: ev fun_upd_idem)
  have "rtranclp (qstep False) ?s0 ?s4"
    by (rule converse_rtranclp_into_rtranclp, rule 1, rule converse_rtranclp_into_rtranclp, rule 2, rule converse_rtranclp_into_rtranclp, rule 3,
        rule converse_rtranclp_into_rtranclp, rule 4, rule rtranclp.rtrancl_refl)
  moreover have "conc_example = ?s0"
    by (simp add: conc_example_def queue_example_def q_def)
  ultimately show "\<exists>s. rtranclp (qstep False) conc_example s \<and> q_wf (qq s) \<and> q_length (qq s) = - 1"
    by (intro exI [of _ ?s4]) (simp add: q_def q_wf_def)
qed

theorem negative_count_wedges_witness:
  "lsp_queue_push LSP_ERR_NONE (\<lambda>q. (0, q)) [5] 0 (queue_example\<lparr>q_length := - 1, q_tail := 1\<rparr>)
     = Done (LSP_ERR_QUEUE_FULL, queue_example\<lparr>q_length := - 1, q_tail := 1\<rparr>)"
proof -
  have "q_wf (queue_example\<lparr>q_length := - 1, q_tail := 1\<rparr>)"
    by (simp add: queue_example_def q_wf_def)
  from negative_count_wedges [OF this, of "\<lambda>q. (0, q)" "[5]"] show ?thesis
    by (simp add: queue_example_def)
qed

end
