(* ===== verification/LspQueueHistory.thy ===== *)
theory LspQueueHistory imports LspQueueConc begin

section \<open>What the threads on a queue are told\<close>

text \<open>
  The runs of \<open>LspQueueConc\<close> with their history: the items of the pushes that returned
  \<open>LSP_ERR_NONE\<close> and the items that pops returned, each in the order of the critical sections in
  which they were stored or taken. A queue that many threads use is correct if this history is
  one of a queue used by a single thread.
\<close>

inductive qrun :: "bool \<Rightarrow> qsys \<Rightarrow> u8 list list \<Rightarrow> u8 list list \<Rightarrow> qsys \<Rightarrow> bool" for prompt where
  run_start: "qrun prompt s [] [] s"
| run_push_return:
    "qrun prompt s ps os s1 \<Longrightarrow> thr s1 t = Running \<Longrightarrow> length item = unat (itemsize (qq s1)) \<Longrightarrow>
     push_enter lock_rc item timeout (qq s1) = Done (Some rc, q') \<Longrightarrow>
     qrun prompt s (if rc = LSP_ERR_NONE then ps @ [item] else ps) os (s1\<lparr>qq := q'\<rparr>)"
| run_push_block:
    "qrun prompt s ps os s1 \<Longrightarrow> thr s1 t = Running \<Longrightarrow> length item = unat (itemsize (qq s1)) \<Longrightarrow>
     push_enter LSP_ERR_NONE item timeout (qq s1) = Done (None, q') \<Longrightarrow>
     qrun prompt s ps os (s1\<lparr>qq := q', thr := (thr s1)(t := PushWait item)\<rparr>)"
| run_push_wake:
    "qrun prompt s ps os s1 \<Longrightarrow> thr s1 t = PushWait item \<Longrightarrow>
     push_resume wait_rc item (qq s1) = Done (rc, q') \<Longrightarrow>
     prompt \<and> wait_rc = 0 \<longrightarrow> q_length (qq s1) < uint (queue_size (qq s1)) \<Longrightarrow>
     qrun prompt s (if rc = LSP_ERR_NONE then ps @ [item] else ps) os
       (s1\<lparr>qq := q', thr := (thr s1)(t := Running)\<rparr>)"
| run_pop_return:
    "qrun prompt s ps os s1 \<Longrightarrow> thr s1 t = Running \<Longrightarrow>
     pop_enter lock_rc timeout (qq s1) = Done (Some (rc, x), q') \<Longrightarrow>
     qrun prompt s ps (case x of None \<Rightarrow> os | Some item \<Rightarrow> os @ [item]) (s1\<lparr>qq := q'\<rparr>)"
| run_pop_block:
    "qrun prompt s ps os s1 \<Longrightarrow> thr s1 t = Running \<Longrightarrow>
     pop_enter LSP_ERR_NONE timeout (qq s1) = Done (None, q') \<Longrightarrow>
     qrun prompt s ps os (s1\<lparr>qq := q', thr := (thr s1)(t := PopWait)\<rparr>)"
| run_pop_wake:
    "qrun prompt s ps os s1 \<Longrightarrow> thr s1 t = PopWait \<Longrightarrow>
     pop_resume wait_rc (qq s1) = Done (rc, x, q') \<Longrightarrow>
     prompt \<and> wait_rc = 0 \<longrightarrow> 0 < q_length (qq s1) \<Longrightarrow>
     qrun prompt s ps (case x of None \<Rightarrow> os | Some item \<Rightarrow> os @ [item])
       (s1\<lparr>qq := q', thr := (thr s1)(t := Running)\<rparr>)"

subsection \<open>Histories and runs\<close>

lemma qrun_steps: "qrun prompt s ps os s' \<Longrightarrow> rtranclp (qstep prompt) s s'"
proof (induction rule: qrun.induct)
  case (run_pop_return s ps os s1 t lock_rc timeout rc x q')
  then show ?case
    using pop_return [of s1 t lock_rc timeout "(rc, x)" q' prompt] by (blast intro: rtranclp.rtrancl_into_rtrancl)
qed (blast intro: rtranclp.rtrancl_into_rtrancl qstep.intros)+

lemma steps_qrun:
  assumes "rtranclp (qstep prompt) s s'"
  shows "\<exists>ps os. qrun prompt s ps os s'"
  using assms
proof (induction rule: rtranclp_induct)
  case base
  then show ?case using run_start by blast
next
  case (step s1 s2)
  then obtain ps os where r: "qrun prompt s ps os s1" by blast
  from step(2) show ?case
  proof (cases rule: qstep.cases)
    case (pop_return t lock_rc timeout x q')
    then show ?thesis
      using run_pop_return [OF r pop_return(2), of lock_rc timeout "fst x" "snd x"] by auto
  next
    case (push_return t item lock_rc timeout rc q')
    then show ?thesis
      using run_push_return [OF r push_return(2-4)] by blast
  next
    case (push_block t item timeout q')
    then show ?thesis
      using run_push_block [OF r push_block(2-4)] by blast
  next
    case (push_wake t item wait_rc rc q')
    then show ?thesis
      using run_push_wake [OF r push_wake(2-4)] by blast
  next
    case (pop_block t timeout q')
    then show ?thesis
      using run_pop_block [OF r pop_block(2-3)] by blast
  next
    case (pop_wake t wait_rc rc x q')
    then show ?thesis
      using run_pop_wake [OF r pop_wake(2-4)] by blast
  qed
qed

subsection \<open>One critical section on the items\<close>

lemma q_items_frame [simp]:
  "q_items (q\<lparr>waiting_full := w\<rparr>) = q_items q" "q_items (q\<lparr>waiting_empty := w\<rparr>) = q_items q"
  by (simp_all add: q_items_def entry_def)

lemma push_enter_items:
  assumes "push_enter lock_rc item timeout q = Done (r, q')" "q_inv q" "length item = unat (itemsize q)"
  shows "q_items q' = (if r = Some LSP_ERR_NONE then q_items q @ [item] else q_items q)"
proof -
  have "q_wf q"
    using assms(2) by (simp add: q_inv_def)
  from push_enter_cases [OF this assms(3,1)] show ?thesis
    using q_items_stored [OF assms(2,3)] full_test [OF assms(2)] assms(2)
    by (auto simp: lsp_consts q_inv_def)
qed

lemma push_resume_items:
  assumes "push_resume wait_rc item q = Done (rc, q')" "q_inv q" "length item = unat (itemsize q)"
    and "wait_rc = 0 \<longrightarrow> q_length q < uint (queue_size q)"
  shows "q_items q' = (if rc = LSP_ERR_NONE then q_items q @ [item] else q_items q)"
proof -
  have wf: "q_wf q"
    using assms(2) by (simp add: q_inv_def)
  have rc: "rc = LSP_ERR_NONE \<longleftrightarrow> wait_rc = 0"
    using assms(1) by (auto simp: push_resume_def wait_error_def Let_def lsp_consts xbind_Done_iff split: if_splits)
  show ?thesis
    using push_resume_cases [OF wf assms(3,1)] rc assms(2-4)
      q_items_stored [of "q\<lparr>waiting_full := waiting_full q - 1\<rparr>" item] by auto
qed

lemma pop_enter_items:
  assumes "pop_enter lock_rc timeout q = Done (r, q')" "q_inv q"
  shows "q_items q = (case r of Some (rc, Some item) \<Rightarrow> item # q_items q' | _ \<Rightarrow> q_items q')"
proof (cases "q_length q \<le> 0")
  case True
  then show ?thesis
    using assms(1) by (auto simp: pop_enter_def exec_simps split: if_splits)
next
  case False
  then have pos: "0 < q_length q" by simp
  show ?thesis
    using assms pos queue_take_wf [of q] q_items_take [OF assms(2) pos]
    by (auto simp: pop_enter_def q_inv_def split: if_splits)
qed

lemma pop_resume_items:
  assumes "pop_resume wait_rc q = Done (rc, x, q')" "q_inv q" "wait_rc = 0 \<longrightarrow> 0 < q_length q"
  shows "q_items q = (case x of None \<Rightarrow> q_items q' | Some item \<Rightarrow> item # q_items q')"
proof (cases "wait_rc = 0")
  case True
  let ?q = "q\<lparr>waiting_empty := waiting_empty q - 1\<rparr>"
  have "q_inv ?q" "0 < q_length ?q"
    using assms(2,3) True by simp_all
  then show ?thesis
    using assms(1) True queue_take_wf [of ?q] q_items_take [of ?q]
    by (auto simp: pop_resume_def c_dec_def Let_def q_inv_def split: if_splits)
next
  case False
  then show ?thesis
    using assms(1) by (auto simp: pop_resume_def c_dec_def Let_def split: if_splits)
qed

subsection \<open>First in, first out for all threads together\<close>

lemma history:
  assumes "qrun True s ps os s'" "conc_inv s" "q_inv (qq s)"
  shows "q_items (qq s) @ ps = os @ q_items (qq s')"
  using assms
proof (induction rule: qrun.induct)
  case (run_start s)
  then show ?case by simp
next
  case (run_push_return s ps os s1 t item lock_rc timeout rc q')
  have "conc_inv s1 \<and> q_inv (qq s1)"
    using prompt_run.inv_steps [OF qrun_steps [OF run_push_return(1)]] run_push_return by simp
  then show ?case
    using run_push_return push_enter_items [OF run_push_return(4)] by auto
next
  case (run_push_block s ps os s1 t item timeout q')
  have "conc_inv s1 \<and> q_inv (qq s1)"
    using prompt_run.inv_steps [OF qrun_steps [OF run_push_block(1)]] run_push_block by simp
  then show ?case
    using run_push_block push_enter_items [OF run_push_block(4)] by auto
next
  case (run_push_wake s ps os s1 t item wait_rc rc q')
  have inv: "conc_inv s1 \<and> q_inv (qq s1)"
    using prompt_run.inv_steps [OF qrun_steps [OF run_push_wake(1)]] run_push_wake by simp
  then have "length item = unat (itemsize (qq s1))"
    using run_push_wake(2) by (simp add: conc_inv_def)
  then show ?case
    using run_push_wake inv push_resume_items [OF run_push_wake(3)] by auto
next
  case (run_pop_return s ps os s1 t lock_rc timeout rc x q')
  have "conc_inv s1 \<and> q_inv (qq s1)"
    using prompt_run.inv_steps [OF qrun_steps [OF run_pop_return(1)]] run_pop_return by simp
  then show ?case
    using run_pop_return pop_enter_items [OF run_pop_return(3)] by (auto split: option.splits)
next
  case (run_pop_block s ps os s1 t timeout q')
  have "conc_inv s1 \<and> q_inv (qq s1)"
    using prompt_run.inv_steps [OF qrun_steps [OF run_pop_block(1)]] run_pop_block by simp
  then show ?case
    using run_pop_block pop_enter_items [OF run_pop_block(3)] by (auto split: option.splits)
next
  case (run_pop_wake s ps os s1 t wait_rc rc x q')
  have "conc_inv s1 \<and> q_inv (qq s1)"
    using prompt_run.inv_steps [OF qrun_steps [OF run_pop_wake(1)]] run_pop_wake by simp
  then show ?case
    using run_pop_wake pop_resume_items [OF run_pop_wake(3)] by (auto split: option.splits)
qed

subsection \<open>Properties\<close>

text \<open>
  C3. In the runs in which a wait ends well only when the waiter can go on, any number of threads see one
  first-in-first-out queue: at every moment the items that pops have returned, followed by those in
  the queue, are the items that were there followed by those whose push has returned success, in the
  order of the critical sections. Nothing is lost, duplicated, reordered or changed, and a push that
  reports an error has stored nothing. Every run has such a history.
\<close>

theorem threads_see_fifo:
  assumes "q_start s" and "rtranclp (qstep True) s s'"
  shows "(\<exists>ps os. qrun True s ps os s')
    \<and> (\<forall>ps os. qrun True s ps os s' \<longrightarrow> q_items (qq s) @ ps = os @ q_items (qq s'))"
  using steps_qrun [OF assms(2)] history [of s _ _ s'] conc_inv_start [OF assms(1)] assms(1)
  by (auto simp: q_start_def)

theorem threads_see_fifo_witness:
  "\<exists>s' :: qsys. qrun True conc_example [[7]] [] s' \<and> q_items (qq s') = [[7]]"
proof -
  have room: "length [7 :: u8] = unat (itemsize (qq conc_example))"
    by (simp add: conc_example_def queue_example_def)
  obtain q' where q': "push_enter LSP_ERR_NONE [7] 0 (qq conc_example) = Done (Some LSP_ERR_NONE, q')"
    by (simp add: conc_example_def queue_example_def push_enter_def queue_store_def entry_find_def
        next_index_def c_inc_def int_to_size_def word_le_nat_alt Let_def)
  have r: "qrun True conc_example [[7]] [] (conc_example\<lparr>qq := q'\<rparr>)"
    using run_push_return [OF run_start [of True conc_example] _ room q'] by (simp add: conc_example_def)
  then show ?thesis
    using threads_see_fifo [OF conc_example_start qrun_steps [OF r]]
    by (intro exI [of _ "conc_example\<lparr>qq := q'\<rparr>"]) (force simp: conc_example_def queue_example_def q_items_def)
qed

end
