(* ===== verification/LspQueueSignal.thy ===== *)
theory LspQueueSignal imports LspQueueConc begin

section \<open>Who wakes whom: the signals of one queue\<close>

text \<open>
  The threads of \<open>LspQueueConc\<close> with the two condition variables. A thread that waits is asleep
  until it is woken: a push that has stored its item signals \<open>cond_empty\<close>, a pop that has taken
  one signals \<open>cond_full\<close>. \<open>pthread_cond_signal\<close> unblocks at least one of the threads blocked on
  the condition variable, if any are. How a wait ends is up to the environment: \<open>ends s t rc\<close> says
  that the wait of thread \<open>t\<close> may end with return code \<open>rc\<close> in state \<open>s\<close>. POSIX allows everything
  (a wait without a signal may end with 0 or time out, and one that has been signalled may still
  report the timeout); the smaller environments below say which of these a theorem excludes.

  \<open>lsp_queue_clear\<close> tests the two counters of waiting threads before it takes the mutex, so it is
  two steps, and it signals nobody: \<open>clear_step\<close> adds it.
\<close>

datatype sig_thread =
    Idle
  | PushAsleep "u8 list" | PushWoken "u8 list"
  | PopAsleep | PopWoken
  | Clearing

record ssys =
  sq :: lsp_queue
  sthr :: "nat \<Rightarrow> sig_thread"

definition wake_push :: "sig_thread \<Rightarrow> sig_thread" where
  "wake_push x = (case x of PushAsleep item \<Rightarrow> PushWoken item | _ \<Rightarrow> x)"

definition wake_pop :: "sig_thread \<Rightarrow> sig_thread" where
  "wake_pop x = (case x of PopAsleep \<Rightarrow> PopWoken | _ \<Rightarrow> x)"

inductive cond_signal ::
  "(sig_thread \<Rightarrow> sig_thread) \<Rightarrow> (nat \<Rightarrow> sig_thread) \<Rightarrow> (nat \<Rightarrow> sig_thread) \<Rightarrow> bool" for wake where
  none_blocked: "\<forall>t. wake (th t) = th t \<Longrightarrow> cond_signal wake th th"
| some_blocked: "t \<in> W \<Longrightarrow> wake (th t) \<noteq> th t \<Longrightarrow>
     cond_signal wake th (\<lambda>u. if u \<in> W then wake (th u) else th u)"

text \<open>Only a call that succeeds reaches the signal.\<close>

definition signals :: "(sig_thread \<Rightarrow> sig_thread) \<Rightarrow> int \<Rightarrow> (nat \<Rightarrow> sig_thread) \<Rightarrow> (nat \<Rightarrow> sig_thread) \<Rightarrow> bool" where
  "signals wake rc th th' \<longleftrightarrow> (if rc = LSP_ERR_NONE then cond_signal wake th th' else th' = th)"

inductive sig_step :: "(ssys \<Rightarrow> nat \<Rightarrow> int \<Rightarrow> bool) \<Rightarrow> ssys \<Rightarrow> ssys \<Rightarrow> bool" for ends where
  push_call:
    "sthr s t = Idle \<Longrightarrow> length item = unat (itemsize (sq s)) \<Longrightarrow>
     push_enter lock_rc item timeout (sq s) = Done (Some rc, q') \<Longrightarrow>
     signals wake_pop rc (sthr s) th' \<Longrightarrow>
     sig_step ends s (s\<lparr>sq := q', sthr := th'\<rparr>)"
| push_sleep:
    "sthr s t = Idle \<Longrightarrow> length item = unat (itemsize (sq s)) \<Longrightarrow>
     push_enter LSP_ERR_NONE item timeout (sq s) = Done (None, q') \<Longrightarrow>
     sig_step ends s (s\<lparr>sq := q', sthr := (sthr s)(t := PushAsleep item)\<rparr>)"
| push_end:
    "sthr s t = PushAsleep item \<or> sthr s t = PushWoken item \<Longrightarrow> ends s t wait_rc \<Longrightarrow>
     push_resume wait_rc item (sq s) = Done (rc, q') \<Longrightarrow>
     signals wake_pop rc ((sthr s)(t := Idle)) th' \<Longrightarrow>
     sig_step ends s (s\<lparr>sq := q', sthr := th'\<rparr>)"
| pop_call:
    "sthr s t = Idle \<Longrightarrow>
     pop_enter lock_rc timeout (sq s) = Done (Some (rc, x), q') \<Longrightarrow>
     signals wake_push rc (sthr s) th' \<Longrightarrow>
     sig_step ends s (s\<lparr>sq := q', sthr := th'\<rparr>)"
| pop_sleep:
    "sthr s t = Idle \<Longrightarrow>
     pop_enter LSP_ERR_NONE timeout (sq s) = Done (None, q') \<Longrightarrow>
     sig_step ends s (s\<lparr>sq := q', sthr := (sthr s)(t := PopAsleep)\<rparr>)"
| pop_end:
    "sthr s t = PopAsleep \<or> sthr s t = PopWoken \<Longrightarrow> ends s t wait_rc \<Longrightarrow>
     pop_resume wait_rc (sq s) = Done (rc, x, q') \<Longrightarrow>
     signals wake_push rc ((sthr s)(t := Idle)) th' \<Longrightarrow>
     sig_step ends s (s\<lparr>sq := q', sthr := th'\<rparr>)"

inductive clear_step :: "(ssys \<Rightarrow> nat \<Rightarrow> int \<Rightarrow> bool) \<Rightarrow> ssys \<Rightarrow> ssys \<Rightarrow> bool" for ends where
  queue_step: "sig_step ends s s' \<Longrightarrow> clear_step ends s s'"
| clear_refused:
    "sthr s t = Idle \<Longrightarrow> waiting_empty (sq s) \<noteq> 0 \<or> waiting_full (sq s) \<noteq> 0 \<Longrightarrow>
     clear_step ends s s"
| clear_tested:
    "sthr s t = Idle \<Longrightarrow> waiting_empty (sq s) = 0 \<Longrightarrow> waiting_full (sq s) = 0 \<Longrightarrow>
     clear_step ends s (s\<lparr>sthr := (sthr s)(t := Clearing)\<rparr>)"
| clear_reset:
    "sthr s t = Clearing \<Longrightarrow>
     clear_step ends s
       (s\<lparr>sq := (sq s)\<lparr>q_head := 0, q_tail := 0, q_length := 0\<rparr>, sthr := (sthr s)(t := Idle)\<rparr>)"

text \<open>The environments: no wait ends well without a signal; a signalled wait ends well; a wait ends
  well only in a state in which the waiter can go on.\<close>

definition asleep :: "sig_thread \<Rightarrow> bool" where
  "asleep x \<longleftrightarrow> x = PopAsleep \<or> (\<exists>item. x = PushAsleep item)"

definition no_spurious :: "ssys \<Rightarrow> nat \<Rightarrow> int \<Rightarrow> bool" where
  "no_spurious s t rc \<longleftrightarrow> (asleep (sthr s t) \<longrightarrow> rc \<noteq> 0)"

definition keeps_signal :: "ssys \<Rightarrow> nat \<Rightarrow> int \<Rightarrow> bool" where
  "keeps_signal s t rc \<longleftrightarrow> (\<not> asleep (sthr s t) \<longrightarrow> rc = 0)"

definition ready :: "ssys \<Rightarrow> nat \<Rightarrow> int \<Rightarrow> bool" where
  "ready s t rc \<longleftrightarrow> (rc = 0 \<longrightarrow>
     (if sthr s t = PopAsleep \<or> sthr s t = PopWoken then 0 < q_length (sq s)
      else q_length (sq s) < uint (queue_size (sq s))))"

definition sig_start :: "ssys \<Rightarrow> bool" where
  "sig_start s \<longleftrightarrow> q_inv (sq s) \<and> waiting_full (sq s) = 0 \<and> waiting_empty (sq s) = 0
     \<and> sthr s = (\<lambda>_. Idle)"

subsection \<open>The threads without the signals\<close>

fun wait_of :: "sig_thread \<Rightarrow> thread_state" where
  "wait_of (PushAsleep item) = PushWait item"
| "wait_of (PushWoken item) = PushWait item"
| "wait_of PopAsleep = PopWait"
| "wait_of PopWoken = PopWait"
| "wait_of Idle = Running"
| "wait_of Clearing = Running"

definition forget :: "ssys \<Rightarrow> qsys" where
  "forget s = \<lparr>qq = sq s, thr = (\<lambda>t. wait_of (sthr s t))\<rparr>"

lemma wait_of_wake [simp]: "wait_of (wake_push x) = wait_of x" "wait_of (wake_pop x) = wait_of x"
  by (cases x; simp add: wake_push_def wake_pop_def)+

lemma cond_signal_wait_of:
  "cond_signal wake th th' \<Longrightarrow> (\<And>x. wait_of (wake x) = wait_of x) \<Longrightarrow> wait_of (th' t) = wait_of (th t)"
  by (induction rule: cond_signal.induct) auto

lemma signals_wait_of:
  "signals wake_push rc th th' \<Longrightarrow> wait_of (th' t) = wait_of (th t)"
  "signals wake_pop rc th th' \<Longrightarrow> wait_of (th' t) = wait_of (th t)"
  by (auto simp: signals_def dest: cond_signal_wait_of split: if_splits)

lemma forget_simps [simp]: "qq (forget s) = sq s" "thr (forget s) t = wait_of (sthr s t)"
  by (simp_all add: forget_def)

lemma forget_update:
  assumes "\<And>u. wait_of (th u) = ((\<lambda>v. wait_of (sthr s v))(t := w)) u"
  shows "forget (s\<lparr>sq := q, sthr := th\<rparr>) = (forget s)\<lparr>qq := q, thr := (thr (forget s))(t := w)\<rparr>"
  using assms by (simp add: forget_def fun_eq_iff)

lemma forget_same:
  assumes "\<And>u. wait_of (th u) = wait_of (sthr s u)"
  shows "forget (s\<lparr>sq := q, sthr := th\<rparr>) = (forget s)\<lparr>qq := q\<rparr>"
  using assms by (simp add: forget_def)

lemma sig_step_qstep:
  assumes "sig_step ends s s'" and "\<And>t rc. prompt \<Longrightarrow> ends s t rc \<Longrightarrow> ready s t rc"
  shows "qstep prompt (forget s) (forget s')"
  using assms(1)
proof (cases rule: sig_step.cases)
  case (push_call t item lock_rc timeout rc q' th')
  have "qstep prompt (forget s) ((forget s)\<lparr>qq := q'\<rparr>)"
    using push_call by (intro push_return [of "forget s" t item lock_rc timeout rc]) simp_all
  then show ?thesis
    using push_call(1) signals_wait_of(2) [OF push_call(5)] by (simp add: forget_same)
next
  case (push_sleep t item timeout q')
  have "qstep prompt (forget s) ((forget s)\<lparr>qq := q', thr := (thr (forget s))(t := PushWait item)\<rparr>)"
    using push_sleep by (intro push_block [of "forget s" t item timeout]) simp_all
  then show ?thesis
    using push_sleep(1) by (simp add: forget_update [where t = t and w = "PushWait item"])
next
  case (push_end t item wait_rc rc q' th')
  have "qstep prompt (forget s) ((forget s)\<lparr>qq := q', thr := (thr (forget s))(t := Running)\<rparr>)"
    using push_end assms(2) [of t wait_rc]
    by (intro push_wake [of "forget s" t item wait_rc rc]) (auto simp: ready_def)
  then show ?thesis
    using push_end(1) signals_wait_of(2) [OF push_end(5)]
    by (simp add: forget_update [where t = t and w = Running])
next
  case (pop_call t lock_rc timeout rc x q' th')
  have "qstep prompt (forget s) ((forget s)\<lparr>qq := q'\<rparr>)"
    using pop_call by (intro pop_return [of "forget s" t lock_rc timeout "(rc, x)"]) simp_all
  then show ?thesis
    using pop_call(1) signals_wait_of(1) [OF pop_call(4)] by (simp add: forget_same)
next
  case (pop_sleep t timeout q')
  have "qstep prompt (forget s) ((forget s)\<lparr>qq := q', thr := (thr (forget s))(t := PopWait)\<rparr>)"
    using pop_sleep by (intro pop_block [of "forget s" t timeout]) simp_all
  then show ?thesis
    using pop_sleep(1) by (simp add: forget_update [where t = t and w = PopWait])
next
  case (pop_end t wait_rc rc x q' th')
  have "qstep prompt (forget s) ((forget s)\<lparr>qq := q', thr := (thr (forget s))(t := Running)\<rparr>)"
    using pop_end assms(2) [of t wait_rc]
    by (intro pop_wake [of "forget s" t wait_rc rc x]) (auto simp: ready_def)
  then show ?thesis
    using pop_end(1) signals_wait_of(1) [OF pop_end(5)]
    by (simp add: forget_update [where t = t and w = Running])
qed

lemma sig_start_forget: "sig_start s \<Longrightarrow> q_start (forget s)"
  by (simp add: sig_start_def q_start_def forget_def)

lemma sig_run_qstep:
  assumes "rtranclp (sig_step ends) s s'" and "\<And>s t rc. prompt \<Longrightarrow> ends s t rc \<Longrightarrow> ready s t rc"
  shows "rtranclp (qstep prompt) (forget s) (forget s')"
  using assms(1)
  by (induction rule: rtranclp_induct)
     (auto intro: rtranclp.rtrancl_into_rtrancl sig_step_qstep [OF _ assms(2)])

subsection \<open>No signal is lost\<close>

definition woken_pops :: "(nat \<Rightarrow> sig_thread) \<Rightarrow> nat set" where
  "woken_pops th = {t. th t = PopWoken}"

definition woken_pushes :: "(nat \<Rightarrow> sig_thread) \<Rightarrow> nat set" where
  "woken_pushes th = {t. \<exists>item. th t = PushWoken item}"

text \<open>
  While a pop sleeps, every item of the queue is meant for a pop that has been woken and has not
  run yet; while a push sleeps, every free slot is meant for a woken push.
\<close>

definition pops_signalled :: "ssys \<Rightarrow> bool" where
  "pops_signalled s \<longleftrightarrow> ((\<exists>t. sthr s t = PopAsleep) \<longrightarrow>
     q_length (sq s) \<le> int (card (woken_pops (sthr s))))"

definition pushes_signalled :: "ssys \<Rightarrow> bool" where
  "pushes_signalled s \<longleftrightarrow> ((\<exists>t item. sthr s t = PushAsleep item) \<longrightarrow>
     uint (queue_size (sq s)) - q_length (sq s) \<le> int (card (woken_pushes (sthr s))))"

lemma wake_simps [simp]:
  "wake_pop x = PopAsleep \<longleftrightarrow> False" "wake_pop x = PopWoken \<longleftrightarrow> x = PopAsleep \<or> x = PopWoken"
  "wake_pop x = PushAsleep item \<longleftrightarrow> x = PushAsleep item" "wake_pop x = PushWoken item \<longleftrightarrow> x = PushWoken item"
  "wake_push x = PopAsleep \<longleftrightarrow> x = PopAsleep" "wake_push x = PopWoken \<longleftrightarrow> x = PopWoken"
  "wake_push x = PushAsleep item \<longleftrightarrow> False"
  "wake_push x = PushWoken item \<longleftrightarrow> x = PushAsleep item \<or> x = PushWoken item"
  by (cases x; auto simp: wake_pop_def wake_push_def)+

lemma wake_moves:
  "wake_pop x \<noteq> x \<longleftrightarrow> x = PopAsleep" "wake_push x \<noteq> x \<longleftrightarrow> (\<exists>item. x = PushAsleep item)"
  by (cases x; simp add: wake_pop_def wake_push_def)+

lemma signal_other:
  assumes "signals wake_push rc th th'"
  shows "woken_pops th' = woken_pops th" and "th' u = PopAsleep \<longleftrightarrow> th u = PopAsleep"
  using assms by (auto simp: signals_def woken_pops_def elim!: cond_signal.cases split: if_splits)

lemma signal_other':
  assumes "signals wake_pop rc th th'"
  shows "woken_pushes th' = woken_pushes th"
    and "th' u = PushAsleep item \<longleftrightarrow> th u = PushAsleep item"
  using assms by (auto simp: signals_def woken_pushes_def elim!: cond_signal.cases split: if_splits)

lemma signal_wakes_pop:
  assumes "cond_signal wake_pop th th'" "finite {t. wait_of (th t) = PopWait}" "th' u = PopAsleep"
  shows "th u = PopAsleep \<and> card (woken_pops th) < card (woken_pops th')"
  using assms(1)
proof cases
  case none_blocked
  then show ?thesis
    using assms(3) wake_moves(1) by blast
next
  case (some_blocked t W)
  have fin: "finite (woken_pops th')"
    by (rule finite_subset [OF _ assms(2)]) (auto simp: some_blocked woken_pops_def split: if_splits)
  have "woken_pops th \<subset> woken_pops th'"
    using some_blocked by (auto simp: woken_pops_def wake_moves)
  then show ?thesis
    using assms(3) psubset_card_mono [OF fin] by (simp add: some_blocked split: if_splits)
qed

lemma signal_wakes_push:
  assumes "cond_signal wake_push th th'" "finite {t. \<exists>item. wait_of (th t) = PushWait item}"
    "th' u = PushAsleep item"
  shows "th u = PushAsleep item \<and> card (woken_pushes th) < card (woken_pushes th')"
  using assms(1)
proof cases
  case none_blocked
  then show ?thesis
    using assms(3) wake_moves(2) by blast
next
  case (some_blocked t W)
  have fin: "finite (woken_pushes th')"
    by (rule finite_subset [OF _ assms(2)]) (auto simp: some_blocked woken_pushes_def split: if_splits)
  have "woken_pushes th \<subset> woken_pushes th'"
    using some_blocked by (auto simp: woken_pushes_def wake_moves)
  then show ?thesis
    using assms(3) psubset_card_mono [OF fin] by (simp add: some_blocked split: if_splits)
qed

lemma woken_update:
  "th t \<noteq> PopWoken \<Longrightarrow> x \<noteq> PopWoken \<Longrightarrow> woken_pops (th(t := x)) = woken_pops th"
  "\<forall>item. th t \<noteq> PushWoken item \<Longrightarrow> \<forall>item. x \<noteq> PushWoken item \<Longrightarrow>
     woken_pushes (th(t := x)) = woken_pushes th"
  by (auto simp: woken_pops_def woken_pushes_def)

lemma woken_leaves:
  "woken_pops (th(t := Idle)) = woken_pops th - {t}"
  "woken_pushes (th(t := Idle)) = woken_pushes th - {t}"
  by (auto simp: woken_pops_def woken_pushes_def)

lemma resume_rc:
  "push_resume wait_rc item q = Done (rc, q') \<Longrightarrow> rc = LSP_ERR_NONE \<longleftrightarrow> wait_rc = 0"
  "pop_resume wait_rc q = Done (rc, x, q') \<Longrightarrow> rc = LSP_ERR_NONE \<longleftrightarrow> wait_rc = 0"
  by (auto simp: push_resume_def pop_resume_def wait_error_def Let_def lsp_consts xbind_Done_iff
      split: if_splits)

lemma enter_rc:
  "push_enter lock_rc item timeout q = Done (Some rc, q') \<Longrightarrow>
     q_wf q \<Longrightarrow> length item = unat (itemsize q) \<Longrightarrow>
     (if rc = LSP_ERR_NONE then q' = stored item q else q' = q)"
  "pop_enter lock_rc timeout q = Done (Some (rc, x), q') \<Longrightarrow>
     q_wf q \<Longrightarrow> (if rc = LSP_ERR_NONE then q' = taken q else q' = q)"
  using queue_store_wf [of q item] queue_take_wf [of q]
  by (auto simp: push_enter_def pop_enter_def lsp_consts xbind_Done_iff split: if_splits)

lemma conc_finite:
  assumes "conc_inv (forget s)"
  shows "finite {t. wait_of (sthr s t) = PopWait}"
    and "finite {t. \<exists>item. wait_of (sthr s t) = PushWait item}"
    and "q_wf (sq s)" and "finite (woken_pops (sthr s))" and "finite (woken_pushes (sthr s))"
proof -
  show 1: "finite {t. wait_of (sthr s t) = PopWait}"
    and 2: "finite {t. \<exists>item. wait_of (sthr s t) = PushWait item}" and "q_wf (sq s)"
    using assms by (simp_all add: conc_inv_def pop_waiters_def push_waiters_def)
  show "finite (woken_pops (sthr s))"
    by (rule finite_subset [OF _ 1]) (auto simp: woken_pops_def)
  show "finite (woken_pushes (sthr s))"
    by (rule finite_subset [OF _ 2]) (auto simp: woken_pushes_def)
qed

lemma conc_item:
  "conc_inv (forget s) \<Longrightarrow> sthr s t = PushAsleep item \<or> sthr s t = PushWoken item \<Longrightarrow>
     length item = unat (itemsize (sq s))"
  by (auto simp: conc_inv_def dest!: spec [of _ t])

text \<open>One step of each side: items arrive with a signal, and a woken pop that goes on takes one.\<close>

lemma pops_store:
  assumes "conc_inv (forget s)" "pops_signalled s" "signals wake_pop LSP_ERR_NONE th th'"
    and "\<And>u. wait_of (th u) = PopWait \<longleftrightarrow> wait_of (sthr s u) = PopWait"
    and "woken_pops th = woken_pops (sthr s)" "\<And>u. th u = PopAsleep \<Longrightarrow> sthr s u = PopAsleep"
    and "q_length q' = q_length (sq s) + 1"
  shows "pops_signalled (s\<lparr>sq := q', sthr := th'\<rparr>)"
proof -
  have "q_length q' \<le> int (card (woken_pops th'))" if "th' u = PopAsleep" for u
  proof -
    have sig: "th u = PopAsleep \<and> card (woken_pops th) < card (woken_pops th')"
      using assms(1,3,4) that
      by (intro signal_wakes_pop) (simp_all add: signals_def conc_finite)
    then have "sthr s u = PopAsleep"
      using assms(6) by blast
    then have "q_length (sq s) \<le> int (card (woken_pops (sthr s)))"
      using assms(2) by (auto simp: pops_signalled_def)
    then show ?thesis
      using sig assms(5,7) by simp
  qed
  then show ?thesis
    by (auto simp: pops_signalled_def)
qed

lemma pushes_take:
  assumes "conc_inv (forget s)" "pushes_signalled s" "signals wake_push LSP_ERR_NONE th th'"
    and "\<And>u item. wait_of (th u) = PushWait item \<longleftrightarrow> wait_of (sthr s u) = PushWait item"
    and "woken_pushes th = woken_pushes (sthr s)"
    and "\<And>u item. th u = PushAsleep item \<Longrightarrow> sthr s u = PushAsleep item"
    and "q_length q' = q_length (sq s) - 1" "queue_size q' = queue_size (sq s)"
  shows "pushes_signalled (s\<lparr>sq := q', sthr := th'\<rparr>)"
proof -
  have "uint (queue_size q') - q_length q' \<le> int (card (woken_pushes th'))"
    if "th' u = PushAsleep item" for u item
  proof -
    have sig: "th u = PushAsleep item \<and> card (woken_pushes th) < card (woken_pushes th')"
      using assms(1,3,4) that
      by (intro signal_wakes_push) (simp_all add: signals_def conc_finite)
    then have "sthr s u = PushAsleep item"
      using assms(6) by blast
    then have "uint (queue_size (sq s)) - q_length (sq s) \<le> int (card (woken_pushes (sthr s)))"
      using assms(2) by (auto simp: pushes_signalled_def)
    then show ?thesis
      using sig assms(5,7,8) by simp
  qed
  then show ?thesis
    by (auto simp: pushes_signalled_def)
qed

lemma pops_signalled_step:
  assumes "sig_step ends s s'" "conc_inv (forget s)" "pops_signalled s"
    and "\<And>t rc. ends s t rc \<Longrightarrow> keeps_signal s t rc"
  shows "pops_signalled s'"
  using assms(1)
proof (cases rule: sig_step.cases)
  case (push_call t item lock_rc timeout rc q' th')
  show ?thesis
  proof (cases "rc = LSP_ERR_NONE")
    case True
    then show ?thesis
      using push_call enter_rc(1) [OF push_call(4)] assms(2,3) conc_finite [OF assms(2)]
      by (auto intro!: pops_store [where th = "sthr s"])
  next
    case False
    then show ?thesis
      using push_call enter_rc(1) [OF push_call(4)] assms(2,3) conc_finite [OF assms(2)]
      by (simp add: signals_def pops_signalled_def)
  qed
next
  case (push_sleep t item timeout q')
  have "q_length q' = q_length (sq s)"
    using push_enter_cases [OF _ push_sleep(3,4)] conc_finite [OF assms(2)] by auto
  then show ?thesis
    using push_sleep assms(3) by (auto simp: pops_signalled_def woken_update split: if_splits)
next
  case (push_end t item wait_rc rc q' th')
  note item = conc_item [OF assms(2) push_end(2)] and wf = conc_finite(3) [OF assms(2)]
  show ?thesis
  proof (cases "rc = LSP_ERR_NONE")
    case True
    then have "q_length q' = q_length (sq s) + 1"
      using push_resume_cases [OF wf item push_end(4)] resume_rc(1) [OF push_end(4)] by auto
    with True push_end show ?thesis
      using assms(2,3) by (auto intro!: pops_store [where th = "(sthr s)(t := Idle)"]
          simp: woken_update split: if_splits)
  next
    case False
    then have "q_length q' = q_length (sq s)"
      using push_resume_cases [OF wf item push_end(4)] resume_rc(1) [OF push_end(4)] by auto
    with False push_end show ?thesis
      using assms(3) by (auto simp: signals_def pops_signalled_def woken_update split: if_splits)
  qed
next
  case (pop_call t lock_rc timeout rc x q' th')
  then have "q_length q' \<le> q_length (sq s)"
    using enter_rc(2) [OF pop_call(3)] conc_finite [OF assms(2)] by (auto split: if_splits)
  then show ?thesis
    using pop_call(1) signal_other [OF pop_call(4)] assms(3) by (auto simp: pops_signalled_def)
next
  case (pop_sleep t timeout q')
  then have "q_length q' \<le> 0"
    using conc_finite [OF assms(2)] by (auto simp: pop_enter_def c_inc_def xbind_Done_iff split: if_splits)
  then show ?thesis
    using pop_sleep(1) by (auto simp: pops_signalled_def)
next
  case (pop_end t wait_rc rc x q' th')
  note q' = pop_resume_cases [OF conc_finite(3) [OF assms(2)] pop_end(4)]
  note th' = signal_other [OF pop_end(5)]
  show ?thesis
  proof (cases "sthr s t = PopAsleep")
    case True
    then have "q_length q' \<le> q_length (sq s)" "q_length (sq s) \<le> int (card (woken_pops (sthr s)))"
      using q' assms(3) by (auto simp: pops_signalled_def)
    then show ?thesis
      using True pop_end(1) th' by (simp add: pops_signalled_def woken_update)
  next
    case False
    then have t: "sthr s t = PopWoken"
      using pop_end(2) by simp
    then have "q_length q' = q_length (sq s) - 1"
      using q' assms(4) [OF pop_end(3)] by (auto simp: keeps_signal_def asleep_def)
    moreover have "int (card (woken_pops ((sthr s)(t := Idle)))) = int (card (woken_pops (sthr s))) - 1"
      using t conc_finite(4) [OF assms(2)]
      by (subst woken_leaves) (simp_all add: card_leave woken_pops_def del: card_Diff_singleton card_Diff_insert)
    ultimately show ?thesis
      using t pop_end(1) th' assms(3) by (auto simp: pops_signalled_def split: if_splits)
  qed
qed

lemma pushes_signalled_step:
  assumes "sig_step ends s s'" "conc_inv (forget s)" "q_inv (sq s)" "pushes_signalled s"
    and "\<And>t rc. ends s t rc \<Longrightarrow> keeps_signal s t rc"
  shows "pushes_signalled s'"
  using assms(1)
proof (cases rule: sig_step.cases)
  case (pop_call t lock_rc timeout rc x q' th')
  show ?thesis
  proof (cases "rc = LSP_ERR_NONE")
    case True
    then show ?thesis
      using pop_call enter_rc(2) [OF pop_call(3)] assms(2,4) conc_finite [OF assms(2)]
      by (auto intro!: pushes_take [where th = "sthr s"])
  next
    case False
    then show ?thesis
      using pop_call enter_rc(2) [OF pop_call(3)] assms(2,4) conc_finite [OF assms(2)]
      by (simp add: signals_def pushes_signalled_def)
  qed
next
  case (pop_sleep t timeout q')
  have "q_length q' = q_length (sq s) \<and> queue_size q' = queue_size (sq s)"
    using pop_enter_cases [OF _ pop_sleep(3)] conc_finite [OF assms(2)] by auto
  then show ?thesis
    using pop_sleep assms(4) by (auto simp: pushes_signalled_def woken_update split: if_splits)
next
  case (pop_end t wait_rc rc x q' th')
  have wf: "q_wf (sq s)"
    using assms(2) by (auto simp: conc_inv_def)
  show ?thesis
  proof (cases "rc = LSP_ERR_NONE")
    case True
    then have "q_length q' = q_length (sq s) - 1 \<and> queue_size q' = queue_size (sq s)"
      using pop_resume_cases [OF wf pop_end(4)] resume_rc(2) [OF pop_end(4)] by auto
    with True pop_end show ?thesis
      using assms(2,4) by (auto intro!: pushes_take [where th = "(sthr s)(t := Idle)"]
          simp: woken_update split: if_splits)
  next
    case False
    then have "q_length q' = q_length (sq s) \<and> queue_size q' = queue_size (sq s)"
      using pop_resume_cases [OF wf pop_end(4)] resume_rc(2) [OF pop_end(4)] by auto
    with False pop_end show ?thesis
      using assms(4) by (auto simp: signals_def pushes_signalled_def woken_update split: if_splits)
  qed
next
  case (push_call t item lock_rc timeout rc q' th')
  then have "q_length (sq s) \<le> q_length q' \<and> queue_size q' = queue_size (sq s)"
    using enter_rc(1) [OF push_call(4)] conc_finite [OF assms(2)] by (auto split: if_splits)
  then show ?thesis
    using push_call(1) signal_other' [OF push_call(5)] assms(4) by (auto simp: pushes_signalled_def)
next
  case (push_sleep t item timeout q')
  then have "q_length q' = uint (queue_size q')"
    using full_test [OF assms(3)]
    by (auto simp: push_enter_def c_inc_def xbind_Done_iff split: if_splits)
  then show ?thesis
    using push_sleep(1) by (auto simp: pushes_signalled_def)
next
  case (push_end t item wait_rc rc q' th')
  note item = conc_item [OF assms(2) push_end(2)]
  note q' = push_resume_cases [OF conc_finite(3) [OF assms(2)] item push_end(4)]
  note th' = signal_other' [OF push_end(5)]
  show ?thesis
  proof (cases "sthr s t = PushAsleep item")
    case True
    then have "q_length (sq s) \<le> q_length q'" "queue_size q' = queue_size (sq s)"
      "uint (queue_size (sq s)) - q_length (sq s) \<le> int (card (woken_pushes (sthr s)))"
      using q' assms(4) by (auto simp: pushes_signalled_def)
    then show ?thesis
      using True push_end(1) th' by (simp add: pushes_signalled_def woken_update)
  next
    case False
    then have t: "sthr s t = PushWoken item"
      using push_end(2) by simp
    then have "q_length q' = q_length (sq s) + 1 \<and> queue_size q' = queue_size (sq s)"
      using q' assms(5) [OF push_end(3)] by (auto simp: keeps_signal_def asleep_def)
    moreover have "int (card (woken_pushes ((sthr s)(t := Idle)))) = int (card (woken_pushes (sthr s))) - 1"
      using t conc_finite(5) [OF assms(2)]
      by (subst woken_leaves) (simp_all add: card_leave woken_pushes_def del: card_Diff_singleton card_Diff_insert)
    ultimately show ?thesis
      using t push_end(1) th' assms(4) by (auto simp: pushes_signalled_def split: if_splits)
  qed
qed

subsection \<open>The waits without signals are all that POSIX promises\<close>

lemma signals_exist: "\<exists>th'. signals wake rc th th'"
proof (cases "\<forall>t. wake (th t) = th t")
  case True
  then show ?thesis
    using none_blocked [of wake th] by (auto simp: signals_def)
next
  case False
  then show ?thesis
    using some_blocked [of _ UNIV wake th] by (auto simp: signals_def)
qed

definition no_clearing :: "ssys \<Rightarrow> bool" where
  "no_clearing s \<longleftrightarrow> (\<forall>t. sthr s t \<noteq> Clearing)"

lemma wait_of_inv:
  "wait_of x = Running \<longleftrightarrow> x = Idle \<or> x = Clearing"
  "wait_of x = PushWait item \<longleftrightarrow> x = PushAsleep item \<or> x = PushWoken item"
  "wait_of x = PopWait \<longleftrightarrow> x = PopAsleep \<or> x = PopWoken"
  by (cases x; auto)+

lemma wake_clearing [simp]: "wake_pop x = Clearing \<longleftrightarrow> x = Clearing" "wake_push x = Clearing \<longleftrightarrow> x = Clearing"
  by (cases x; simp add: wake_pop_def wake_push_def)+

lemma signals_clearing:
  "signals wake_pop rc th th' \<Longrightarrow> th' u = Clearing \<longleftrightarrow> th u = Clearing"
  "signals wake_push rc th th' \<Longrightarrow> th' u = Clearing \<longleftrightarrow> th u = Clearing"
  by (auto simp: signals_def elim!: cond_signal.cases split: if_splits)

lemma sig_step_clearing:
  "sig_step ends s s' \<Longrightarrow> sthr s' u = Clearing \<Longrightarrow> sthr s u = Clearing"
  by (induction rule: sig_step.induct) (auto simp: signals_clearing split: if_splits)

lemma no_clearing_step: "sig_step ends s s' \<Longrightarrow> no_clearing s \<Longrightarrow> no_clearing s'"
  by (auto simp: no_clearing_def dest: sig_step_clearing)

lemma qstep_sig_step:
  assumes "qstep False (forget s) r" "no_clearing s"
  shows "\<exists>s'. sig_step (\<lambda>_ _ _. True) s s' \<and> forget s' = r"
  using assms(1)
proof (cases rule: qstep.cases)
  case (push_return t item lock_rc timeout rc q')
  then have t: "sthr s t = Idle"
    using assms(2) by (simp add: no_clearing_def wait_of_inv)
  obtain th' where th': "signals wake_pop rc (sthr s) th'"
    using signals_exist by blast
  have "forget (s\<lparr>sq := q', sthr := th'\<rparr>) = r"
    using push_return(1) signals_wait_of(2) [OF th'] by (simp add: forget_same)
  with sig_step.push_call [OF t _ _ th'] push_return show ?thesis by (metis forget_simps(1))
next
  case (push_block t item timeout q')
  then have t: "sthr s t = Idle"
    using assms(2) by (simp add: no_clearing_def wait_of_inv)
  have "forget (s\<lparr>sq := q', sthr := (sthr s)(t := PushAsleep item)\<rparr>) = r"
    using push_block(1) by (simp add: forget_update [where t = t and w = "PushWait item"])
  with sig_step.push_sleep [OF t] push_block show ?thesis by (metis forget_simps(1))
next
  case (push_wake t item wait_rc rc q')
  then have t: "sthr s t = PushAsleep item \<or> sthr s t = PushWoken item"
    by (simp add: wait_of_inv)
  obtain th' where th': "signals wake_pop rc ((sthr s)(t := Idle)) th'"
    using signals_exist by blast
  have "forget (s\<lparr>sq := q', sthr := th'\<rparr>) = r"
    using push_wake(1) signals_wait_of(2) [OF th'] by (simp add: forget_update [where t = t and w = Running])
  with sig_step.push_end [OF t _ _ th', of "\<lambda>_ _ _. True"] push_wake show ?thesis by (metis forget_simps(1))
next
  case (pop_return t lock_rc timeout x q')
  then have t: "sthr s t = Idle"
    using assms(2) by (simp add: no_clearing_def wait_of_inv)
  obtain th' where th': "signals wake_push (fst x) (sthr s) th'"
    using signals_exist by blast
  have "forget (s\<lparr>sq := q', sthr := th'\<rparr>) = r"
    using pop_return(1) signals_wait_of(1) [OF th'] by (simp add: forget_same)
  with sig_step.pop_call [OF t _ th', of lock_rc timeout "snd x"] pop_return show ?thesis by (metis forget_simps(1) prod.collapse)
next
  case (pop_block t timeout q')
  then have t: "sthr s t = Idle"
    using assms(2) by (simp add: no_clearing_def wait_of_inv)
  have "forget (s\<lparr>sq := q', sthr := (sthr s)(t := PopAsleep)\<rparr>) = r"
    using pop_block(1) by (simp add: forget_update [where t = t and w = PopWait])
  with sig_step.pop_sleep [OF t] pop_block show ?thesis by (metis forget_simps(1))
next
  case (pop_wake t wait_rc rc x q')
  then have t: "sthr s t = PopAsleep \<or> sthr s t = PopWoken"
    by (simp add: wait_of_inv)
  obtain th' where th': "signals wake_push rc ((sthr s)(t := Idle)) th'"
    using signals_exist by blast
  have "forget (s\<lparr>sq := q', sthr := th'\<rparr>) = r"
    using pop_wake(1) signals_wait_of(1) [OF th'] by (simp add: forget_update [where t = t and w = Running])
  with sig_step.pop_end [OF t _ _ th', of "\<lambda>_ _ _. True"] pop_wake show ?thesis by (metis forget_simps(1))
qed

lemma qstep_sig_run:
  assumes "rtranclp (qstep False) (forget s) r" "no_clearing s"
  shows "\<exists>s'. rtranclp (sig_step (\<lambda>_ _ _. True)) s s' \<and> forget s' = r \<and> no_clearing s'"
  using assms(1)
proof (induction rule: rtranclp_induct)
  case base
  then show ?case using assms(2) by blast
next
  case (step r r')
  then obtain s' where s': "rtranclp (sig_step (\<lambda>_ _ _. True)) s s'" "forget s' = r" "no_clearing s'"
    by blast
  with step have "qstep False (forget s') r'"
    by simp
  then obtain s'' where "sig_step (\<lambda>_ _ _. True) s' s''" "forget s'' = r'"
    using qstep_sig_step [OF _ s'(3)] by blast
  with s' show ?case
    by (blast intro: rtranclp.rtrancl_into_rtrancl no_clearing_step)
qed

subsection \<open>The invariants as runs\<close>

lemma sig_start_inv:
  assumes "sig_start s"
  shows "conc_inv (forget s)" "pops_signalled s" "pushes_signalled s" "q_inv (sq s)" "no_clearing s"
  using assms conc_inv_start [OF sig_start_forget [OF assms]]
  by (simp_all add: sig_start_def pops_signalled_def pushes_signalled_def no_clearing_def)

abbreviation kept_by :: "(ssys \<Rightarrow> nat \<Rightarrow> int \<Rightarrow> bool) \<Rightarrow> ssys \<Rightarrow> nat \<Rightarrow> int \<Rightarrow> bool" where
  "kept_by ends s t rc \<equiv> ends s t rc \<and> keeps_signal s t rc"

interpretation signal_run: step_invariant sig_start "sig_step (kept_by ends)"
  "\<lambda>s. conc_inv (forget s) \<and> pops_signalled s" for ends
proof unfold_locales
  fix s s'
  assume *: "sig_step (kept_by ends) s s'" "conc_inv (forget s) \<and> pops_signalled s"
  show "conc_inv (forget s') \<and> pops_signalled s'"
    using * pops_signalled_step [OF *(1)] qstep_conc_inv [OF sig_step_qstep [where prompt = False, OF *(1)]]
    by simp
qed (simp add: sig_start_inv)

interpretation prompt_signal_run: step_invariant sig_start "sig_step (kept_by ready)"
  "\<lambda>s. conc_inv (forget s) \<and> q_inv (sq s) \<and> pops_signalled s \<and> pushes_signalled s"
proof unfold_locales
  fix s s'
  assume *: "sig_step (kept_by ready) s s'"
    "conc_inv (forget s) \<and> q_inv (sq s) \<and> pops_signalled s \<and> pushes_signalled s"
  have q: "qstep True (forget s) (forget s')"
    by (rule sig_step_qstep [OF *(1)]) simp
  show "conc_inv (forget s') \<and> q_inv (sq s') \<and> pops_signalled s' \<and> pushes_signalled s'"
    using * pops_signalled_step [OF *(1)] pushes_signalled_step [OF *(1)] qstep_conc_inv [OF q]
      qstep_q_inv [OF q] by simp
qed (simp add: sig_start_inv)

subsection \<open>Properties\<close>

definition sig_example :: ssys where
  "sig_example = \<lparr>sq = queue_example, sthr = (\<lambda>_. Idle)\<rparr>"

lemma sig_example_start: "sig_start sig_example"
  by (simp add: sig_start_def sig_example_def queue_example_inv) (simp add: queue_example_def)

lemma signal_one: "wake (th t) \<noteq> th t \<Longrightarrow> cond_signal wake th (th(t := wake (th t)))"
  using some_blocked [of t "{t}" wake th] by (simp add: fun_upd_def cong: if_cong)

text \<open>Two pops of the example sleep, and a push wakes the first of them.\<close>

definition two_pops :: "int \<Rightarrow> int \<Rightarrow> u8 list \<Rightarrow> lsp_queue" where
  "two_pops l w d = \<lparr>q_length = l, q_head = 0, q_tail = l, waiting_full = 0, waiting_empty = w,
     queue_size = 2, itemsize = 1, qdata = d\<rparr>"

lemmas queue_eval = two_pops_def push_enter_def push_resume_def pop_enter_def pop_resume_def
  queue_store_def queue_take_def entry_find_def next_index_def c_inc_def c_dec_def Let_def
  int_to_size_def size_to_int_def word_le_nat_alt lsp_consts wait_error_def

lemma sig_example_two_pops: "sq sig_example = two_pops 0 0 [0, 0]"
  by (simp add: sig_example_def queue_example_def two_pops_def)

lemma two_pops_run:
  "rtranclp (sig_step ends) sig_example
     \<lparr>sq = two_pops 1 2 [1, 0], sthr = (\<lambda>_. Idle)(1 := PopWoken, 2 := PopAsleep)\<rparr>"
proof -
  let ?s1 = "\<lparr>sq = two_pops 0 1 [0, 0], sthr = (\<lambda>_. Idle)(1 := PopAsleep)\<rparr>"
  let ?s2 = "\<lparr>sq = two_pops 0 2 [0, 0], sthr = (\<lambda>_. Idle)(1 := PopAsleep, 2 := PopAsleep)\<rparr>"
  let ?s3 = "\<lparr>sq = two_pops 1 2 [1, 0], sthr = (\<lambda>_. Idle)(1 := PopWoken, 2 := PopAsleep)\<rparr>"
  have 1: "sig_step ends sig_example ?s1"
    using pop_sleep [of sig_example 1 100 "sq ?s1" ends]
    by (simp add: sig_example_two_pops) (simp add: sig_example_def queue_eval)
  have 2: "sig_step ends ?s1 ?s2"
    using pop_sleep [of ?s1 2 100 "sq ?s2" ends] by (simp add: queue_eval)
  have "signals wake_pop LSP_ERR_NONE (sthr ?s2) (sthr ?s3)"
    using signal_one [of wake_pop "sthr ?s2" 1]
    by (simp add: signals_def wake_pop_def fun_upd_twist)
  then have 3: "sig_step ends ?s2 ?s3"
    using push_call [of ?s2 0 "[1]" LSP_ERR_NONE 0 LSP_ERR_NONE "sq ?s3" "sthr ?s3" ends] by (simp add: queue_eval)
  show ?thesis
    by (rule converse_rtranclp_into_rtranclp, rule 1, rule converse_rtranclp_into_rtranclp, rule 2,
        rule converse_rtranclp_into_rtranclp, rule 3, rule rtranclp.rtrancl_refl)
qed

text \<open>
  The threads of \<open>qstep\<close>, in which a wait may end at any moment with any return code, are exactly
  the threads with condition variables as POSIX promises them: forgetting which threads have been
  signalled turns runs of one into runs of the other, in both directions.
\<close>

theorem waits_are_posix:
  assumes "sig_start s"
  shows "(\<exists>s'. rtranclp (sig_step (\<lambda>_ _ _. True)) s s' \<and> forget s' = r)
    \<longleftrightarrow> rtranclp (qstep False) (forget s) r"
  using sig_run_qstep [of "\<lambda>_ _ _. True" s _ False] qstep_sig_run [OF _ sig_start_inv(5) [OF assms], of r]
  by auto

theorem waits_are_posix_witness:
  "\<exists>s' :: ssys. rtranclp (sig_step (\<lambda>_ _ _. True)) sig_example s'
     \<and> forget s' = forget \<lparr>sq = two_pops 1 2 [1, 0], sthr = (\<lambda>_. Idle)(1 := PopAsleep, 2 := PopWoken)\<rparr>"
proof -
  have "forget \<lparr>sq = two_pops 1 2 [1, 0], sthr = (\<lambda>_. Idle)(1 := PopAsleep, 2 := PopWoken)\<rparr>
    = forget \<lparr>sq = two_pops 1 2 [1, 0], sthr = (\<lambda>_. Idle)(1 := PopWoken, 2 := PopAsleep)\<rparr>"
    by (simp add: forget_def fun_eq_iff)
  then show ?thesis
    using waits_are_posix [OF sig_example_start] two_pops_run [of "\<lambda>_ _ _. True"]
      sig_run_qstep [OF two_pops_run [of "\<lambda>_ _ _. True"], of False] by auto
qed

text \<open>
  C6. The signals suffice, if every wait that has been signalled ends with 0: while a pop sleeps, there
  are no more items than woken pops. If moreover waits end only when the waiter can go on, there are
  no more free slots than woken pushes while a push sleeps, so a sleeping pop and a sleeping push
  never face each other with nobody on the way: the queue cannot deadlock.
\<close>

theorem queue_signals_suffice:
  assumes "sig_start s" and "rtranclp (sig_step (kept_by ends)) s s1"
    and "rtranclp (sig_step (kept_by ready)) s s2"
  shows "(\<forall>t. sthr s1 t = PopAsleep \<longrightarrow> q_length (sq s1) \<le> int (card (woken_pops (sthr s1))))
    \<and> (\<forall>u item. sthr s2 u = PushAsleep item \<longrightarrow>
        unat (queue_size (sq s2)) - length (q_items (sq s2)) \<le> card (woken_pushes (sthr s2))
        \<and> (\<forall>t. sthr s2 t = PopAsleep \<longrightarrow> woken_pops (sthr s2) \<union> woken_pushes (sthr s2) \<noteq> {}))"
proof (intro conjI allI impI)
  show "q_length (sq s1) \<le> int (card (woken_pops (sthr s1)))" if "sthr s1 t = PopAsleep" for t
    using signal_run.inv_reachable [OF assms(1,2)] that by (auto simp: pops_signalled_def)
next
  have i: "q_inv (sq s2)" "pops_signalled s2" "pushes_signalled s2"
    using prompt_signal_run.inv_reachable [OF assms(1,3)] by simp_all
  fix u item
  assume u: "sthr s2 u = PushAsleep item"
  have free: "uint (queue_size (sq s2)) \<le> q_length (sq s2) + int (card (woken_pushes (sthr s2)))"
    using i(3) u by (auto simp: pushes_signalled_def)
  have "int (length (q_items (sq s2))) = q_length (sq s2)"
    using i(1) by (simp add: q_items_def q_inv_def)
  with free have "int (unat (queue_size (sq s2)))
      \<le> int (length (q_items (sq s2)) + card (woken_pushes (sthr s2)))"
    by simp
  then show "unat (queue_size (sq s2)) - length (q_items (sq s2)) \<le> card (woken_pushes (sthr s2))"
    unfolding of_nat_le_iff by simp
  show "woken_pops (sthr s2) \<union> woken_pushes (sthr s2) \<noteq> {}" if "sthr s2 t = PopAsleep" for t
  proof
    assume "woken_pops (sthr s2) \<union> woken_pushes (sthr s2) = {}"
    with i(2) free that have "q_length (sq s2) \<le> 0" "uint (queue_size (sq s2)) \<le> q_length (sq s2)"
      by (auto simp: pops_signalled_def)
    then show False
      using i(1) by (simp add: q_inv_def q_wf_def)
  qed
qed

text \<open>A push of the example sleeps on the full queue, and a pop wakes it.\<close>

definition full_queue :: "int \<Rightarrow> int \<Rightarrow> int \<Rightarrow> int \<Rightarrow> u8 list \<Rightarrow> lsp_queue" where
  "full_queue l h t w d = \<lparr>q_length = l, q_head = h, q_tail = t, waiting_full = w, waiting_empty = 0,
     queue_size = 2, itemsize = 1, qdata = d\<rparr>"

lemma cond_idle [simp]:
  "signals wake_pop rc (\<lambda>_. Idle) (\<lambda>_. Idle)"
  "signals wake_pop rc ((\<lambda>_. Idle)(t := PushWoken item)) ((\<lambda>_. Idle)(t := PushWoken item))"
  "signals wake_pop rc ((\<lambda>_. Idle)(t := Clearing)) ((\<lambda>_. Idle)(t := Clearing))"
  using none_blocked [of wake_pop "\<lambda>_. Idle"] none_blocked [of wake_pop "(\<lambda>_. Idle)(t := PushWoken item)"]
    none_blocked [of wake_pop "(\<lambda>_. Idle)(t := Clearing)"]
  by (simp_all add: signals_def wake_pop_def)

lemma sig_example_idle: "sig_example = \<lparr>sq = full_queue 0 0 0 0 [0, 0], sthr = (\<lambda>_. Idle)\<rparr>"
  by (simp add: sig_example_def queue_example_def full_queue_def)

lemma fill_queue:
  assumes "th = (\<lambda>_. Idle) \<or> th = (\<lambda>_. Idle)(0 := Clearing)"
  shows "rtranclp (sig_step ends) \<lparr>sq = full_queue 0 0 0 0 [0, 0], sthr = th\<rparr>
    \<lparr>sq = full_queue 2 0 0 1 [1, 2], sthr = th(1 := PushAsleep [3])\<rparr>"
proof -
  let ?s0 = "\<lparr>sq = full_queue 0 0 0 0 [0, 0], sthr = th\<rparr>"
  let ?s1 = "\<lparr>sq = full_queue 1 0 1 0 [1, 0], sthr = th\<rparr>"
  let ?s2 = "\<lparr>sq = full_queue 2 0 0 0 [1, 2], sthr = th\<rparr>"
  let ?s3 = "\<lparr>sq = full_queue 2 0 0 1 [1, 2], sthr = th(1 := PushAsleep [3])\<rparr>"
  have th: "signals wake_pop rc th th" "th 1 = Idle" for rc
    using assms by auto
  have 1: "sig_step ends ?s0 ?s1"
    using push_call [of ?s0 1 "[1]" LSP_ERR_NONE 0 LSP_ERR_NONE "sq ?s1" th ends] th
    by (simp add: full_queue_def queue_eval)
  have 2: "sig_step ends ?s1 ?s2"
    using push_call [of ?s1 1 "[2]" LSP_ERR_NONE 0 LSP_ERR_NONE "sq ?s2" th ends] th
    by (simp add: full_queue_def queue_eval)
  have 3: "sig_step ends ?s2 ?s3"
    using push_sleep [of ?s2 1 "[3]" 100 "sq ?s3" ends] th by (simp add: full_queue_def queue_eval)
  show ?thesis
    by (rule converse_rtranclp_into_rtranclp, rule 1, rule converse_rtranclp_into_rtranclp, rule 2,
        rule converse_rtranclp_into_rtranclp, rule 3, rule rtranclp.rtrancl_refl)
qed

lemma full_run:
  "rtranclp (sig_step ends) sig_example
     \<lparr>sq = full_queue 2 0 0 1 [1, 2], sthr = (\<lambda>_. Idle)(1 := PushAsleep [3])\<rparr>"
  unfolding sig_example_idle by (rule fill_queue) simp

theorem queue_signals_suffice_witness:
  "q_length (two_pops 1 2 [1, 0])
     \<le> int (card (woken_pops ((\<lambda>_. Idle)(1 := PopWoken, 2 := PopAsleep))))
   \<and> unat (queue_size (full_queue 2 0 0 1 [1, 2])) - length (q_items (full_queue 2 0 0 1 [1, 2]))
     \<le> card (woken_pushes ((\<lambda>_. Idle)(1 := PushAsleep [3])))"
  using queue_signals_suffice [OF sig_example_start two_pops_run full_run] by force

text \<open>
  The three ways the signals fail, each a run from the initial state.

  A wait that has been signalled may still report the timeout, and the code returns without testing
  the queue again: two pops sleep, a push stores an item and signals the first, which times out all
  the same, and now the item lies in the queue while the second pop sleeps and nobody is on the way.
\<close>

theorem timeout_eats_signal:
  "\<exists>s. rtranclp (sig_step (\<lambda>s t rc. no_spurious s t rc \<and> ready s t rc)) sig_example s
     \<and> q_items (sq s) = [[1]] \<and> sthr s = (\<lambda>_. Idle)(2 := PopAsleep)"
proof -
  let ?ends = "\<lambda>s t rc. no_spurious s t rc \<and> ready s t rc"
  let ?s3 = "\<lparr>sq = two_pops 1 2 [1, 0], sthr = (\<lambda>_. Idle)(1 := PopWoken, 2 := PopAsleep)\<rparr>"
  let ?s4 = "\<lparr>sq = two_pops 1 1 [1, 0], sthr = (\<lambda>_. Idle)(2 := PopAsleep)\<rparr>"
  have rc: "LSP_ERR_TIMEOUT \<noteq> LSP_ERR_NONE" "ETIMEDOUT \<noteq> 0"
    by (simp_all add: lsp_consts)
  have "(sthr ?s3)(1 := Idle) = sthr ?s4"
    by (auto simp: fun_eq_iff)
  then have "sig_step ?ends ?s3 ?s4"
    using pop_end [of ?s3 1 ?ends ETIMEDOUT LSP_ERR_TIMEOUT None "sq ?s4" "sthr ?s4"] rc
    by (simp add: signals_def no_spurious_def ready_def asleep_def)
       (simp add: two_pops_def pop_resume_def c_dec_def wait_error_def)
  then have "rtranclp (sig_step ?ends) sig_example ?s4"
    using two_pops_run by (rule rtranclp.rtrancl_into_rtrancl [rotated])
  moreover have "q_items (sq ?s4) = [[1]]"
    by (simp add: q_items_def two_pops_def entry_def upt_rec)
  ultimately show ?thesis
    by (intro exI [of _ ?s4]) simp
qed

text \<open>
  Nor do signals that always arrive, and without spurious wake-ups, keep the queue in bounds. A push
  sleeps on the full queue and a pop wakes it; another push takes the slot before the woken thread
  gets the mutex, and the woken push stores a third item into a queue of two. The oldest item, 2, is
  overwritten by the newest.
\<close>

theorem signalled_push_overflows:
  "\<exists>s s'. rtranclp (sig_step (kept_by no_spurious)) sig_example s \<and> q_items (sq s) = [[2], [4]]
     \<and> sthr s 1 = PushWoken [3]
     \<and> sig_step (kept_by no_spurious) s s' \<and> sthr s' = (\<lambda>_. Idle)
     \<and> q_length (sq s') = 3 \<and> uint (queue_size (sq s')) = 2 \<and> 2 \<notin> set (qdata (sq s'))"
proof -
  let ?ends = "kept_by no_spurious"
  let ?s3 = "\<lparr>sq = full_queue 2 0 0 1 [1, 2], sthr = (\<lambda>_. Idle)(1 := PushAsleep [3])\<rparr>"
  let ?s4 = "\<lparr>sq = full_queue 1 1 0 1 [1, 2], sthr = (\<lambda>_. Idle)(1 := PushWoken [3])\<rparr>"
  let ?s5 = "\<lparr>sq = full_queue 2 1 1 1 [4, 2], sthr = (\<lambda>_. Idle)(1 := PushWoken [3])\<rparr>"
  let ?s6 = "\<lparr>sq = full_queue 3 1 0 0 [4, 3], sthr = (\<lambda>_. Idle)\<rparr>"
  have "signals wake_push LSP_ERR_NONE (sthr ?s3) (sthr ?s4)"
    using signal_one [of wake_push "sthr ?s3" 1] by (simp add: signals_def wake_push_def)
  then have 4: "sig_step ?ends ?s3 ?s4"
    using pop_call [of ?s3 2 LSP_ERR_NONE 0 LSP_ERR_NONE "Some [1]" "sq ?s4" "sthr ?s4" ?ends]
    by (simp add: full_queue_def queue_eval)
  have 5: "sig_step ?ends ?s4 ?s5"
    using push_call [of ?s4 2 "[4]" LSP_ERR_NONE 0 LSP_ERR_NONE "sq ?s5" "sthr ?s5" ?ends]
    by (simp add: full_queue_def queue_eval)
  have 6: "sig_step ?ends ?s5 ?s6"
    using push_end [of ?s5 1 "[3]" ?ends 0 LSP_ERR_NONE "sq ?s6" "sthr ?s6"]
    by (simp add: no_spurious_def keeps_signal_def asleep_def fun_upd_idem)
       (simp add: full_queue_def queue_eval)
  have "rtranclp (sig_step ?ends) sig_example ?s5"
    by (rule rtranclp.rtrancl_into_rtrancl, rule rtranclp.rtrancl_into_rtrancl, rule full_run,
        rule 4, rule 5)
  moreover have "q_items (sq ?s5) = [[2], [4]]"
    by (simp add: q_items_def full_queue_def entry_def upt_rec)
  ultimately show ?thesis
    using 6 by (intro exI [of _ ?s5] exI [of _ ?s6]) (simp add: full_queue_def)
qed

text \<open>
  \<open>lsp_queue_clear\<close> tests that nobody waits before it locks: between the two, pushes fill the queue
  and one goes to sleep; the clear empties the queue and signals nobody. A push sleeps on an empty
  queue, whatever the environment does about waits.
\<close>

theorem clear_strands_push:
  "\<exists>s. rtranclp (clear_step ends) sig_example s \<and> q_inv (sq s) \<and> q_items (sq s) = []
     \<and> sthr s = (\<lambda>_. Idle)(1 := PushAsleep [3])"
proof -
  let ?c = "(\<lambda>_. Idle)(0 := Clearing)"
  let ?s1 = "\<lparr>sq = full_queue 0 0 0 0 [0, 0], sthr = ?c\<rparr>"
  let ?s2 = "\<lparr>sq = full_queue 2 0 0 1 [1, 2], sthr = ?c(1 := PushAsleep [3])\<rparr>"
  let ?s3 = "\<lparr>sq = full_queue 0 0 0 1 [1, 2], sthr = (\<lambda>_. Idle)(1 := PushAsleep [3])\<rparr>"
  have 1: "clear_step ends sig_example ?s1"
    unfolding sig_example_idle
    using clear_tested [of "\<lparr>sq = full_queue 0 0 0 0 [0, 0], sthr = (\<lambda>_. Idle)\<rparr>" 0 ends]
    by (simp add: full_queue_def)
  have 2: "rtranclp (clear_step ends) ?s1 ?s2"
    by (rule mono_rtranclp [rule_format, OF _ fill_queue [of ?c ends]]) (auto intro: queue_step)
  have "(?c(1 := PushAsleep [3]))(0 := Idle) = sthr ?s3"
    by (auto simp: fun_eq_iff)
  then have 3: "clear_step ends ?s2 ?s3"
    using clear_reset [of ?s2 0 ends] by (simp add: full_queue_def)
  have "rtranclp (clear_step ends) sig_example ?s3"
    by (rule converse_rtranclp_into_rtranclp, rule 1, rule rtranclp.rtrancl_into_rtrancl, rule 2, rule 3)
  moreover have "q_inv (sq ?s3)" "q_items (sq ?s3) = []"
    by (simp_all add: full_queue_def q_inv_def q_wf_def q_items_def)
  ultimately show ?thesis
    by (intro exI [of _ ?s3]) simp
qed

end
