(* ===== verification/LspEgroup.thy ===== *)
theory LspEgroup imports LspMutex begin

section \<open>Event groups (arch/posix/lsp_egroup.c)\<close>

text \<open>
  The state of an event group is its 32 event bits; the pthread objects are left out. While a
  thread waits on the condition variable the mutex is free and other threads may change the bits,
  so a wait is described by the list of its wake-ups: the clock read at the head of the iteration
  (\<open>w_now\<close>, used by the timed loops), the return code of the wait, and what the others did to the
  bits meanwhile. The result \<open>None\<close> means that the call is still waiting after these wake-ups.
\<close>

unbundle bit_operations_syntax

record egroup =
  event_bits :: u32

record wake =
  w_now :: u32
  w_rc :: int
  w_bits :: "u32 \<Rightarrow> u32"

subsection \<open>Creation and destruction\<close>

text \<open>\<open>lsp_egroup_init\<close> never assigns its result: the caller reads \<open>rc0\<close>, also after a failure.\<close>

definition lsp_egroup_init :: "int \<Rightarrow> int \<Rightarrow> int \<Rightarrow> egroup \<Rightarrow> int \<times> egroup" where
  "lsp_egroup_init rc0 setclock cond_init eg =
     (if setclock \<noteq> 0 then (rc0, eg)
      else if cond_init \<noteq> 0 then (rc0, eg)
      else (rc0, eg\<lparr>event_bits := 0\<rparr>))"

definition lsp_egroup_create :: "bool \<Rightarrow> int \<Rightarrow> int \<Rightarrow> egroup option" where
  "lsp_egroup_create malloc_ok setclock cond_init =
     (if \<not> malloc_ok then None
      else if setclock \<noteq> 0 then None
      else if cond_init \<noteq> 0 then None
      else Some \<lparr>event_bits = 0\<rparr>)"

definition lsp_egroup_destroy :: "egroup \<Rightarrow> egroup option" where
  "lsp_egroup_destroy eg = None"

subsection \<open>Waiting\<close>

definition egroup_wait_internal ::
  "timespec option \<Rightarrow> int \<Rightarrow> (timespec \<Rightarrow> int) \<Rightarrow> u32 \<Rightarrow> int" where
  "egroup_wait_internal clk wait_rc timedwait timeout =
     (if timeout \<noteq> LSP_TIMEOUT_MAX
      then (case clk of None \<Rightarrow> wait_rc | Some ts \<Rightarrow> timedwait (cond_deadline ts timeout))
      else wait_rc)"

text \<open>The condition of the four loops: all the bits, or one of them.\<close>

definition bits_ready :: "u32 \<Rightarrow> bool \<Rightarrow> u32 \<Rightarrow> bool" where
  "bits_ready bits waitAll b = (if waitAll then b AND bits = bits else b AND bits \<noteq> 0)"

text \<open>The loops without a timeout test first and wait then.\<close>

fun wait_forever :: "(u32 \<Rightarrow> bool) \<Rightarrow> wake list \<Rightarrow> u32 \<Rightarrow> u32 option" where
  "wait_forever ready [] b = (if ready b then Some b else None)"
| "wait_forever ready (w # ws) b =
     (if ready b then Some b
      else (let b = w_bits w b in
            if w_rc w \<noteq> 0 then Some b else wait_forever ready ws b))"

text \<open>The loops with a timeout wait first and test then.\<close>

fun wait_until :: "(u32 \<Rightarrow> bool) \<Rightarrow> u32 \<Rightarrow> u32 \<Rightarrow> wake list \<Rightarrow> u32 \<Rightarrow> u32 option" where
  "wait_until ready max_time remaining [] b = (if remaining > 0 then None else Some b)"
| "wait_until ready max_time remaining (w # ws) b =
     (if remaining > 0
      then (let remaining = (if max_time > w_now w then max_time - w_now w else 0);
                b = w_bits w b
            in if w_rc w \<noteq> 0 \<and> w_rc w \<noteq> ETIMEDOUT then Some b
               else if ready b then Some b
               else wait_until ready max_time remaining ws b)
      else Some b)"

text \<open>\<open>start\<close> is the clock at the call, \<open>ebits0\<close> the unset variable returned where the lock fails.\<close>

definition lsp_egroup_wait ::
  "int \<Rightarrow> u32 \<Rightarrow> u32 \<Rightarrow> wake list \<Rightarrow> u32 \<Rightarrow> bool \<Rightarrow> bool \<Rightarrow> u32 \<Rightarrow> egroup \<Rightarrow> (u32 \<times> egroup) option" where
  "lsp_egroup_wait lock_rc start ebits0 wakes bits clearOnExit waitAll timeout eg =
     (let max_time = start + timeout in
      if lock_rc \<noteq> LSP_ERR_NONE then Some (ebits0, eg)
      else map_option
        (\<lambda>ebits. (ebits, eg\<lparr>event_bits := if clearOnExit then 0 else ebits AND NOT bits\<rparr>))
        (if timeout = LSP_TIMEOUT_MAX
         then wait_forever (bits_ready bits waitAll) wakes (event_bits eg)
         else if timeout > 0
         then wait_until (bits_ready bits waitAll) max_time timeout wakes (event_bits eg)
         else Some (event_bits eg)))"

definition lsp_egroup_set :: "int \<Rightarrow> u32 \<Rightarrow> egroup \<Rightarrow> u32 \<times> egroup" where
  "lsp_egroup_set lock_rc bits eg =
     (if lock_rc \<noteq> LSP_ERR_NONE then (event_bits eg, eg)
      else (let eg = eg\<lparr>event_bits := event_bits eg OR bits\<rparr> in (event_bits eg, eg)))"

subsection \<open>The loops\<close>

text \<open>The bits the waiter can see: at the start and after every wake-up.\<close>

fun bit_history :: "wake list \<Rightarrow> u32 \<Rightarrow> u32 list" where
  "bit_history [] b = [b]"
| "bit_history (w # ws) b = b # bit_history ws (w_bits w b)"

lemma bit_history_Cons: "bit_history ws b = b # tl (bit_history ws b)"
  by (cases ws) simp_all

lemma wait_forever_find:
  "\<forall>w\<in>set ws. w_rc w = 0 \<Longrightarrow> wait_forever ready ws b = find ready (bit_history ws b)"
  by (induction ready ws b rule: wait_forever.induct) (simp_all add: Let_def)

lemma wait_until_find:
  "\<forall>w\<in>set ws. w_rc w = 0 \<or> w_rc w = ETIMEDOUT \<Longrightarrow> remaining > 0 \<Longrightarrow>
   wait_until ready max_time remaining ws b =
     map_option snd (find (\<lambda>(w, b). ready b \<or> max_time \<le> w_now w) (zip ws (tl (bit_history ws b))))"
proof (induction ready max_time remaining ws b rule: wait_until.induct)
  case (2 ready max_time remaining w ws b)
  let ?b = "w_bits w b"
  have h: "tl (bit_history (w # ws) b) = ?b # tl (bit_history ws ?b)"
    using bit_history_Cons [of ws ?b] by simp
  show ?case
  proof (cases "max_time > w_now w")
    case True
    then have "max_time - w_now w > 0"
      by (simp add: word_gt_0)
    with True show ?thesis
      using "2.IH" "2.prems" unfolding h by (auto simp: Let_def)
  next
    case False
    then show ?thesis
      using "2.prems" unfolding h by (cases ws) (auto simp: Let_def)
  qed
qed simp

definition clear_bits :: "bool \<Rightarrow> u32 \<Rightarrow> u32 \<Rightarrow> u32" where
  "clear_bits clearOnExit bits ebits = (if clearOnExit then 0 else ebits AND NOT bits)"

lemma bits_ready_or: "waitAll \<or> bits \<noteq> 0 \<Longrightarrow> bits_ready bits waitAll (b OR bits)"
  by (auto simp: bits_ready_def bit_eq_iff bit_and_iff bit_or_iff)

subsection \<open>Properties\<close>

text \<open>
  Waiting without a timeout, as long as no wait fails: the call returns at the first moment at
  which the awaited bits are there (before waiting at all, or after some wake-up), with the bits of
  that moment, and only then; on return all bits are cleared with \<open>clearOnExit\<close>, and just the
  awaited ones without it.
\<close>

theorem egroup_wait_forever:
  assumes "\<forall>w\<in>set wakes. w_rc w = 0"
  shows "lsp_egroup_wait LSP_ERR_NONE start ebits0 wakes bits clearOnExit waitAll LSP_TIMEOUT_MAX eg =
    map_option (\<lambda>ebits. (ebits, \<lparr>event_bits = clear_bits clearOnExit bits ebits\<rparr>))
      (find (bits_ready bits waitAll) (bit_history wakes (event_bits eg)))"
  using assms by (cases eg) (simp add: lsp_egroup_wait_def wait_forever_find clear_bits_def Let_def)

theorem egroup_wait_forever_witness:
  "lsp_egroup_wait LSP_ERR_NONE 0 0 [\<lparr>w_now = 0, w_rc = 0, w_bits = (\<lambda>b. b OR 1)\<rparr>,
      \<lparr>w_now = 0, w_rc = 0, w_bits = (\<lambda>b. b OR 2)\<rparr>] 3 False True LSP_TIMEOUT_MAX \<lparr>event_bits = 4\<rparr>
    = Some (7, \<lparr>event_bits = 4\<rparr>)"
  using egroup_wait_forever [of "[\<lparr>w_now = 0, w_rc = 0, w_bits = (\<lambda>b. b OR 1)\<rparr>,
      \<lparr>w_now = 0, w_rc = 0, w_bits = (\<lambda>b. b OR 2)\<rparr>]" 0 0 3 False True "\<lparr>event_bits = 4\<rparr>"]
  by (simp add: bits_ready_def clear_bits_def)

text \<open>
  Waiting with a timeout, as long as a wait only succeeds or times out: the call waits at least
  once, and returns after the first wake-up after which the awaited bits are there or whose clock
  reading has reached the deadline. It returns the bits of that moment, awaited or not.
\<close>

theorem egroup_wait_timed:
  assumes "\<forall>w\<in>set wakes. w_rc w = 0 \<or> w_rc w = ETIMEDOUT"
    and "0 < timeout" and "timeout \<noteq> LSP_TIMEOUT_MAX"
  shows "lsp_egroup_wait LSP_ERR_NONE start ebits0 wakes bits clearOnExit waitAll timeout eg =
    map_option (\<lambda>(w, ebits). (ebits, \<lparr>event_bits = clear_bits clearOnExit bits ebits\<rparr>))
      (find (\<lambda>(w, ebits). bits_ready bits waitAll ebits \<or> start + timeout \<le> w_now w)
         (zip wakes (tl (bit_history wakes (event_bits eg)))))"
  using assms
  by (cases eg) (simp add: lsp_egroup_wait_def wait_until_find clear_bits_def Let_def
      option.map_comp comp_def split_def)

theorem egroup_wait_timed_witness:
  "lsp_egroup_wait LSP_ERR_NONE 1000 0 [\<lparr>w_now = 1000, w_rc = 110, w_bits = (\<lambda>b. b)\<rparr>,
      \<lparr>w_now = 1050, w_rc = 110, w_bits = (\<lambda>b. b)\<rparr>] 3 False True 50 \<lparr>event_bits = 5\<rparr>
    = Some (5, \<lparr>event_bits = 4\<rparr>)"
  using egroup_wait_timed [of "[\<lparr>w_now = 1000, w_rc = 110, w_bits = (\<lambda>b. b)\<rparr>,
      \<lparr>w_now = 1050, w_rc = 110, w_bits = (\<lambda>b. b)\<rparr>]" 50 1000 0 3 False True "\<lparr>event_bits = 5\<rparr>"]
  by (simp add: bits_ready_def clear_bits_def lsp_consts)

text \<open>
  Setting bits and waiting for them: without a timeout the wait returns at once, with the union of
  the old and the new bits, and leaves the other bits as they were; with a timeout it blocks
  although the bits are there; with timeout 0 it returns and clears the bits without looking at
  them.
\<close>

theorem egroup_set_then_wait:
  fixes eg :: egroup
  assumes "waitAll \<or> bits \<noteq> 0" and "0 < timeout" and "timeout \<noteq> LSP_TIMEOUT_MAX"
  defines "eg' \<equiv> snd (lsp_egroup_set LSP_ERR_NONE bits eg)"
  shows "lsp_egroup_wait LSP_ERR_NONE start ebits0 [] bits False waitAll LSP_TIMEOUT_MAX eg'
      = Some (event_bits eg OR bits, \<lparr>event_bits = event_bits eg AND NOT bits\<rparr>)
    \<and> lsp_egroup_wait LSP_ERR_NONE start ebits0 [] bits False waitAll timeout eg' = None
    \<and> lsp_egroup_wait LSP_ERR_NONE start ebits0 [] bits' False waitAll 0 eg'
      = Some (event_bits eg OR bits, \<lparr>event_bits = (event_bits eg OR bits) AND NOT bits'\<rparr>)"
proof -
  have "(event_bits eg OR bits) AND NOT bits = event_bits eg AND NOT bits"
    by (rule bit_eqI) (auto simp: bit_and_iff bit_or_iff bit_not_iff)
  then show ?thesis
    using assms bits_ready_or [of waitAll bits "event_bits eg"]
    by (cases eg) (simp add: lsp_egroup_wait_def lsp_egroup_set_def Let_def, simp add: lsp_consts)
qed

theorem egroup_set_then_wait_witness:
  "lsp_egroup_wait LSP_ERR_NONE 0 0 [] 1 False True 100
     (snd (lsp_egroup_set LSP_ERR_NONE 1 \<lparr>event_bits = 0\<rparr>)) = None"
  using egroup_set_then_wait [of True 1 100 0 0 "\<lparr>event_bits = 0\<rparr>"] by (simp add: lsp_consts)

end
