(* ===== verification/LspMemory.thy ===== *)
theory LspMemory imports LspList LspTypes begin

section \<open>Allocation (arch/posix/lsp_memory.c)\<close>

text \<open>
  Without \<open>DEBUG\<close> the three functions pass their arguments to the C library. With it, every
  allocation is recorded in a \<open>struct block\<close> on an intrusive list and counted in \<open>allocBytes\<close>.
  The state is that list (its nodes are the head and the blocks, by the number the library gave
  them), the blocks' fields and the counter; what \<open>malloc\<close> and \<open>calloc\<close> return is an argument,
  \<open>None\<close> for NULL. A block just allocated is accessible and was not before.
\<close>

datatype mnode = MHead | MBlock nat

record 'p block =
  b_size :: size_t
  b_ptr :: "'p option"

record 'p memstate =
  mlinks :: "mnode lheap"
  blocks :: "nat \<Rightarrow> 'p block"
  allocBytes :: u32

text \<open>The two builds. \<open>b\<close> is what \<open>malloc(sizeof(struct block))\<close> returns, \<open>p\<close> what the allocation
  asked for returns.\<close>

definition lsp_malloc :: "(size_t \<Rightarrow> 'p option) \<Rightarrow> size_t \<Rightarrow> 'p option" where
  "lsp_malloc malloc len = malloc len"

definition lsp_calloc :: "(size_t \<Rightarrow> size_t \<Rightarrow> 'p option) \<Rightarrow> size_t \<Rightarrow> size_t \<Rightarrow> 'p option" where
  "lsp_calloc calloc nmemb sz = calloc nmemb sz"

definition track_block ::
  "nat option \<Rightarrow> 'p option \<Rightarrow> size_t \<Rightarrow> 'p memstate \<Rightarrow> ('p option \<times> 'p memstate) exec" where
  "track_block b p sz st =
     (case b of
        None \<Rightarrow> Fault NullDeref
      | Some i \<Rightarrow>
          (let h = (mlinks st)\<lparr>lvalid := (lvalid (mlinks st))(MBlock i := True)\<rparr>;
               st = st\<lparr>blocks := (blocks st)(i := \<lparr>b_size = sz, b_ptr = p\<rparr>)\<rparr>
           in xbind (lsp_list_add (Some (MBlock i)) (Some MHead) h) (\<lambda>h.
              Done (p, st\<lparr>mlinks := h, allocBytes := allocBytes st + ucast sz\<rparr>))))"

definition lsp_malloc_debug ::
  "nat option \<Rightarrow> 'p option \<Rightarrow> size_t \<Rightarrow> 'p memstate \<Rightarrow> ('p option \<times> 'p memstate) exec" where
  "lsp_malloc_debug b p len st = track_block b p len st"

definition lsp_calloc_debug ::
  "nat option \<Rightarrow> 'p option \<Rightarrow> size_t \<Rightarrow> size_t \<Rightarrow> 'p memstate \<Rightarrow> ('p option \<times> 'p memstate) exec" where
  "lsp_calloc_debug b p nmemb sz st = track_block b p (nmemb * sz) st"

text \<open>
  The loop of \<open>lsp_free\<close>. It has no \<open>break\<close> and does not unlink: where a block matches, the
  count goes down, the block is freed, and the loop goes on from the freed block's link.
\<close>

partial_function (option) free_loop ::
  "'p option \<Rightarrow> mnode \<Rightarrow> 'p memstate \<Rightarrow> 'p memstate exec option" where
  "free_loop ptr n st =
     (case n of
        MHead \<Rightarrow> Some (Fault TypeConfusion)
      | MBlock i \<Rightarrow>
          if lvalid (mlinks st) n
          then (let st = (if b_ptr (blocks st i) = ptr
                          then st\<lparr>allocBytes := allocBytes st - ucast (b_size (blocks st i)),
                                  mlinks := (mlinks st)\<lparr>lvalid := (lvalid (mlinks st))(n := False)\<rparr>\<rparr>
                          else st)
                in case rd_next (mlinks st) (Some n) of
                     Fault e \<Rightarrow> Some (Fault e)
                   | Hang \<Rightarrow> Some Hang
                   | Done None \<Rightarrow> Some (Fault NullDeref)
                   | Done (Some q) \<Rightarrow>
                       if q \<noteq> MHead then free_loop ptr q st else Some (Done st))
          else Some (Fault BadPtr))"

text \<open>\<open>cfree\<close> is the C library's \<open>free\<close>, called on the pointer at the end in both builds.\<close>

definition lsp_free :: "('p option \<Rightarrow> unit exec) \<Rightarrow> 'p option \<Rightarrow> unit exec" where
  "lsp_free cfree ptr = cfree ptr"

definition lsp_free_debug ::
  "('p option \<Rightarrow> unit exec) \<Rightarrow> 'p option \<Rightarrow> 'p memstate \<Rightarrow> 'p memstate exec" where
  "lsp_free_debug cfree ptr st =
     xbind (rd_next (mlinks st) (Some MHead)) (\<lambda>nx.
     xbind (rd_prev (mlinks st) (Some MHead)) (\<lambda>pv.
     xbind (if nx \<noteq> pv
            then (case nx of None \<Rightarrow> Fault NullDeref | Some q \<Rightarrow> of_loop (free_loop ptr q st))
            else Done st) (\<lambda>st.
     xbind (cfree ptr) (\<lambda>_. Done st))))"

subsection \<open>The invariant: the list holds the blocks, the counter their sizes\<close>

definition tracked :: "'p memstate \<Rightarrow> nat list \<Rightarrow> bool" where
  "tracked st is \<longleftrightarrow>
     ring (mlinks st) MHead (map MBlock is)
     \<and> allocBytes st = sum_list (map (\<lambda>i. ucast (b_size (blocks st i))) is)"

definition mem_init :: "'p memstate" where
  "mem_init =
     \<lparr>mlinks = \<lparr>lnext = (\<lambda>n. if n = MHead then Some MHead else None),
                lprev = (\<lambda>n. if n = MHead then Some MHead else None),
                lvalid = (\<lambda>n. n = MHead)\<rparr>,
      blocks = (\<lambda>_. \<lparr>b_size = 0, b_ptr = None\<rparr>), allocBytes = 0\<rparr>"

lemma tracked_init: "tracked mem_init []"
  by (simp add: tracked_def mem_init_def ring_def)

lemma track_block_tracked:
  assumes t: "tracked st is" and fresh: "\<not> lvalid (mlinks st) (MBlock i)"
  shows "\<exists>st'. track_block (Some i) p sz st = Done (p, st') \<and> tracked st' (i # is)
    \<and> blocks st' = (blocks st)(i := \<lparr>b_size = sz, b_ptr = p\<rparr>)
    \<and> allocBytes st' = allocBytes st + ucast sz"
proof -
  let ?h = "(mlinks st)\<lparr>lvalid := (lvalid (mlinks st))(MBlock i := True)\<rparr>"
  have r: "ring (mlinks st) MHead (map MBlock is)"
    using t by (simp add: tracked_def)
  then have new: "i \<notin> set is"
    using fresh by (auto simp: ring_def)
  have "ring ?h MHead (map MBlock is)"
    by (rule ring_more_valid [OF r])
  moreover have "lvalid ?h (MBlock i) \<and> MBlock i \<noteq> MHead" "MBlock i \<notin> set (map MBlock is)"
    using new by auto
  ultimately obtain h' where h': "lsp_list_add (Some (MBlock i)) (Some MHead) ?h = Done h'"
    "ring h' MHead (MBlock i # map MBlock is)"
    by (rule ring_store.add_then_search)
  have m: "map (\<lambda>j. ucast (b_size (if j = i then \<lparr>b_size = sz, b_ptr = p\<rparr> else blocks st j))) is
      = map (\<lambda>j. ucast (b_size (blocks st j)) :: u32) is"
    using new by (intro map_cong) auto
  show ?thesis
    using h' t m by (simp add: track_block_def Let_def tracked_def fun_upd_def cong: map_cong)
qed

lemma free_loop_ring:
  assumes "ring (mlinks st) MHead (xs @ map MBlock (i # is))"
  shows "free_loop ptr (MBlock i) st =
    Some (if \<exists>j\<in>set (i # is). b_ptr (blocks st j) = ptr then Fault BadPtr else Done st)"
  using assms
proof (induction "is" arbitrary: i xs)
  case Nil
  then show ?case
    using ring_cut(1) [of "mlinks st" MHead "xs @ [MBlock i]" "[]"]
    by (subst free_loop.simps) (auto simp: link_defs Let_def ring_validD)
next
  case (Cons k "is")
  have "lnext (mlinks st) (MBlock i) = Some (MBlock k)"
    using Cons.prems ring_cut(1) [of "mlinks st" MHead "xs @ [MBlock i]" "map MBlock (k # is)"]
    by simp
  moreover have "lvalid (mlinks st) (MBlock i)"
    using Cons.prems by (auto simp: ring_def)
  moreover have "free_loop ptr (MBlock k) st =
      Some (if \<exists>j\<in>set (k # is). b_ptr (blocks st j) = ptr then Fault BadPtr else Done st)"
    using Cons.prems by (intro Cons.IH [of "xs @ [MBlock i]"]) simp
  ultimately show ?case
    by (subst free_loop.simps) (auto simp: link_defs Let_def)
qed

lemma lsp_free_debug_tracked:
  assumes "tracked st is"
  shows "lsp_free_debug cfree ptr st =
    (if 2 \<le> length is \<and> (\<exists>i\<in>set is. b_ptr (blocks st i) = ptr) then Fault BadPtr
     else xbind (cfree ptr) (\<lambda>_. Done st))"
proof -
  have r: "ring (mlinks st) MHead (map MBlock is)"
    using assms by (simp add: tracked_def)
  show ?thesis
  proof (cases "is")
    case (Cons i js)
    then show ?thesis
      using r ring_first [OF r] ring_ends_eq [OF r] free_loop_ring [of st "[]" i js ptr]
      by (auto simp: lsp_free_debug_def link_defs ring_validD Suc_le_eq)
  qed (use r ring_ends_eq [OF r] in \<open>simp add: lsp_free_debug_def link_defs ring_validD\<close>)
qed

subsection \<open>Properties\<close>

text \<open>
  The accounting of the \<open>DEBUG\<close> build: a tracked allocation puts its block in front of the list,
  records its size and pointer, and the counter stays the sum (in 32 bits) of the sizes of the
  blocks on the list; a failed allocation of the record itself is a NULL dereference.
\<close>

theorem malloc_accounting:
  assumes "tracked st is" and "\<not> lvalid (mlinks st) (MBlock i)"
  shows "\<exists>st'. lsp_malloc_debug (Some i) p len st = Done (p, st') \<and> tracked st' (i # is)
    \<and> blocks st' i = \<lparr>b_size = len, b_ptr = p\<rparr> \<and> allocBytes st' = allocBytes st + ucast len
    \<and> lsp_malloc_debug None p len st = Fault NullDeref"
  using track_block_tracked [OF assms, of p len]
  by (auto simp: lsp_malloc_debug_def track_block_def)

theorem malloc_accounting_witness:
  "\<exists>st'. lsp_malloc_debug (Some 4) (Some ()) 100 mem_init = Done (Some (), st') \<and> tracked st' [4]
    \<and> allocBytes st' = 100"
  using malloc_accounting [OF tracked_init, of 4 "Some ()" 100] by (auto simp: mem_init_def)

text \<open>
  Freeing in the \<open>DEBUG\<close> build: with two or more tracked blocks, freeing a tracked pointer reads
  a link of the record it has just freed; otherwise the pointer goes to the C library's \<open>free\<close> and
  the list and the counter are untouched, so no call that
  returns ever lowers \<open>allocBytes\<close> (with one tracked block the loop does not run at all).
\<close>

theorem free_debug_outcome:
  assumes "tracked st is"
  shows "lsp_free_debug cfree ptr st =
    (if 2 \<le> length is \<and> (\<exists>i\<in>set is. b_ptr (blocks st i) = ptr) then Fault BadPtr
     else xbind (cfree ptr) (\<lambda>_. Done st))"
  by (rule lsp_free_debug_tracked [OF assms])

theorem free_debug_outcome_witness:
  "\<exists>st1 st2. lsp_malloc_debug (Some 4) (Some True) 100 mem_init = Done (Some True, st1)
    \<and> lsp_malloc_debug (Some 5) (Some False) 60 st1 = Done (Some False, st2)
    \<and> lsp_free_debug (\<lambda>_. Done ()) (Some True) st1 = Done st1
    \<and> lsp_free_debug (\<lambda>_. Done ()) (Some True) st2 = Fault BadPtr"
proof -
  obtain st1 where 1: "lsp_malloc_debug (Some 4) (Some True) 100 mem_init = Done (Some True, st1)"
    "tracked st1 [4]" "blocks st1 = (blocks mem_init)(4 := \<lparr>b_size = 100, b_ptr = Some True\<rparr>)"
    and v: "\<not> lvalid (mlinks st1) (MBlock 5)"
    by (auto simp: lsp_malloc_debug_def track_block_def mem_init_def lsp_list_add_def link_defs
        lsp_list_add_between_def tracked_def ring_def)
  obtain st2 where 2: "lsp_malloc_debug (Some 5) (Some False) 60 st1 = Done (Some False, st2)"
    "tracked st2 [5, 4]" "blocks st2 = (blocks st1)(5 := \<lparr>b_size = 60, b_ptr = Some False\<rparr>)"
    using track_block_tracked [OF 1(2) v, of "Some False" 60] by (auto simp: lsp_malloc_debug_def)
  show ?thesis
    using 1 2 free_debug_outcome [OF 1(2), of "\<lambda>_. Done ()" "Some True"]
      free_debug_outcome [OF 2(2), of "\<lambda>_. Done ()" "Some True"]
    by (intro exI [of _ st1] exI [of _ st2]) simp
qed

end
