(* ===== verification/LspInterface.thy ===== *)
theory LspInterface imports LspList LspQueue begin

section \<open>Interfaces and the interface list (lsp_interface.c, lsp_iflist.c)\<close>

text \<open>
  \<open>struct lsp_interface_s\<close> without its list node (the node is part of the list's memory). The table of
  driver functions holds function pointers, which the library stores and never calls. The interface list
  is an intrusive list with the head \<open>IfHead\<close>; an interface is named by the number of its allocation.
  \<open>lsp_interface_register\<close> and \<open>lsp_interface_qwrite\<close> have empty bodies: the caller gets whatever was
  in the place of their result, \<open>rc0\<close>.
\<close>

record lsp_interface_ops =
  op_open :: "size_t option"
  op_close :: "size_t option"
  op_tx :: "size_t option"

record interface_stats =
  tx_count :: u32
  rx_count :: u32
  tx_bytes :: u32
  rx_bytes :: u32
  dropped :: u32
  tx_error :: u32
  rx_error :: u32

record lsp_interface =
  if_index :: int
  ifname :: string
  dev_addr :: u16
  if_flags :: int
  if_mtu :: u32
  if_ops :: "lsp_interface_ops option"
  if_stats :: interface_stats
  min_header_len :: int
  tx_queue :: "lsp_queue option"
  interface_data :: "size_t option"

text \<open>The size of \<open>ifname\<close> and what \<open>calloc\<close> leaves in the struct.\<close>

definition IFNAME_SIZE :: nat where "IFNAME_SIZE = 32"

definition interface_zero :: lsp_interface where
  "interface_zero =
     \<lparr>if_index = 0, ifname = [], dev_addr = 0, if_flags = 0, if_mtu = 0, if_ops = None,
      if_stats = \<lparr>tx_count = 0, rx_count = 0, tx_bytes = 0, rx_bytes = 0, dropped = 0,
                  tx_error = 0, rx_error = 0\<rparr>,
      min_header_len = 0, tx_queue = None, interface_data = None\<rparr>"

subsection \<open>Allocation\<close>

text \<open>
  The function returns a pointer: an interface, or the \<open>int\<close> \<open>rc\<close> converted to a pointer. The call
  of \<open>lsp_queue_create\<close> leaves out the item size, so the callee finds an arbitrary one, \<open>isz0\<close>.
  \<open>name\<close> is the formatted name, of which \<open>vsnprintf\<close> keeps 31 characters.
\<close>

datatype iface_ret = IfacePtr lsp_interface | IfaceInt int

definition lsp_interface_alloc ::
  "bool \<Rightarrow> size_t \<Rightarrow> (size_t \<Rightarrow> bool) \<Rightarrow> size_t \<Rightarrow> int \<Rightarrow> string \<Rightarrow> iface_ret exec" where
  "lsp_interface_alloc calloc_ok hdr malloc isz0 tx_queuelen name =
     (let rc = - LSP_ERR_NOMEM in
      if \<not> calloc_ok then Done (IfaceInt rc)
      else xbind (lsp_queue_create hdr malloc 0 0 0 tx_queuelen isz0) (\<lambda>txq.
        case txq of
          None \<Rightarrow> Done (IfaceInt rc)
        | Some q \<Rightarrow> Done (IfacePtr
            (interface_zero\<lparr>tx_queue := Some q, ifname := take (IFNAME_SIZE - 1) name\<rparr>))))"

definition lsp_interface_getdata :: "lsp_interface \<Rightarrow> size_t option" where
  "lsp_interface_getdata iface = interface_data iface"

definition lsp_interface_register :: "int \<Rightarrow> lsp_interface \<Rightarrow> int" where
  "lsp_interface_register rc0 iface = rc0"

definition lsp_interface_qwrite :: "int \<Rightarrow> lsp_interface \<Rightarrow> u8 list \<Rightarrow> int \<Rightarrow> int" where
  "lsp_interface_qwrite rc0 iface bytes flags = rc0"

subsection \<open>The interface list\<close>

datatype ifnode = IfHead | IfNode nat

record ifstate =
  if_links :: "ifnode lheap"
  ifaces :: "nat \<Rightarrow> lsp_interface"

definition lsp_iflist_add :: "nat \<Rightarrow> ifstate \<Rightarrow> (int \<times> ifstate) exec" where
  "lsp_iflist_add i st =
     xbind (lsp_list_add (Some (IfNode i)) (Some IfHead) (if_links st)) (\<lambda>h.
     Done (LSP_ERR_NONE, st\<lparr>if_links := h\<rparr>))"

text \<open>\<open>strncasecmp(a, b, n) == 0\<close> in the C locale, on strings without their terminator.\<close>

definition to_lower :: "char \<Rightarrow> char" where
  "to_lower c = (let k = of_char c :: nat in if 65 \<le> k \<and> k \<le> 90 then char_of (k + 32) else c)"

definition strncasecmp_eq :: "string \<Rightarrow> string \<Rightarrow> nat \<Rightarrow> bool" where
  "strncasecmp_eq a b n \<longleftrightarrow> map to_lower (take n a) = map to_lower (take n b)"

fun iface_of :: "ifnode option \<Rightarrow> nat option" where
  "iface_of (Some (IfNode i)) = Some i"
| "iface_of _ = None"

fun on_iface :: "(nat \<Rightarrow> bool) \<Rightarrow> ifnode \<Rightarrow> bool" where
  "on_iface P (IfNode i) = P i"
| "on_iface P IfHead = False"

definition lsp_iflist_iface_byname :: "string \<Rightarrow> ifstate \<Rightarrow> nat option exec" where
  "lsp_iflist_iface_byname name st =
     xbind (lsp_list_for (on_iface (\<lambda>i. strncasecmp_eq name (ifname (ifaces st i)) IFNAME_SIZE))
              IfHead (if_links st))
       (\<lambda>r. Done (iface_of r))"

definition lsp_iflist_iface_byaddr :: "u16 \<Rightarrow> ifstate \<Rightarrow> nat option exec" where
  "lsp_iflist_iface_byaddr addr st =
     xbind (lsp_list_for (on_iface (\<lambda>i. addr = dev_addr (ifaces st i))) IfHead (if_links st))
       (\<lambda>r. Done (iface_of r))"

subsection \<open>The list of registered interfaces\<close>

definition registered :: "ifstate \<Rightarrow> nat list \<Rightarrow> bool" where
  "registered st is \<longleftrightarrow> ring (if_links st) IfHead (map IfNode is)"

lemma find_on_iface: "iface_of (find (on_iface P) (map IfNode is)) = find P is"
  by (induction "is") auto

lemma search_registered:
  assumes "registered st is"
  shows "xbind (lsp_list_for (on_iface P) IfHead (if_links st)) (\<lambda>r. Done (iface_of r))
    = Done (if length is \<le> 1 then None else find P is)"
  using ring_store.search_holds [of "if_links st" IfHead "map IfNode is" "on_iface P"] assms
  by (simp add: registered_def find_on_iface)

lemma iflist_add_registered:
  assumes "registered st is" "i \<notin> set is" "lvalid (if_links st) (IfNode i)"
  shows "\<exists>st'. lsp_iflist_add i st = Done (LSP_ERR_NONE, st') \<and> registered st' (i # is)
    \<and> ifaces st' = ifaces st"
proof -
  obtain h' where "lsp_list_add (Some (IfNode i)) (Some IfHead) (if_links st) = Done h'"
    "ring h' IfHead (IfNode i # map IfNode is)"
    by (rule ring_store.add_then_search [of "if_links st" IfHead "map IfNode is" "IfNode i"])
       (use assms in \<open>auto simp: registered_def\<close>)
  then show ?thesis
    by (simp add: lsp_iflist_add_def registered_def)
qed

lemma byname_registered:
  "registered st is \<Longrightarrow> lsp_iflist_iface_byname name st =
     Done (if length is \<le> 1 then None
           else find (\<lambda>i. strncasecmp_eq name (ifname (ifaces st i)) IFNAME_SIZE) is)"
  unfolding lsp_iflist_iface_byname_def by (rule search_registered)

lemma byaddr_registered:
  "registered st is \<Longrightarrow> lsp_iflist_iface_byaddr addr st =
     Done (if length is \<le> 1 then None else find (\<lambda>i. addr = dev_addr (ifaces st i)) is)"
  unfolding lsp_iflist_iface_byaddr_def by (rule search_registered)

subsection \<open>Properties\<close>

definition iflist_example :: ifstate where
  "iflist_example =
     \<lparr>if_links = \<lparr>lnext = (\<lambda>n. if n = IfHead then Some IfHead else None),
                  lprev = (\<lambda>n. if n = IfHead then Some IfHead else None), lvalid = (\<lambda>_. True)\<rparr>,
      ifaces = (\<lambda>i. interface_zero\<lparr>ifname := (if i = 0 then ''eth0'' else ''can0''),
                                    dev_addr := of_nat i\<rparr>)\<rparr>"

lemma iflist_example_registered: "registered iflist_example []"
  by (simp add: registered_def iflist_example_def ring_def)

text \<open>
  Looking up interfaces: registering puts an interface in front of the list; a lookup by name
  (ignoring case, over 32 characters) or by address finds the most recently registered match when
  two or more interfaces are registered, and finds nothing, whatever is asked, when there is only
  one.
\<close>

theorem iflist_add_then_lookup:
  assumes "registered st is" and "i \<notin> set is" and "lvalid (if_links st) (IfNode i)"
  shows "\<exists>st'. lsp_iflist_add i st = Done (LSP_ERR_NONE, st') \<and> registered st' (i # is)
    \<and> lsp_iflist_iface_byname (ifname (ifaces st i)) st' = Done (if is = [] then None else Some i)
    \<and> lsp_iflist_iface_byaddr (dev_addr (ifaces st i)) st' = Done (if is = [] then None else Some i)"
proof -
  from iflist_add_registered [OF assms] obtain st' where
    "lsp_iflist_add i st = Done (LSP_ERR_NONE, st')" "registered st' (i # is)" "ifaces st' = ifaces st"
    by blast
  then show ?thesis
    using byname_registered [of st' "i # is"] byaddr_registered [of st' "i # is"]
    by (auto simp: strncasecmp_eq_def)
qed

theorem iflist_add_then_lookup_witness:
  "\<exists>st1 st2. lsp_iflist_add 0 iflist_example = Done (LSP_ERR_NONE, st1)
     \<and> lsp_iflist_iface_byname ''eth0'' st1 = Done None
     \<and> lsp_iflist_add 1 st1 = Done (LSP_ERR_NONE, st2)
     \<and> lsp_iflist_iface_byname ''can0'' st2 = Done (Some 1)"
proof -
  from iflist_add_then_lookup [OF iflist_example_registered, of 0] obtain st1 where
    1: "lsp_iflist_add 0 iflist_example = Done (LSP_ERR_NONE, st1)" "registered st1 [0]"
      "lsp_iflist_iface_byname ''eth0'' st1 = Done None"
    by (auto simp: iflist_example_def)
  from 1(1) have v: "lvalid (if_links st1) = (\<lambda>_. True)" "ifaces st1 = ifaces iflist_example"
    by (auto simp: lsp_iflist_add_def iflist_example_def lsp_list_add_def lsp_list_add_between_def
        link_defs)
  from iflist_add_then_lookup [OF 1(2), of 1] obtain st2 where
    "lsp_iflist_add 1 st1 = Done (LSP_ERR_NONE, st2)"
    "lsp_iflist_iface_byname ''can0'' st2 = Done (Some 1)"
    using v by (auto simp: iflist_example_def)
  with 1 show ?thesis by blast
qed

text \<open>
  A failed allocation of an interface never returns NULL: the error code is returned as a
  pointer. And a successful one never sets \<open>interface_data\<close>, so \<open>lsp_interface_getdata\<close> of a fresh
  interface is NULL whatever private length was asked for.
\<close>

theorem interface_alloc_results:
  "lsp_interface_alloc False hdr malloc isz0 len name = Done (IfaceInt (- 2))
   \<and> lsp_interface_alloc True hdr (\<lambda>_. False) isz0 len name = Done (IfaceInt (- 2))
   \<and> (case lsp_interface_alloc calloc_ok hdr malloc isz0 len name of
        Done (IfacePtr iface) \<Rightarrow> lsp_interface_getdata iface = None \<and> length (ifname iface) \<le> 31
      | Done (IfaceInt n) \<Rightarrow> n = - 2
      | _ \<Rightarrow> True)"
proof (intro conjI)
  show "case lsp_interface_alloc calloc_ok hdr malloc isz0 len name of
      Done (IfacePtr iface) \<Rightarrow> lsp_interface_getdata iface = None \<and> length (ifname iface) \<le> 31
    | Done (IfaceInt n) \<Rightarrow> n = - 2 | _ \<Rightarrow> True"
    by (cases "lsp_queue_create hdr malloc 0 0 0 len isz0")
       (auto simp: lsp_interface_alloc_def lsp_interface_getdata_def interface_zero_def
          IFNAME_SIZE_def lsp_consts split: option.splits)
qed (simp_all add: lsp_interface_alloc_def lsp_queue_create_def lsp_consts)

end
