(* ===== verification/LspBuffer.thy ===== *)
theory LspBuffer imports LspInterface begin

section \<open>Packet buffers (lsp_buffer.c)\<close>

text \<open>
  \<open>struct lsp_buffer_s\<close> on an LP64 machine: 80 bytes, pointers and sizes as 64-bit words. The list
  node of the struct is not used by the operations here. \<open>lsp_buffer_alloc\<close> takes the allocator
  as a parameter; the operations move pointers and never touch a byte of the packet, so the bytes
  are in a separate memory that the caller writes. The abstraction \<open>buf_view\<close> reads a buffer as
  three byte lists: before, in and after the packet. An operation moves the two borders.
\<close>

record lsp_buffer =
  b_iface :: "nat option"
  headroom :: size_t
  tailroom :: size_t
  b_data :: size_t
  b_tail :: size_t
  b_end :: size_t
  b_packet :: size_t
  b_head :: size_t

definition SIZEOF_lsp_buffer :: size_t where "SIZEOF_lsp_buffer = 80"

subsection \<open>The operations\<close>

definition lsp_buffer_alloc ::
  "(nat \<Rightarrow> lsp_interface) \<Rightarrow> (size_t \<Rightarrow> size_t option) \<Rightarrow> nat option \<Rightarrow> size_t \<Rightarrow>
     lsp_buffer option exec" where
  "lsp_buffer_alloc ifs malloc iface len =
     (let hroom = int_to_size (case iface of Some i \<Rightarrow> min_header_len (ifs i)
                                           | None \<Rightarrow> LSP_DEFAULT_BUFFER_HEADER_LEN);
          sz = ALIGNED_SIZE SIZEOF_lsp_buffer + len + hroom in
      case malloc sz of
        None \<Rightarrow> Done None
      | Some buff \<Rightarrow>
          xbind (xguard (SIZEOF_lsp_buffer \<le> sz) OutOfBounds) (\<lambda>_.
          let head = buff + ALIGNED_SIZE SIZEOF_lsp_buffer;
              data = head + hroom in
          Done (Some \<lparr>b_iface = iface, headroom = hroom, tailroom = len, b_data = data,
                      b_tail = data, b_end = head + len + hroom, b_packet = data,
                      b_head = head\<rparr>)))"

definition lsp_buffer_put :: "lsp_buffer \<Rightarrow> size_t \<Rightarrow> size_t option \<times> lsp_buffer" where
  "lsp_buffer_put b len =
     (if tailroom b < len then (None, b)
      else (Some (b_tail b), b\<lparr>tailroom := tailroom b - len, b_tail := b_tail b + len\<rparr>))"

definition lsp_buffer_push :: "lsp_buffer \<Rightarrow> size_t \<Rightarrow> size_t option \<times> lsp_buffer" where
  "lsp_buffer_push b len =
     (if headroom b < len then (None, b)
      else (let b = b\<lparr>headroom := headroom b - len, b_data := b_data b - len\<rparr>
            in (Some (b_data b), b)))"

definition lsp_buffer_pull :: "lsp_buffer \<Rightarrow> size_t \<Rightarrow> size_t \<times> lsp_buffer" where
  "lsp_buffer_pull b len0 =
     (let len = (if b_tail b - b_data b < len0 then b_tail b - b_data b else len0);
          data = b_data b;
          b = b\<lparr>b_data := b_data b + len, headroom := headroom b + len\<rparr>;
          b = (if b_tail b < b_data b
               then b\<lparr>tailroom := tailroom b - (b_data b - b_tail b), b_tail := b_data b\<rparr>
               else b)
      in (data, b))"

definition lsp_buffer_length :: "lsp_buffer \<Rightarrow> size_t" where
  "lsp_buffer_length b = b_tail b - b_data b"

definition lsp_buffer_free :: "('p \<Rightarrow> 's \<Rightarrow> 's exec) \<Rightarrow> 'p \<Rightarrow> 's \<Rightarrow> (int \<times> 's) exec" where
  "lsp_buffer_free lsp_free buff st =
     xbind (lsp_free buff st) (\<lambda>st'. Done (LSP_ERR_NONE, st'))"

subsection \<open>The invariant\<close>

definition buf_wf :: "lsp_buffer \<Rightarrow> bool" where
  "buf_wf b \<longleftrightarrow> unat (b_head b) + unat (headroom b) = unat (b_data b)
     \<and> unat (b_data b) \<le> unat (b_tail b)
     \<and> unat (b_tail b) + unat (tailroom b) = unat (b_end b)"

text \<open>What no operation changes: the block's limits and the pointer to the packet header.\<close>

definition same_block :: "lsp_buffer \<Rightarrow> lsp_buffer \<Rightarrow> bool" where
  "same_block b b' \<longleftrightarrow> b_head b' = b_head b \<and> b_end b' = b_end b \<and> b_packet b' = b_packet b
     \<and> b_iface b' = b_iface b"

lemma buf_wfD:
  assumes "buf_wf b"
  shows "unat (b_head b) \<le> unat (b_data b)" "unat (b_data b) \<le> unat (b_tail b)"
    "unat (b_tail b) \<le> unat (b_end b)" "unat (b_end b) < 2 ^ 64"
    "unat (headroom b) = unat (b_data b) - unat (b_head b)"
    "unat (tailroom b) = unat (b_end b) - unat (b_tail b)"
  using assms unat_lt_64 [of "b_end b"] by (auto simp: buf_wf_def)

lemma buffer_length_unat:
  "buf_wf b \<Longrightarrow> unat (lsp_buffer_length b) = unat (b_tail b) - unat (b_data b)"
  by (simp add: lsp_buffer_length_def unat_minus_le buf_wfD)

lemma buffer_put_eq:
  assumes "buf_wf b"
  shows "lsp_buffer_put b len =
     (if unat (tailroom b) < unat len then (None, b)
      else (Some (b_tail b), b\<lparr>tailroom := tailroom b - len, b_tail := b_tail b + len\<rparr>))"
    and "unat len \<le> unat (tailroom b) \<Longrightarrow> unat (b_tail b + len) = unat (b_tail b) + unat len"
    and "unat len \<le> unat (tailroom b) \<Longrightarrow> unat (tailroom b - len) = unat (tailroom b) - unat len"
proof -
  show "lsp_buffer_put b len =
     (if unat (tailroom b) < unat len then (None, b)
      else (Some (b_tail b), b\<lparr>tailroom := tailroom b - len, b_tail := b_tail b + len\<rparr>))"
    by (simp add: lsp_buffer_put_def word_less_nat_alt)
  show "unat len \<le> unat (tailroom b) \<Longrightarrow> unat (b_tail b + len) = unat (b_tail b) + unat len"
    using buf_wfD [OF assms] by (intro unat_plus_nowrap) auto
  show "unat len \<le> unat (tailroom b) \<Longrightarrow> unat (tailroom b - len) = unat (tailroom b) - unat len"
    by (rule unat_minus_le)
qed

lemma buffer_push_eq:
  assumes "buf_wf b"
  shows "lsp_buffer_push b len =
     (if unat (headroom b) < unat len then (None, b)
      else (Some (b_data b - len), b\<lparr>headroom := headroom b - len, b_data := b_data b - len\<rparr>))"
    and "unat len \<le> unat (headroom b) \<Longrightarrow> unat (b_data b - len) = unat (b_data b) - unat len"
    and "unat len \<le> unat (headroom b) \<Longrightarrow> unat (headroom b - len) = unat (headroom b) - unat len"
proof -
  show "lsp_buffer_push b len =
     (if unat (headroom b) < unat len then (None, b)
      else (Some (b_data b - len), b\<lparr>headroom := headroom b - len, b_data := b_data b - len\<rparr>))"
    by (simp add: lsp_buffer_push_def word_less_nat_alt)
  show "unat len \<le> unat (headroom b) \<Longrightarrow> unat (b_data b - len) = unat (b_data b) - unat len"
    using buf_wfD [OF assms] by (intro unat_minus_le) linarith
  show "unat len \<le> unat (headroom b) \<Longrightarrow> unat (headroom b - len) = unat (headroom b) - unat len"
    by (rule unat_minus_le)
qed

text \<open>The length \<open>lsp_buffer_pull\<close> really removes; its second branch is never taken.\<close>

definition pull_len :: "lsp_buffer \<Rightarrow> size_t \<Rightarrow> size_t" where
  "pull_len b len = (if lsp_buffer_length b < len then lsp_buffer_length b else len)"

lemma unat_pull_len:
  "buf_wf b \<Longrightarrow> unat (pull_len b len) = min (unat len) (unat (b_tail b) - unat (b_data b))"
  by (auto simp: pull_len_def word_less_nat_alt buffer_length_unat)

lemma buffer_pull_eq:
  assumes "buf_wf b"
  shows "lsp_buffer_pull b len =
     (b_data b, b\<lparr>b_data := b_data b + pull_len b len, headroom := headroom b + pull_len b len\<rparr>)"
    and "unat (b_data b + pull_len b len) = unat (b_data b) + unat (pull_len b len)"
    and "unat (headroom b + pull_len b len) = unat (headroom b) + unat (pull_len b len)"
proof -
  note d = buf_wfD [OF assms] and p = unat_pull_len [OF assms, of len]
  show data: "unat (b_data b + pull_len b len) = unat (b_data b) + unat (pull_len b len)"
    using d p by (intro unat_plus_nowrap) auto
  show "unat (headroom b + pull_len b len) = unat (headroom b) + unat (pull_len b len)"
    using d p by (intro unat_plus_nowrap) auto
  have "\<not> b_tail b < b_data b + pull_len b len"
    using d p data by (simp add: word_less_nat_alt)
  then show "lsp_buffer_pull b len =
     (b_data b, b\<lparr>b_data := b_data b + pull_len b len, headroom := headroom b + pull_len b len\<rparr>)"
    by (auto simp: lsp_buffer_pull_def pull_len_def lsp_buffer_length_def Let_def)
qed

lemma buffer_ops_wf:
  assumes "buf_wf b"
  shows "buf_wf (snd (lsp_buffer_put b len))" "buf_wf (snd (lsp_buffer_push b len))"
    "buf_wf (snd (lsp_buffer_pull b len))"
    "same_block b (snd (lsp_buffer_put b len))" "same_block b (snd (lsp_buffer_push b len))"
    "same_block b (snd (lsp_buffer_pull b len))"
  using assms buf_wfD [OF assms] unat_pull_len [OF assms, of len]
  by (auto simp: buffer_put_eq buffer_push_eq buffer_pull_eq buf_wf_def same_block_def)

subsection \<open>The bytes of a buffer\<close>

definition region :: "(size_t \<Rightarrow> u8) \<Rightarrow> size_t \<Rightarrow> size_t \<Rightarrow> u8 list" where
  "region mem a b = map (\<lambda>i. mem (of_nat i)) [unat a..<unat b]"

definition payload :: "(size_t \<Rightarrow> u8) \<Rightarrow> lsp_buffer \<Rightarrow> u8 list" where
  "payload mem b = region mem (b_data b) (b_tail b)"

text \<open>The caller's \<open>memcpy\<close> to an address an operation returned.\<close>

definition store_bytes :: "(size_t \<Rightarrow> u8) \<Rightarrow> size_t \<Rightarrow> u8 list \<Rightarrow> size_t \<Rightarrow> u8" where
  "store_bytes mem a bs x =
     (if unat a \<le> unat x \<and> unat x < unat a + length bs then bs ! (unat x - unat a) else mem x)"

lemma length_region [simp]: "length (region mem a b) = unat b - unat a"
  by (simp add: region_def)

lemma region_split:
  "unat a \<le> unat b \<Longrightarrow> unat b \<le> unat c \<Longrightarrow> region mem a c = region mem a b @ region mem b c"
  using upt_add_eq_append [of "unat a" "unat b" "unat c - unat b"] by (simp add: region_def)

lemma take_region:
  "unat c = unat a + n \<Longrightarrow> unat c \<le> unat b \<Longrightarrow> take n (region mem a b) = region mem a c"
  by (simp add: region_def take_map)

lemma drop_region: "unat c = unat a + n \<Longrightarrow> drop n (region mem a b) = region mem c b"
  by (simp add: region_def drop_map)

lemma region_store_outside:
  "unat c \<le> unat a \<or> unat a + length bs \<le> unat b \<Longrightarrow>
     region (store_bytes mem a bs) b c = region mem b c"
  using unat_lt_64 [of c] by (auto simp: region_def store_bytes_def unat_of_nat take_bit_nat_eq_self)

lemma region_store_inside:
  assumes "unat c = unat a + length bs"
  shows "region (store_bytes mem a bs) a c = bs"
proof (rule nth_equalityI)
  show "length (region (store_bytes mem a bs) a c) = length bs"
    using assms by simp
  fix i
  assume "i < length (region (store_bytes mem a bs) a c)"
  then have i: "i < length bs"
    using assms by simp
  then have "unat (a + word_of_nat i) = unat a + i"
    using assms unat_lt_64 [of c]
    by (simp add: unat_plus_nowrap unat_of_nat take_bit_nat_eq_self)
  then show "region (store_bytes mem a bs) a c ! i = bs ! i"
    using i assms by (simp add: region_def store_bytes_def)
qed

subsection \<open>The specification: two borders in a row of bytes\<close>

text \<open>
  A packet under construction is a triple of byte lists: the room before it, its bytes, and the
  room after it. \<open>put\<close> and \<open>push\<close> take bytes of the room into the packet, \<open>pull\<close> gives bytes
  back to the room in front.
\<close>

type_synonym 'a zipper = "'a list \<times> 'a list \<times> 'a list"

fun zip_put :: "nat \<Rightarrow> 'a zipper \<Rightarrow> 'a zipper option" where
  "zip_put n (pre, pl, post) =
     (if length post < n then None else Some (pre, pl @ take n post, drop n post))"

fun zip_push :: "nat \<Rightarrow> 'a zipper \<Rightarrow> 'a zipper option" where
  "zip_push n (pre, pl, post) =
     (if length pre < n then None
      else Some (take (length pre - n) pre, drop (length pre - n) pre @ pl, post))"

fun zip_pull :: "nat \<Rightarrow> 'a zipper \<Rightarrow> 'a zipper" where
  "zip_pull n (pre, pl, post) = (pre @ take n pl, drop n pl, post)"

definition buf_view :: "(size_t \<Rightarrow> u8) \<Rightarrow> lsp_buffer \<Rightarrow> u8 zipper" where
  "buf_view mem b = (region mem (b_head b) (b_data b), region mem (b_data b) (b_tail b),
                     region mem (b_tail b) (b_end b))"

definition ok_put :: "nat \<Rightarrow> lsp_buffer \<Rightarrow> lsp_buffer option" where
  "ok_put n b = (case lsp_buffer_put b (of_nat n) of (Some _, b') \<Rightarrow> Some b' | _ \<Rightarrow> None)"

definition ok_push :: "nat \<Rightarrow> lsp_buffer \<Rightarrow> lsp_buffer option" where
  "ok_push n b = (case lsp_buffer_push b (of_nat n) of (Some _, b') \<Rightarrow> Some b' | _ \<Rightarrow> None)"

definition ok_pull :: "nat \<Rightarrow> lsp_buffer \<Rightarrow> lsp_buffer" where
  "ok_pull n b = snd (lsp_buffer_pull b (of_nat n))"

text \<open>
  The interface between a staged packet and its users: whatever represents the triple, each
  operation acts on the triple as the specification says.
\<close>

locale staged_packet =
  fixes wf :: "'b \<Rightarrow> bool"
    and view :: "'b \<Rightarrow> 'a zipper"
    and width :: nat
    and put :: "nat \<Rightarrow> 'b \<Rightarrow> 'b option"
    and push :: "nat \<Rightarrow> 'b \<Rightarrow> 'b option"
    and pull :: "nat \<Rightarrow> 'b \<Rightarrow> 'b"
  assumes put_wf: "wf b \<Longrightarrow> put n b = Some b' \<Longrightarrow> wf b'"
    and push_wf: "wf b \<Longrightarrow> push n b = Some b' \<Longrightarrow> wf b'"
    and pull_wf: "wf b \<Longrightarrow> wf (pull n b)"
    and put_view: "wf b \<Longrightarrow> n < width \<Longrightarrow> map_option view (put n b) = zip_put n (view b)"
    and push_view: "wf b \<Longrightarrow> n < width \<Longrightarrow> map_option view (push n b) = zip_push n (view b)"
    and pull_view: "wf b \<Longrightarrow> n < width \<Longrightarrow> view (pull n b) = zip_pull n (view b)"
begin

lemma pull_then_push:
  assumes "wf b" "n < width" "view b = (pre, pl, post)" "n \<le> length pl"
  shows "\<exists>b'. push n (pull n b) = Some b' \<and> wf b' \<and> view b' = view b"
proof -
  have "map_option view (push n (pull n b)) = Some (view b)"
    using assms by (simp add: push_view pull_view pull_wf)
  then show ?thesis
    using push_wf [OF pull_wf [OF assms(1)]] by (auto simp: map_option_eq_Some)
qed

lemma push_then_pull:
  assumes "wf b" "n < width" "push n b = Some b'"
  shows "wf (pull n b') \<and> view (pull n b') = view b"
proof -
  obtain pre pl post where v: "view b = (pre, pl, post)"
    by (cases "view b")
  have "zip_push n (view b) = Some (view b')"
    using push_view [OF assms(1,2)] assms(3) by simp
  then have "n \<le> length pre" "view b' = (take (length pre - n) pre, drop (length pre - n) pre @ pl, post)"
    by (auto simp: v split: if_splits)
  then have "zip_pull n (view b') = view b"
    by (simp add: v)
  then show ?thesis
    using pull_view [of b' n] push_wf [OF assms(1,3)] pull_wf assms(2) by simp
qed

lemma pull_then_pull:
  assumes "wf b" "m < width" "n < width" "m + n < width"
  shows "view (pull n (pull m b)) = view (pull (m + n) b)"
  using assms by (cases "view b") (simp add: pull_view pull_wf take_add add.commute)

end

subsection \<open>The buffer implements the specification\<close>

lemma unat_of_nat_64: "n < 2 ^ 64 \<Longrightarrow> unat (of_nat n :: size_t) = n"
  by (simp add: unat_of_nat take_bit_nat_eq_self)

lemma ok_put_view:
  assumes "buf_wf b" "n < 2 ^ 64"
  shows "map_option (buf_view mem) (ok_put n b) = zip_put n (buf_view mem b)"
proof (cases "unat (tailroom b) < n")
  case False
  then show ?thesis
    using assms buf_wfD [OF assms(1)] buffer_put_eq [OF assms(1), of "of_nat n"]
    by (simp add: ok_put_def buf_view_def unat_of_nat_64 take_region [of "b_tail b + of_nat n"]
        drop_region [of "b_tail b + of_nat n"]
        region_split [of "b_data b" "b_tail b" "b_tail b + of_nat n"])
qed (use assms buf_wfD [OF assms(1)] buffer_put_eq [OF assms(1), of "of_nat n"] in
      \<open>simp add: ok_put_def buf_view_def unat_of_nat_64\<close>)

lemma ok_push_view:
  assumes "buf_wf b" "n < 2 ^ 64"
  shows "map_option (buf_view mem) (ok_push n b) = zip_push n (buf_view mem b)"
proof (cases "unat (headroom b) < n")
  case False
  then show ?thesis
    using assms buf_wfD [OF assms(1)] buffer_push_eq [OF assms(1), of "of_nat n"]
    by (simp add: ok_push_def buf_view_def unat_of_nat_64 take_region [of "b_data b - of_nat n"]
        drop_region [of "b_data b - of_nat n"]
        region_split [of "b_data b - of_nat n" "b_data b" "b_tail b"])
qed (use assms buf_wfD [OF assms(1)] buffer_push_eq [OF assms(1), of "of_nat n"] in
      \<open>simp add: ok_push_def buf_view_def unat_of_nat_64\<close>)

lemma ok_pull_view:
  assumes "buf_wf b" "n < 2 ^ 64"
  shows "buf_view mem (ok_pull n b) = zip_pull n (buf_view mem b)"
proof -
  let ?k = "pull_len b (of_nat n)"
  note d = buf_wfD [OF assms(1)] and p = unat_pull_len [OF assms(1), of "of_nat n"]
  have k: "unat ?k = min n (length (region mem (b_data b) (b_tail b)))"
    using p assms(2) by (simp add: unat_of_nat_64)
  have "take n (region mem (b_data b) (b_tail b)) = take (unat ?k) (region mem (b_data b) (b_tail b))"
    "drop n (region mem (b_data b) (b_tail b)) = drop (unat ?k) (region mem (b_data b) (b_tail b))"
    unfolding k by (auto simp: min_def)
  then show ?thesis
    using d k buffer_pull_eq [OF assms(1), of "of_nat n"]
    by (simp add: ok_pull_def buf_view_def take_region [of "b_data b + ?k"]
        drop_region [of "b_data b + ?k"] region_split [of "b_head b" "b_data b" "b_data b + ?k"])
qed

lemma ok_ops_wf:
  "buf_wf b \<Longrightarrow> ok_put n b = Some b' \<Longrightarrow> buf_wf b'"
  "buf_wf b \<Longrightarrow> ok_push n b = Some b' \<Longrightarrow> buf_wf b'"
  "buf_wf b \<Longrightarrow> buf_wf (ok_pull n b)"
  using buffer_ops_wf [of b "of_nat n"]
  by (auto simp: ok_put_def ok_push_def ok_pull_def split: prod.splits option.splits)

interpretation packet_buffer: staged_packet buf_wf "buf_view mem" "2 ^ 64" ok_put ok_push ok_pull
  for mem
  by unfold_locales (auto intro: ok_ops_wf simp: ok_put_view ok_push_view ok_pull_view)

subsection \<open>Allocation\<close>

lemma aligned_struct: "ALIGNED_SIZE 80 = 80"
  by (simp add: word_unat_eq_iff unat_ALIGNED_SIZE)

definition header_room :: "(nat \<Rightarrow> lsp_interface) \<Rightarrow> nat option \<Rightarrow> int" where
  "header_room ifs iface = (case iface of Some i \<Rightarrow> min_header_len (ifs i) | None \<Rightarrow> 8)"

lemma buffer_alloc_eq:
  "lsp_buffer_alloc ifs malloc iface len =
     (let hr = int_to_size (header_room ifs iface) in
      case malloc (80 + len + hr) of
        None \<Rightarrow> Done None
      | Some p \<Rightarrow>
          if 80 \<le> 80 + len + hr
          then Done (Some \<lparr>b_iface = iface, headroom = hr, tailroom = len, b_data = p + 80 + hr,
                      b_tail = p + 80 + hr, b_end = p + 80 + len + hr, b_packet = p + 80 + hr,
                      b_head = p + 80\<rparr>)
          else Fault OutOfBounds)"
  by (simp add: lsp_buffer_alloc_def header_room_def SIZEOF_lsp_buffer_def aligned_struct Let_def
      xguard_def lsp_consts split: option.split)

lemma word_sum3:
  fixes a b c :: size_t
  assumes "unat a + unat b + unat c < 2 ^ 64"
  shows "unat (a + b + c) = unat a + unat b + unat c"
  using assms by (subst unat_plus_nowrap; simp add: unat_plus_nowrap)

lemma buffer_alloc_facts:
  assumes "0 \<le> header_room ifs iface" and "header_room ifs iface \<le> INT_MAX"
    and "unat p + 80 + unat len + nat (header_room ifs iface) < 2 ^ 64"
    and "malloc (80 + len + int_to_size (header_room ifs iface)) = Some p"
  shows "\<exists>b. lsp_buffer_alloc ifs malloc iface len = Done (Some b) \<and> buf_wf b
      \<and> lsp_buffer_length b = 0 \<and> b_packet b = b_data b
      \<and> unat (headroom b) = nat (header_room ifs iface) \<and> tailroom b = len
      \<and> unat (b_head b) = unat p + 80
      \<and> unat (b_end b) = unat p + 80 + unat len + nat (header_room ifs iface)
      \<and> lsp_buffer_alloc ifs (\<lambda>_. None) iface len = Done None"
proof -
  let ?h = "int_to_size (header_room ifs iface)"
  have h: "unat ?h = nat (header_room ifs iface)"
    using assms(1,2) by (intro unat_int_to_size) auto
  have sz: "unat (80 + len + ?h) = 80 + unat len + unat ?h"
    using assms(3) h by (subst word_sum3) auto
  have hd: "unat (p + 80) = unat p + 80"
    using assms(3) by (subst unat_plus_nowrap) auto
  have dt: "unat (p + 80 + ?h) = unat p + 80 + unat ?h"
    using assms(3) h by (subst word_sum3) auto
  have en: "unat (p + 80 + len + ?h) = unat p + 80 + unat len + unat ?h"
    using assms(3) h hd by (subst word_sum3) auto
  have "(80 :: size_t) \<le> 80 + len + ?h"
    using sz by (simp add: word_le_nat_alt)
  then show ?thesis
    using h hd dt en assms(4)
    by (simp add: buffer_alloc_eq Let_def buf_wf_def lsp_buffer_length_def)
qed

subsection \<open>Properties\<close>

text \<open>
  A fresh buffer: when the allocator returns a block of the size asked for, inside the address
  space, the buffer is well formed and empty, with the interface's header length in front and the
  requested length behind the packet pointer, and head and end are the limits of the block after
  the struct; when the allocator returns NULL so does the function.
\<close>

theorem buffer_alloc_layout:
  assumes "0 \<le> header_room ifs iface" and "header_room ifs iface \<le> INT_MAX"
    and "unat p + 80 + unat len + nat (header_room ifs iface) < 2 ^ 64"
    and "malloc (80 + len + int_to_size (header_room ifs iface)) = Some p"
  shows "\<exists>b. lsp_buffer_alloc ifs malloc iface len = Done (Some b) \<and> buf_wf b
      \<and> lsp_buffer_length b = 0 \<and> b_packet b = b_data b
      \<and> unat (headroom b) = nat (header_room ifs iface) \<and> tailroom b = len
      \<and> unat (b_head b) = unat p + 80
      \<and> unat (b_end b) = unat p + 80 + unat len + nat (header_room ifs iface)
      \<and> lsp_buffer_alloc ifs (\<lambda>_. None) iface len = Done None"
  by (rule buffer_alloc_facts [where malloc = malloc, OF assms])

theorem buffer_alloc_layout_witness:
  "\<exists>b. lsp_buffer_alloc (\<lambda>_. interface_zero) (\<lambda>_. Some 4096) None 64 = Done (Some b) \<and> buf_wf b
     \<and> unat (headroom b) = 8 \<and> tailroom b = 64 \<and> unat (b_end b) = 4248"
  using buffer_alloc_layout [of "\<lambda>_. interface_zero" None 4096 64 "\<lambda>_. Some 4096"]
  by (auto simp: header_room_def)

text \<open>
  The length computation wraps. A buffer for an interface whose \<open>min_header_len\<close> is negative,
  below minus the requested length, comes from a block smaller than its own struct, and filling
  in the struct writes past the block.
\<close>

theorem buffer_alloc_negative_header:
  assumes "min_header_len (ifs i) = - int h" and "unat len < h" and "h \<le> 80"
    and "malloc (80 + len + int_to_size (- int h)) = Some p"
  shows "lsp_buffer_alloc ifs malloc (Some i) len = Fault OutOfBounds"
proof -
  have "80 + len + int_to_size (- int h) = 80 + len - of_nat h"
    by (simp add: int_to_size_def)
  moreover have "unat (80 + len - of_nat h :: size_t) = 80 + unat len - h"
    using assms(2,3) by (simp add: unat_minus_le unat_plus_nowrap unat_of_nat_64)
  ultimately have "\<not> 80 \<le> 80 + len + int_to_size (- int h)"
    using assms(2) by (simp add: word_le_nat_alt)
  then show ?thesis
    using assms(1,4) by (simp add: buffer_alloc_eq header_room_def Let_def)
qed

theorem buffer_alloc_negative_header_witness:
  "lsp_buffer_alloc (\<lambda>_. interface_zero\<lparr>min_header_len := -16\<rparr>) (\<lambda>_. Some 4096) (Some 0) 4 =
     Fault OutOfBounds"
  by (rule buffer_alloc_negative_header [where h = 16]) simp_all

text \<open>
  C2. The operations implement the specification. Read as three rows of bytes, \<open>put\<close>, \<open>push\<close> and
  \<open>pull\<close> of a well-formed buffer move the borders as the specification moves them, fail exactly
  where it fails and leave the buffer unchanged then, keep the buffer well formed and inside its
  block, and return the address where the new bytes go or the old ones start.
\<close>

theorem buffer_refines_zipper:
  assumes "buf_wf b" and "n < 2 ^ 64"
  shows "(case lsp_buffer_put b (of_nat n) of
            (None, b') \<Rightarrow> zip_put n (buf_view mem b) = None \<and> b' = b
          | (Some a, b') \<Rightarrow> zip_put n (buf_view mem b) = Some (buf_view mem b') \<and> a = b_tail b
              \<and> buf_wf b' \<and> same_block b b')
       \<and> (case lsp_buffer_push b (of_nat n) of
            (None, b') \<Rightarrow> zip_push n (buf_view mem b) = None \<and> b' = b
          | (Some a, b') \<Rightarrow> zip_push n (buf_view mem b) = Some (buf_view mem b') \<and> a = b_data b'
              \<and> buf_wf b' \<and> same_block b b')
       \<and> (case lsp_buffer_pull b (of_nat n) of
            (a, b') \<Rightarrow> zip_pull n (buf_view mem b) = buf_view mem b' \<and> a = b_data b
              \<and> buf_wf b' \<and> same_block b b')"
proof (intro conjI)
  note wf = buffer_ops_wf [OF assms(1), of "of_nat n"]
  show "case lsp_buffer_put b (of_nat n) of
            (None, b') \<Rightarrow> zip_put n (buf_view mem b) = None \<and> b' = b
          | (Some a, b') \<Rightarrow> zip_put n (buf_view mem b) = Some (buf_view mem b') \<and> a = b_tail b
              \<and> buf_wf b' \<and> same_block b b'"
    using packet_buffer.put_view [OF assms, of mem] wf buffer_put_eq(1) [OF assms(1), of "of_nat n"]
    by (auto simp: ok_put_def split: if_splits)
  show "case lsp_buffer_push b (of_nat n) of
            (None, b') \<Rightarrow> zip_push n (buf_view mem b) = None \<and> b' = b
          | (Some a, b') \<Rightarrow> zip_push n (buf_view mem b) = Some (buf_view mem b') \<and> a = b_data b'
              \<and> buf_wf b' \<and> same_block b b'"
    using packet_buffer.push_view [OF assms, of mem] wf buffer_push_eq(1) [OF assms(1), of "of_nat n"]
    by (auto simp: ok_push_def split: if_splits)
  show "case lsp_buffer_pull b (of_nat n) of
            (a, b') \<Rightarrow> zip_pull n (buf_view mem b) = buf_view mem b' \<and> a = b_data b
              \<and> buf_wf b' \<and> same_block b b'"
    using packet_buffer.pull_view [OF assms, of mem] wf buffer_pull_eq(1) [OF assms(1), of "of_nat n"]
    by (auto simp: ok_pull_def)
qed

definition buffer_example :: lsp_buffer where
  "buffer_example = \<lparr>b_iface = None, headroom = 8, tailroom = 4, b_data = 1008, b_tail = 1010,
     b_end = 1014, b_packet = 1008, b_head = 1000\<rparr>"

lemma buffer_example_wf: "buf_wf buffer_example"
  by (simp add: buf_wf_def buffer_example_def)

theorem buffer_refines_zipper_witness:
  "zip_pull 1 (buf_view (\<lambda>_. 7) buffer_example)
     = buf_view (\<lambda>_. 7) (snd (lsp_buffer_pull buffer_example 1))
   \<and> zip_put 5 (buf_view (\<lambda>_. 7) buffer_example) = None"
  using buffer_refines_zipper [OF buffer_example_wf, of 1 "\<lambda>_. 7"]
    buffer_refines_zipper [OF buffer_example_wf, of 5 "\<lambda>_. 7"]
  by (auto simp: lsp_buffer_put_def buffer_example_def split: prod.splits)

text \<open>Filling the bytes an operation hands out.\<close>

lemma put_store_payload:
  assumes "buf_wf b" "length bs \<le> unat (tailroom b)"
  shows "\<exists>b'. lsp_buffer_put b (of_nat (length bs)) = (Some (b_tail b), b') \<and> buf_wf b'
    \<and> headroom b' = headroom b \<and> payload (store_bytes mem (b_tail b) bs) b' = payload mem b @ bs"
proof -
  let ?n = "of_nat (length bs) :: size_t"
  have n: "unat ?n = length bs"
    using assms unat_lt_64 [of "tailroom b"] by (simp add: unat_of_nat_64)
  have t: "unat (b_tail b + ?n) = unat (b_tail b) + length bs"
    using buffer_put_eq(2) [OF assms(1), of ?n] assms(2) n by simp
  then show ?thesis
    using assms n buffer_put_eq(1) [OF assms(1), of ?n] buffer_ops_wf(1) [OF assms(1), of ?n]
      buf_wfD [OF assms(1)] region_store_inside [OF t]
    by (simp add: payload_def region_split [of "b_data b" "b_tail b" "b_tail b + ?n"]
        region_store_outside)
qed

lemma push_store_payload:
  assumes "buf_wf b" "length hs \<le> unat (headroom b)"
  shows "\<exists>b'. lsp_buffer_push b (of_nat (length hs)) = (Some (b_data b'), b') \<and> buf_wf b'
    \<and> unat (lsp_buffer_length b') = length hs + unat (lsp_buffer_length b)
    \<and> payload (store_bytes mem (b_data b') hs) b' = hs @ payload mem b"
proof -
  let ?n = "of_nat (length hs) :: size_t"
  have n: "unat ?n = length hs"
    using assms unat_lt_64 [of "headroom b"] by (simp add: unat_of_nat_64)
  note d = buf_wfD [OF assms(1)]
  have t: "unat (b_data b) = unat (b_data b - ?n) + length hs"
    using buffer_push_eq(2) [OF assms(1), of ?n] assms(2) n d by simp
  have wf: "buf_wf (snd (lsp_buffer_push b ?n))"
    by (rule buffer_ops_wf(2) [OF assms(1)])
  then show ?thesis
    using assms n t d region_store_inside [OF t] buffer_push_eq(1) [OF assms(1), of ?n]
    by (simp add: payload_def region_split [of "b_data b - ?n" "b_data b" "b_tail b"]
        region_store_outside buffer_length_unat)
qed

lemma pull_payload:
  assumes "buf_wf b" "n < 2 ^ 64"
  shows "payload mem (snd (lsp_buffer_pull b (of_nat n))) = drop n (payload mem b)"
  using ok_pull_view [OF assms, of mem] by (simp add: buf_view_def ok_pull_def payload_def)

lemma buffer_build_facts:
  assumes "buf_wf b" and "length bs \<le> unat (tailroom b)" and "length hs \<le> unat (headroom b)"
  shows "\<exists>a1 b1 a2 b2 b3.
    lsp_buffer_put b (of_nat (length bs)) = (Some a1, b1)
    \<and> lsp_buffer_push b1 (of_nat (length hs)) = (Some a2, b2)
    \<and> lsp_buffer_pull b2 (of_nat (length hs)) = (a2, b3)
    \<and> (let mem' = store_bytes (store_bytes mem a1 bs) a2 hs in
         payload mem' b2 = hs @ payload mem b @ bs \<and> payload mem' b3 = payload mem b @ bs)"
proof -
  let ?m1 = "store_bytes mem (b_tail b) bs"
  obtain b1 where 1: "lsp_buffer_put b (of_nat (length bs)) = (Some (b_tail b), b1)" "buf_wf b1"
    "headroom b1 = headroom b" "payload ?m1 b1 = payload mem b @ bs"
    using put_store_payload [OF assms(1,2)] by blast
  obtain b2 where 2: "lsp_buffer_push b1 (of_nat (length hs)) = (Some (b_data b2), b2)" "buf_wf b2"
    "payload (store_bytes ?m1 (b_data b2) hs) b2 = hs @ payload mem b @ bs"
    using push_store_payload [OF 1(2), of hs ?m1] 1 assms(3) by auto
  have "length hs < 2 ^ 64"
    using assms(3) unat_lt_64 [of "headroom b"] by simp
  from 1 2 pull_payload [OF 2(2) this, of "store_bytes ?m1 (b_data b2) hs"]
    buffer_pull_eq(1) [OF 2(2), of "of_nat (length hs)"]
  show ?thesis
    by simp
qed

text \<open>
  Sending and receiving through one buffer: when there is room, putting a payload behind the
  packet and pushing a header in front of it, and storing the bytes where the operations say,
  makes the packet header, old bytes, payload, in this order; pulling the header off again leaves
  the old bytes and the payload and returns the header's address.
\<close>

theorem buffer_build_and_parse:
  assumes "buf_wf b" and "length bs \<le> unat (tailroom b)" and "length hs \<le> unat (headroom b)"
  shows "\<exists>a1 b1 a2 b2 b3.
    lsp_buffer_put b (of_nat (length bs)) = (Some a1, b1)
    \<and> lsp_buffer_push b1 (of_nat (length hs)) = (Some a2, b2)
    \<and> lsp_buffer_pull b2 (of_nat (length hs)) = (a2, b3)
    \<and> (let mem' = store_bytes (store_bytes mem a1 bs) a2 hs in
         payload mem' b2 = hs @ payload mem b @ bs \<and> payload mem' b3 = payload mem b @ bs)"
  by (rule buffer_build_facts [OF assms])

theorem buffer_build_and_parse_witness:
  "\<exists>a1 b1 a2 b2. lsp_buffer_put buffer_example 2 = (Some a1, b1)
     \<and> lsp_buffer_push b1 1 = (Some a2, b2)
     \<and> payload (store_bytes (store_bytes (\<lambda>_. 7) a1 [1, 2]) a2 [9]) b2 = [9, 7, 7, 1, 2]"
  using buffer_build_and_parse [OF buffer_example_wf, of "[1, 2]" "[9]" "\<lambda>_. 7"]
  by (auto simp: buffer_example_def payload_def region_def Let_def)

text \<open>Any use of a buffer is a sequence of the three operations.\<close>

datatype buf_op = PutOp size_t | PushOp size_t | PullOp size_t

fun buf_apply :: "buf_op \<Rightarrow> lsp_buffer \<Rightarrow> lsp_buffer" where
  "buf_apply (PutOp n) b = snd (lsp_buffer_put b n)"
| "buf_apply (PushOp n) b = snd (lsp_buffer_push b n)"
| "buf_apply (PullOp n) b = snd (lsp_buffer_pull b n)"

definition buf_run :: "buf_op list \<Rightarrow> lsp_buffer \<Rightarrow> lsp_buffer" where
  "buf_run ops b = fold buf_apply ops b"

interpretation buffer_use: step_invariant "\<lambda>b. b = b0" "\<lambda>b b'. \<exists>op. b' = buf_apply op b"
    "\<lambda>b. buf_wf b0 \<longrightarrow> buf_wf b \<and> same_block b0 b" for b0
proof unfold_locales
  fix b b'
  assume "\<exists>op. b' = buf_apply op b" and inv: "buf_wf b0 \<longrightarrow> buf_wf b \<and> same_block b0 b"
  then obtain op where "b' = buf_apply op b"
    by blast
  with inv show "buf_wf b0 \<longrightarrow> buf_wf b' \<and> same_block b0 b'"
    using buffer_ops_wf [of b] by (cases op) (auto simp: same_block_def)
qed (simp add: same_block_def)

lemma buf_run_reaches: "rtranclp (\<lambda>b b'. \<exists>op. b' = buf_apply op b) b (buf_run ops b)"
  by (induction ops arbitrary: b)
     (auto simp: buf_run_def intro: converse_rtranclp_into_rtranclp)

text \<open>
  Whatever sequence of operations is applied, with whatever lengths, a well-formed buffer stays
  well formed inside the same block: header room, packet and tail room always add up to the same
  number of bytes, and head, end, interface and the packet header pointer never move.
\<close>

theorem buffer_run_invariant:
  assumes "buf_wf b"
  shows "buf_wf (buf_run ops b) \<and> same_block b (buf_run ops b)
    \<and> unat (headroom (buf_run ops b)) + unat (lsp_buffer_length (buf_run ops b))
        + unat (tailroom (buf_run ops b)) = unat (b_end b) - unat (b_head b)"
proof -
  have "buf_wf (buf_run ops b) \<and> same_block b (buf_run ops b)"
    using buffer_use.inv_reachable [OF refl buf_run_reaches] assms by blast
  then show ?thesis
    using buf_wfD [of "buf_run ops b"] by (auto simp: buffer_length_unat same_block_def)
qed

theorem buffer_run_invariant_witness:
  "buf_wf (buf_run [PushOp 8, PutOp 9, PullOp 100, PushOp 3] buffer_example)"
  using buffer_run_invariant [OF buffer_example_wf] by blast

end
