(* ===== verification/LspRouting.thy ===== *)
theory LspRouting imports LspInterface LspTime LspMutex begin

section \<open>The route table (lsp_routing.c)\<close>

text \<open>
  The table is an intrusive list with the head \<open>RHead\<close>; a route is named by the number of its
  allocation. The state is the links, the contents of the routes (allocated or not: a fresh block
  holds what the memory holds) and whether the table's mutex is held. An interface is a pointer,
  so the number of its allocation or NULL. Of the log calls only what they read is kept: the build passes on every
  level unless it sets \<open>LSP_LOGL\<close>, and the messages of \<open>lsp_route_add\<close> hold \<open>iface->ifname\<close>.
\<close>

record lsp_route =
  r_iface :: "nat option"
  r_addr :: u16
  r_linkspeed :: u32
  r_timestamp :: u32

datatype rnode = RHead | RNode nat

record rtable =
  r_links :: "rnode lheap"
  routes :: "nat \<Rightarrow> lsp_route"
  rtable_mutex :: bool

subsection \<open>The operations\<close>

definition lsp_routing_init :: "int \<Rightarrow> rtable \<Rightarrow> int \<times> rtable" where
  "lsp_routing_init mutex_rc st =
     (lsp_mutex_init mutex_rc, if mutex_rc = 0 then st\<lparr>rtable_mutex := False\<rparr> else st)"

definition rtable_lock :: "rtable \<Rightarrow> rtable exec" where
  "rtable_lock st = (if rtable_mutex st then Hang else Done (st\<lparr>rtable_mutex := True\<rparr>))"

definition rtable_unlock :: "rtable \<Rightarrow> rtable exec" where
  "rtable_unlock st = Done (st\<lparr>rtable_mutex := False\<rparr>)"

fun on_route :: "(nat \<Rightarrow> bool) \<Rightarrow> rnode \<Rightarrow> bool" where
  "on_route P (RNode i) = P i"
| "on_route P RHead = False"

fun route_of :: "rnode option \<Rightarrow> nat option" where
  "route_of (Some (RNode i)) = Some i"
| "route_of _ = None"

definition route_cursor :: "u16 \<Rightarrow> rtable \<Rightarrow> nat option exec" where
  "route_cursor addr st =
     xbind (lsp_list_for (on_route (\<lambda>i. r_addr (routes st i) = addr)) RHead (r_links st))
       (\<lambda>r. Done (route_of r))"

text \<open>\<open>lsp_verb(tag, \<dots>, addr, iface->ifname)\<close>\<close>

definition log_ifname :: "nat option \<Rightarrow> unit exec" where
  "log_ifname iface = xguard (iface \<noteq> None) NullDeref"

definition lsp_route_add ::
  "nat option \<Rightarrow> timespec option \<Rightarrow> nat option \<Rightarrow> u16 \<Rightarrow> int \<Rightarrow> rtable \<Rightarrow> (int \<times> rtable) exec" where
  "lsp_route_add malloc clk iface addr linkspeed st =
     xbind (route_cursor addr st) (\<lambda>route.
     case route of
       None \<Rightarrow>
         (case malloc of
            None \<Rightarrow> Done (LSP_ERR_NOMEM, st)
          | Some i \<Rightarrow>
              let st = st\<lparr>r_links := (r_links st)\<lparr>lvalid := (lvalid (r_links st))(RNode i := True)\<rparr>,
                          routes := (routes st)(i := (routes st i)\<lparr>r_iface := iface, r_addr := addr,
                                                        r_timestamp := lsp_gettime_ms clk\<rparr>)\<rparr> in
              xbind (rtable_lock st) (\<lambda>st.
              xbind (lsp_list_add (Some (RNode i)) (Some RHead) (r_links st)) (\<lambda>h.
              xbind (rtable_unlock (st\<lparr>r_links := h\<rparr>)) (\<lambda>st.
              xbind (log_ifname iface) (\<lambda>_.
              Done (LSP_ERR_NONE, st))))))
     | Some i \<Rightarrow>
         if int_to_u32 linkspeed < r_linkspeed (routes st i) then
           xbind (log_ifname iface) (\<lambda>_.
           xbind (rtable_lock st) (\<lambda>st.
           xbind (rtable_unlock (st\<lparr>routes := (routes st)(i := (routes st i)
                    \<lparr>r_iface := iface, r_linkspeed := int_to_u32 linkspeed,
                     r_timestamp := lsp_gettime_ms clk\<rparr>)\<rparr>)) (\<lambda>st.
           Done (LSP_ERR_NONE, st))))
         else Done (LSP_ERR_NONE, st))"

definition lsp_route_find :: "u16 \<Rightarrow> rtable \<Rightarrow> nat option exec" where
  "lsp_route_find addr st =
     xbind (route_cursor addr st) (\<lambda>route.
     case route of None \<Rightarrow> Done None | Some i \<Rightarrow> Done (r_iface (routes st i)))"

subsection \<open>The specification: a list of routes, searched from the newest\<close>

definition table :: "rtable \<Rightarrow> nat list \<Rightarrow> bool" where
  "table st is \<longleftrightarrow> ring (r_links st) RHead (map RNode is) \<and> \<not> rtable_mutex st"

text \<open>Which route the search of the code stops at: none when the table has fewer than two.\<close>

definition hit :: "rtable \<Rightarrow> nat list \<Rightarrow> u16 \<Rightarrow> nat option" where
  "hit st is addr =
     (if length is \<le> 1 then None else find (\<lambda>i. r_addr (routes st i) = addr) is)"

lemma find_on_route: "route_of (find (on_route P) (map RNode is)) = find P is"
  by (induction "is") auto

lemma route_cursor_table:
  assumes "table st is"
  shows "route_cursor addr st = Done (hit st is addr)"
  using ring_store.search_holds [of "r_links st" RHead "map RNode is"
      "on_route (\<lambda>i. r_addr (routes st i) = addr)"] assms
  by (simp add: table_def route_cursor_def hit_def find_on_route)

lemma route_find_table:
  assumes "table st is"
  shows "lsp_route_find addr st =
    Done (case hit st is addr of None \<Rightarrow> None | Some i \<Rightarrow> r_iface (routes st i))"
  by (simp add: lsp_route_find_def route_cursor_table [OF assms] split: option.split)

lemma hit_SomeD: "hit st is addr = Some i \<Longrightarrow> i \<in> set is \<and> r_addr (routes st i) = addr"
  by (auto simp: hit_def find_Some_iff in_set_conv_nth split: if_splits)

lemma ring_lvalid:
  assumes "ring h head xs"
  shows "ring (h\<lparr>lvalid := (lvalid h)(n := True)\<rparr>) head xs"
proof -
  have "linked (h\<lparr>lvalid := v\<rparr>) ys = linked h ys" for v ys
    by (induction ys rule: induct_list012) auto
  with assms show ?thesis
    by (simp add: ring_def)
qed

definition fresh_route :: "rtable \<Rightarrow> nat \<Rightarrow> nat option \<Rightarrow> u16 \<Rightarrow> timespec option \<Rightarrow> lsp_route" where
  "fresh_route st i iface addr clk =
     (routes st i)\<lparr>r_iface := iface, r_addr := addr, r_timestamp := lsp_gettime_ms clk\<rparr>"

lemma log_ifname_simps [simp]: "log_ifname (Some f) = Done ()" "log_ifname None = Fault NullDeref"
  by (simp_all add: log_ifname_def)

lemma route_add_new:
  assumes "table st is" "hit st is addr = None" "i \<notin> set is"
  shows "\<exists>st'. lsp_route_add (Some i) clk (Some f) addr linkspeed st = Done (LSP_ERR_NONE, st')
    \<and> table st' (i # is) \<and> routes st' = (routes st)(i := fresh_route st i (Some f) addr clk)"
proof -
  let ?h = "(r_links st)\<lparr>lvalid := (lvalid (r_links st))(RNode i := True)\<rparr>"
  have "ring ?h RHead (map RNode is)"
    using assms(1) ring_lvalid [of "r_links st" RHead "map RNode is" "RNode i"]
    by (simp add: table_def)
  then obtain h' where "lsp_list_add (Some (RNode i)) (Some RHead) ?h = Done h'"
    "ring h' RHead (RNode i # map RNode is)"
    by (rule ring_store.add_then_search [of ?h RHead "map RNode is" "RNode i"])
       (use assms(3) in auto)
  then show ?thesis
    using assms route_cursor_table [OF assms(1), of addr]
    by (simp add: lsp_route_add_def rtable_lock_def rtable_unlock_def table_def fresh_route_def)
qed

lemma route_add_known:
  assumes "table st is" "hit st is addr = Some j"
  shows "\<exists>st'. lsp_route_add malloc clk (Some f) addr linkspeed st = Done (LSP_ERR_NONE, st')
    \<and> table st' is
    \<and> routes st' = (if int_to_u32 linkspeed < r_linkspeed (routes st j)
        then (routes st)(j := (routes st j)\<lparr>r_iface := Some f, r_linkspeed := int_to_u32 linkspeed,
                               r_timestamp := lsp_gettime_ms clk\<rparr>)
        else routes st)"
  using assms route_cursor_table [OF assms(1), of addr]
  by (simp add: lsp_route_add_def rtable_lock_def rtable_unlock_def table_def)

lemma route_add_nomem:
  assumes "table st is" "hit st is addr = None"
  shows "lsp_route_add None clk iface addr linkspeed st = Done (LSP_ERR_NOMEM, st)"
  using route_cursor_table [OF assms(1), of addr] assms(2) by (simp add: lsp_route_add_def)

text \<open>
  With NULL for the interface a call faults exactly where it would have stored it, as the log reads the name of
  the interface: for a new route when it is on the table already, for a known one before anything is changed.
\<close>

lemma route_add_null:
  assumes "table st is" "malloc \<in> insert None (Some ` (- set is))"
  shows "lsp_route_add malloc clk None addr linkspeed st =
    (case hit st is addr of
       None \<Rightarrow> if malloc = None then Done (LSP_ERR_NOMEM, st) else Fault NullDeref
     | Some j \<Rightarrow> if int_to_u32 linkspeed < r_linkspeed (routes st j) then Fault NullDeref
                else Done (LSP_ERR_NONE, st))"
proof (cases "hit st is addr")
  case None
  show ?thesis
  proof (cases malloc)
    case (Some i)
    let ?h = "(r_links st)\<lparr>lvalid := (lvalid (r_links st))(RNode i := True)\<rparr>"
    have "ring ?h RHead (map RNode is)"
      using assms(1) ring_lvalid [of "r_links st" RHead "map RNode is" "RNode i"]
      by (simp add: table_def)
    then obtain h' where "lsp_list_add (Some (RNode i)) (Some RHead) ?h = Done h'"
      by (rule ring_store.add_then_search [of ?h RHead "map RNode is" "RNode i"])
         (use assms(2) Some in auto)
    then show ?thesis
      using assms Some None route_cursor_table [OF assms(1), of addr]
      by (simp add: lsp_route_add_def rtable_lock_def rtable_unlock_def table_def)
  qed (simp add: lsp_route_add_def route_cursor_table [OF assms(1)] None)
qed (simp add: lsp_route_add_def route_cursor_table [OF assms(1)])

subsection \<open>The invariant of the table\<close>

text \<open>
  Every route but the oldest has an address of its own. The oldest may share one: the second
  insertion does not see the first.
\<close>

definition route_inv :: "rtable \<Rightarrow> bool" where
  "route_inv st \<longleftrightarrow>
     (\<exists>is. table st is \<and> distinct (map (\<lambda>i. r_addr (routes st i)) (butlast is)))"

inductive route_step :: "rtable \<Rightarrow> rtable \<Rightarrow> bool" where
  add_route: "lsp_route_add malloc clk iface addr linkspeed st = Done (rc, st') \<Longrightarrow>
     (\<And>i. malloc = Some i \<Longrightarrow> \<not> lvalid (r_links st) (RNode i)) \<Longrightarrow> route_step st st'"
| init_table: "lsp_routing_init mutex_rc st = (rc, st') \<Longrightarrow> route_step st st'"

lemma table_fresh: "table st is \<Longrightarrow> \<not> lvalid (r_links st) (RNode i) \<Longrightarrow> i \<notin> set is"
  using ring_validD [of "r_links st" RHead "map RNode is" "RNode i"] by (auto simp: table_def)

lemma map_addr_cong:
  "(\<And>i. r_addr (f i) = r_addr (g i)) \<Longrightarrow> map (\<lambda>i. r_addr (f i)) is = map (\<lambda>i. r_addr (g i)) is"
  by simp

lemma route_inv_new:
  assumes "table st is" "hit st is addr = None" "i \<notin> set is"
    and "distinct (map (\<lambda>i. r_addr (routes st i)) (butlast is))"
    and "table st' (i # is)" "routes st' = (routes st)(i := fresh_route st i iface addr clk)"
  shows "route_inv st'"
proof -
  have other: "r_addr (routes st' j) = r_addr (routes st j)" if "j \<in> set is" for j
    using assms(3,6) that by auto
  have new: "r_addr (routes st' i) = addr"
    by (simp add: assms(6) fresh_route_def)
  have nof: "r_addr (routes st j) \<noteq> addr" if "j \<in> set (butlast is)" for j
    using assms(2) that by (cases "is") (auto simp: hit_def find_None_iff dest: in_set_butlastD
        split: if_splits)
  have "map (\<lambda>j. r_addr (routes st' j)) (butlast is) = map (\<lambda>j. r_addr (routes st j)) (butlast is)"
    using other by (auto dest: in_set_butlastD)
  moreover have "addr \<notin> (\<lambda>j. r_addr (routes st j)) ` set (butlast is)"
    using nof by blast
  ultimately have "distinct (map (\<lambda>j. r_addr (routes st' j)) (i # butlast is))"
    using assms(4) new by (simp only: list.map distinct.simps set_map) simp
  then have "distinct (map (\<lambda>j. r_addr (routes st' j)) (butlast (i # is)))"
    by auto
  then show ?thesis
    using assms(5) by (auto simp: route_inv_def)
qed

lemma route_inv_step:
  assumes "route_step st st'" "route_inv st"
  shows "route_inv st'"
  using assms(1)
proof (cases rule: route_step.cases)
  case (add_route malloc clk iface addr linkspeed rc)
  obtain "is" where t: "table st is" "distinct (map (\<lambda>i. r_addr (routes st i)) (butlast is))"
    using assms(2) by (auto simp: route_inv_def)
  show ?thesis
  proof (cases iface)
    case None
    have "malloc \<in> insert None (Some ` (- set is))"
      using table_fresh [OF t(1)] add_route(2) by (cases malloc) auto
    then show ?thesis
      using route_add_null [OF t(1), of malloc clk addr linkspeed] add_route(1) assms(2) None
      by (auto split: option.splits if_splits)
  next
    case f: (Some f)
    show ?thesis
    proof (cases "hit st is addr")
      case None
      then show ?thesis
      proof (cases malloc)
        case (Some i)
        then show ?thesis
          using route_add_new [OF t(1) None, of i clk f linkspeed] add_route t f
            route_inv_new [OF t(1) None _ t(2)] table_fresh [OF t(1), of i]
          by auto
      qed (use route_add_nomem [OF t(1) None] add_route assms(2) in auto)
    next
      case (Some j)
      obtain st1 where "lsp_route_add malloc clk iface addr linkspeed st = Done (LSP_ERR_NONE, st1)"
        "table st1 is" "\<And>i. r_addr (routes st1 i) = r_addr (routes st i)"
        using route_add_known [OF t(1) Some, of malloc clk f linkspeed] f by (auto split: if_splits)
      then show ?thesis
        using add_route(1) t(2) map_addr_cong [of "routes st1" "routes st"]
        by (auto simp: route_inv_def)
    qed
  qed
next
  case (init_table mutex_rc rc)
  then show ?thesis
    using assms(2) by (auto simp: lsp_routing_init_def route_inv_def table_def split: if_splits)
qed

interpretation route_table: step_invariant "\<lambda>st. table st []" route_step route_inv
  by unfold_locales (force simp: route_inv_def, rule route_inv_step)

subsection \<open>Properties\<close>

text \<open>An empty table; the memory of a block not yet allocated holds a link speed of 5.\<close>

definition rtable_example :: rtable where
  "rtable_example =
     \<lparr>r_links = \<lparr>lnext = (\<lambda>n. if n = RHead then Some RHead else None),
                 lprev = (\<lambda>n. if n = RHead then Some RHead else None), lvalid = (\<lambda>n. n = RHead)\<rparr>,
      routes = (\<lambda>_. \<lparr>r_iface = None, r_addr = 0, r_linkspeed = 5, r_timestamp = 0\<rparr>),
      rtable_mutex = False\<rparr>"

lemma rtable_example_table: "table rtable_example []"
  by (simp add: table_def rtable_example_def ring_def)

text \<open>
  Adding a route, on every branch. When the search finds no route to the address, a failed
  allocation returns \<open>LSP_ERR_NOMEM\<close> and changes nothing, and a fresh block goes in front of the
  table with the interface, the address and the time, but with the link speed its memory held.
  When the search finds a route, interface, speed and time are replaced exactly if the new speed
  is less than the old one as an unsigned number, and the table keeps its routes. The mutex is
  free at the end.
\<close>

theorem route_add_outcomes:
  assumes "table st is" and "i \<notin> set is"
  shows "case hit st is addr of
      None \<Rightarrow> lsp_route_add None clk (Some f) addr linkspeed st = Done (LSP_ERR_NOMEM, st)
        \<and> (\<exists>st'. lsp_route_add (Some i) clk (Some f) addr linkspeed st = Done (LSP_ERR_NONE, st')
             \<and> table st' (i # is) \<and> routes st' = (routes st)(i := fresh_route st i (Some f) addr clk)
             \<and> r_linkspeed (routes st' i) = r_linkspeed (routes st i))
    | Some j \<Rightarrow> (\<exists>st'. lsp_route_add malloc clk (Some f) addr linkspeed st = Done (LSP_ERR_NONE, st')
             \<and> table st' is
             \<and> routes st' = (if int_to_u32 linkspeed < r_linkspeed (routes st j)
                 then (routes st)(j := (routes st j)\<lparr>r_iface := Some f,
                        r_linkspeed := int_to_u32 linkspeed, r_timestamp := lsp_gettime_ms clk\<rparr>)
                 else routes st))"
proof (cases "hit st is addr")
  case None
  then show ?thesis
    using route_add_new [OF assms(1) None assms(2), of clk f linkspeed]
      route_add_nomem [OF assms(1) None] by (auto simp: fresh_route_def)
next
  case (Some j)
  then show ?thesis
    using route_add_known [OF assms(1) Some] by simp
qed

theorem route_add_outcomes_witness:
  "\<exists>st'. lsp_route_add (Some 0) None (Some 7) 1 100 rtable_example = Done (LSP_ERR_NONE, st')
     \<and> table st' [0] \<and> r_linkspeed (routes st' 0) = 5"
  using route_add_outcomes [OF rtable_example_table, where i = 0 and addr = 1 and clk = None
        and f = 7 and linkspeed = 100]
  by (auto simp: hit_def rtable_example_def)

text \<open>
  Looking up after adding: when the table held at least one route before, the address just
  added resolves to the interface just given (a new route is found in front), every other address
  of a table of two or more resolves as before; but the first route of a table is never found.
\<close>

theorem route_add_then_find:
  assumes "table st is" and "hit st is addr = None" and "i \<notin> set is"
  shows "\<exists>st'. lsp_route_add (Some i) clk (Some f) addr linkspeed st = Done (LSP_ERR_NONE, st')
    \<and> lsp_route_find addr st' = Done (if is = [] then None else Some f)
    \<and> (\<forall>a. a \<noteq> addr \<longrightarrow> length is \<noteq> 1 \<longrightarrow> lsp_route_find a st' = lsp_route_find a st)"
proof -
  obtain st' where add: "lsp_route_add (Some i) clk (Some f) addr linkspeed st = Done (LSP_ERR_NONE, st')"
    and t: "table st' (i # is)" and r: "routes st' = (routes st)(i := fresh_route st i (Some f) addr clk)"
    using route_add_new [OF assms] by blast
  have old: "find (\<lambda>j. r_addr (routes st' j) = a) is = find (\<lambda>j. r_addr (routes st j) = a) is" for a
    using assms(3) by (intro find_cong) (auto simp: r)
  have "hit st' (i # is) addr = (if is = [] then None else Some i)"
    by (cases "is") (simp_all add: hit_def r fresh_route_def)
  then have new: "lsp_route_find addr st' = Done (if is = [] then None else Some f)"
    using route_find_table [OF t, of addr] by (simp add: r fresh_route_def)
  have "lsp_route_find a st' = lsp_route_find a st" if "a \<noteq> addr" "length is \<noteq> 1" for a
  proof -
    have "hit st' (i # is) a = hit st is a"
      using that old [of a] by (cases "is") (auto simp: hit_def r fresh_route_def)
    moreover have "routes st' j = routes st j" if "hit st is a = Some j" for j
      using hit_SomeD [OF that] assms(3) r by auto
    ultimately show ?thesis
      using route_find_table [OF t, of a] route_find_table [OF assms(1), of a]
      by (cases "hit st is a") auto
  qed
  with add new show ?thesis by blast
qed

theorem route_add_then_find_witness:
  "\<exists>st1 st2. lsp_route_add (Some 0) None (Some 7) 1 9 rtable_example = Done (LSP_ERR_NONE, st1)
     \<and> lsp_route_find 1 st1 = Done None
     \<and> lsp_route_add (Some 1) None (Some 8) 2 9 st1 = Done (LSP_ERR_NONE, st2)
     \<and> lsp_route_find 2 st2 = Done (Some 8)"
proof -
  obtain st1 where 1: "lsp_route_add (Some 0) None (Some 7) 1 9 rtable_example = Done (LSP_ERR_NONE, st1)"
    "lsp_route_find 1 st1 = Done None"
    using route_add_then_find [OF rtable_example_table, where addr = 1 and i = 0 and clk = None
        and f = 7 and linkspeed = 9] by (auto simp: hit_def)
  have "table st1 [0]"
    using route_add_new [OF rtable_example_table, where addr = 1 and i = 0 and clk = None
        and f = 7 and linkspeed = 9] 1(1) by (auto simp: hit_def)
  from route_add_then_find [OF this, where addr = 2 and i = 1 and clk = None and f = 8
      and linkspeed = 9] 1 show ?thesis
    by (auto simp: hit_def)
qed

text \<open>
  In every state the table can reach from the empty one, by any calls of \<open>lsp_route_add\<close> with
  fresh blocks and of \<open>lsp_routing_init\<close>, the list is well formed, the mutex is free, and no two
  routes but the oldest and one other share an address.
\<close>

theorem reachable_table:
  assumes "table st []" and "rtranclp route_step st st'"
  shows "\<exists>is. table st' is \<and> distinct (map (\<lambda>i. r_addr (routes st' i)) (butlast is))"
  using route_table.inv_reachable [OF assms] by (simp add: route_inv_def)

text \<open>And the oldest does share its address in a table the code can reach.\<close>

definition rtable_first :: rtable where
  "rtable_first = (case lsp_route_add (Some 0) None (Some 7) 1 9 rtable_example of
     Done (_, st) \<Rightarrow> st | _ \<Rightarrow> rtable_example)"

lemma rtable_first_step:
  "lsp_route_add (Some 0) None (Some 7) 1 9 rtable_example = Done (LSP_ERR_NONE, rtable_first)
   \<and> table rtable_first [0] \<and> routes rtable_first 0 = fresh_route rtable_example 0 (Some 7) 1 None"
  using route_add_new [OF rtable_example_table, where addr = 1 and i = 0 and clk = None
        and f = 7 and linkspeed = 9]
  by (auto simp: hit_def rtable_first_def)

theorem reachable_table_witness:
  "\<exists>is. table rtable_first is \<and> distinct (map (\<lambda>i. r_addr (routes rtable_first i)) (butlast is))"
proof (rule reachable_table [OF rtable_example_table])
  show "rtranclp route_step rtable_example rtable_first"
    using rtable_first_step
    by (intro r_into_rtranclp add_route) (auto simp: rtable_example_def)
qed

text \<open>
  The second route of a table never sees the first: adding the address of the only route adds
  a second route to the same address, whatever the link speeds.
\<close>

theorem duplicate_route:
  assumes "table st [j]" and "r_addr (routes st j) = addr" and "i \<noteq> j"
  shows "\<exists>st'. lsp_route_add (Some i) clk (Some f) addr linkspeed st = Done (LSP_ERR_NONE, st')
    \<and> table st' [i, j] \<and> r_addr (routes st' i) = r_addr (routes st' j)"
proof -
  have "hit st [j] addr = None"
    by (simp add: hit_def)
  from route_add_new [OF assms(1) this, where i = i and clk = clk and f = f
      and linkspeed = linkspeed] assms(2,3) show ?thesis
    by (auto simp: fresh_route_def)
qed

theorem duplicate_route_witness:
  "\<exists>st'. lsp_route_add (Some 1) None (Some 8) 1 3 rtable_first = Done (LSP_ERR_NONE, st')
     \<and> table st' [1, 0]"
  using duplicate_route [of rtable_first, where j = 0 and addr = 1 and i = 1 and clk = None
      and f = 8 and linkspeed = 3] rtable_first_step
  by (auto simp: fresh_route_def)

end
