(* ===== verification/LspRouteMap.thy ===== *)
theory LspRouteMap imports LspRouting begin

section \<open>The route table as a finite map\<close>

text \<open>
  What the callers of the route table want is a map from addresses to interfaces that keeps, for every
  address, the route with the smallest number for its link speed. Once a table holds two routes it is
  one, whatever is added afterwards; below that the searches of the code do not see what is there (see
  \<open>route_add_then_find\<close>).
\<close>

subsection \<open>The specification\<close>

type_synonym route_map = "u16 \<Rightarrow> (nat option \<times> u32) option"

text \<open>A call of \<open>lsp_route_add\<close>: the block \<open>malloc\<close> returns if it is asked, and the arguments. The interface is
  not NULL, whose name the log would read (\<open>route_add_null\<close>).\<close>

record route_call =
  rc_block :: nat
  rc_clock :: "timespec option"
  rc_iface :: nat
  rc_addr :: u16
  rc_speed :: int

text \<open>\<open>junk\<close> is the link speed a fresh block holds, as the code does not set it.\<close>

definition map_add_route :: "(nat \<Rightarrow> u32) \<Rightarrow> route_map \<Rightarrow> route_call \<Rightarrow> route_map" where
  "map_add_route junk m c =
     (case m (rc_addr c) of
        None \<Rightarrow> m(rc_addr c \<mapsto> (Some (rc_iface c), junk (rc_block c)))
      | Some (_, speed) \<Rightarrow>
          if int_to_u32 (rc_speed c) < speed
          then m(rc_addr c \<mapsto> (Some (rc_iface c), int_to_u32 (rc_speed c))) else m)"

definition map_find :: "u16 \<Rightarrow> route_map \<Rightarrow> nat option" where
  "map_find addr m = (case m addr of None \<Rightarrow> None | Some (iface, _) \<Rightarrow> iface)"

subsection \<open>The code\<close>

text \<open>A sequence of calls, with what each of them returns.\<close>

fun add_routes :: "route_call list \<Rightarrow> rtable \<Rightarrow> (int list \<times> rtable) exec" where
  "add_routes [] st = Done ([], st)"
| "add_routes (c # cs) st =
     xbind (lsp_route_add (Some (rc_block c)) (rc_clock c) (Some (rc_iface c)) (rc_addr c) (rc_speed c) st)
       (\<lambda>(rc, st). xbind (add_routes cs st) (\<lambda>(rcs, st). Done (rc # rcs, st)))"

text \<open>The map a table stands for.\<close>

definition route_abs :: "rtable \<Rightarrow> nat list \<Rightarrow> route_map" where
  "route_abs st is addr = map_option (\<lambda>i. (r_iface (routes st i), r_linkspeed (routes st i))) (hit st is addr)"

lemma route_find_abs: "table st is \<Longrightarrow> lsp_route_find addr st = Done (map_find addr (route_abs st is))"
  by (simp add: route_find_table map_find_def route_abs_def split: option.split)

text \<open>A call is the operation of the map.\<close>

lemma route_add_refines:
  assumes "table st is" "2 \<le> length is" "rc_block c \<notin> set is"
    and "\<forall>i. i \<notin> set is \<longrightarrow> r_linkspeed (routes st i) = junk i"
  shows "\<exists>st' is'. lsp_route_add (Some (rc_block c)) (rc_clock c) (Some (rc_iface c)) (rc_addr c) (rc_speed c) st
      = Done (LSP_ERR_NONE, st')
    \<and> table st' is' \<and> 2 \<le> length is' \<and> set is' \<subseteq> insert (rc_block c) (set is)
    \<and> (\<forall>i. i \<notin> set is' \<longrightarrow> r_linkspeed (routes st' i) = junk i)
    \<and> route_abs st' is' = map_add_route junk (route_abs st is) c"
proof (cases "hit st is (rc_addr c)")
  case None
  let ?i = "rc_block c"
  obtain st' where st': "lsp_route_add (Some ?i) (rc_clock c) (Some (rc_iface c)) (rc_addr c) (rc_speed c) st
      = Done (LSP_ERR_NONE, st')" "table st' (?i # is)"
    "routes st' = (routes st)(?i := fresh_route st ?i (Some (rc_iface c)) (rc_addr c) (rc_clock c))"
    using route_add_new [OF assms(1) None assms(3)] by blast
  have old: "find (\<lambda>j. r_addr (routes st' j) = a) is = find (\<lambda>j. r_addr (routes st j) = a) is" for a
    using assms(3) by (intro find_cong) (auto simp: st'(3))
  have same: "routes st' j = routes st j" if "find (\<lambda>j. r_addr (routes st j) = a) is = Some j" for a j
    using that assms(3) by (auto simp: st'(3) find_Some_iff in_set_conv_nth)
  have "route_abs st' (?i # is) a = map_add_route junk (route_abs st is) c a" for a
  proof (cases "a = rc_addr c")
    case True
    then show ?thesis
      using None assms(2-4) by (auto simp: route_abs_def hit_def map_add_route_def st'(3) fresh_route_def)
  next
    case False
    then have "hit st' (?i # is) a = hit st is a"
      using assms(2) old [of a] by (auto simp: hit_def st'(3) fresh_route_def)
    with False None show ?thesis
      using same [of a] assms(2) by (cases "hit st is a") (simp_all add: route_abs_def map_add_route_def hit_def)
  qed
  then have "route_abs st' (?i # is) = map_add_route junk (route_abs st is) c"
    by blast
  moreover have "\<forall>j. j \<notin> set (?i # is) \<longrightarrow> r_linkspeed (routes st' j) = junk j"
    using assms(4) by (simp add: st'(3))
  ultimately show ?thesis
    using st'(1,2) assms(2) by (intro exI [of _ st'] exI [of _ "?i # is"]) auto
next
  case (Some j)
  obtain st' where st': "lsp_route_add (Some (rc_block c)) (rc_clock c) (Some (rc_iface c)) (rc_addr c) (rc_speed c) st
      = Done (LSP_ERR_NONE, st')" "table st' is"
    "routes st' = (if int_to_u32 (rc_speed c) < r_linkspeed (routes st j)
        then (routes st)(j := (routes st j)\<lparr>r_iface := Some (rc_iface c), r_linkspeed := int_to_u32 (rc_speed c),
                               r_timestamp := lsp_gettime_ms (rc_clock c)\<rparr>)
        else routes st)"
    using route_add_known [OF assms(1) Some] by blast
  have j: "j \<in> set is" "r_addr (routes st j) = rc_addr c"
    using hit_SomeD [OF Some] by simp_all
  have addrs: "r_addr (routes st' k) = r_addr (routes st k)" for k
    by (simp add: st'(3))
  then have hits: "hit st' is a = hit st is a" for a
    by (simp add: hit_def)
  have other: "k \<noteq> j" if "hit st is a = Some k" "a \<noteq> rc_addr c" for a k
    using hit_SomeD [OF that(1)] that(2) j(2) by auto
  have "route_abs st' is a = map_add_route junk (route_abs st is) c a" for a
    using Some other [of a] unfolding route_abs_def hits map_add_route_def st'(3)
    by (cases "hit st is a") auto
  then have "route_abs st' is = map_add_route junk (route_abs st is) c"
    by blast
  moreover have "\<forall>k. k \<notin> set is \<longrightarrow> r_linkspeed (routes st' k) = junk k"
    using assms(4) j(1) by (auto simp: st'(3))
  ultimately show ?thesis
    using st'(1,2) assms(2) by blast
qed

lemma add_routes_refines:
  "table st is \<Longrightarrow> 2 \<le> length is \<Longrightarrow> distinct (map rc_block cs) \<Longrightarrow> rc_block ` set cs \<inter> set is = {} \<Longrightarrow>
   \<forall>i. i \<notin> set is \<longrightarrow> r_linkspeed (routes st i) = junk i \<Longrightarrow>
   \<exists>st' is'. add_routes cs st = Done (replicate (length cs) LSP_ERR_NONE, st') \<and> table st' is'
     \<and> route_abs st' is' = foldl (map_add_route junk) (route_abs st is) cs"
proof (induction cs arbitrary: st "is")
  case (Cons c cs)
  then have "rc_block c \<notin> set is"
    by simp
  from route_add_refines [OF Cons.prems(1,2) this Cons.prems(5)] obtain st1 is1 where 1:
    "lsp_route_add (Some (rc_block c)) (rc_clock c) (Some (rc_iface c)) (rc_addr c) (rc_speed c) st = Done (LSP_ERR_NONE, st1)"
    "table st1 is1" "2 \<le> length is1" "set is1 \<subseteq> insert (rc_block c) (set is)"
    "\<forall>i. i \<notin> set is1 \<longrightarrow> r_linkspeed (routes st1 i) = junk i"
    "route_abs st1 is1 = map_add_route junk (route_abs st is) c"
    by blast
  have out: "rc_block c \<notin> rc_block ` set cs" "rc_block ` set cs \<inter> set is = {}"
    using Cons.prems(3,4) by auto
  have "b \<notin> set is1" if "b \<in> rc_block ` set cs" for b
    using subsetD [OF 1(4), of b] that out by (metis IntI emptyE insertE)
  then have "rc_block ` set cs \<inter> set is1 = {}"
    by (simp add: disjoint_iff)
  moreover have "distinct (map rc_block cs)"
    using Cons.prems(3) by simp
  ultimately obtain st' is' where "add_routes cs st1 = Done (replicate (length cs) LSP_ERR_NONE, st')" "table st' is'"
    "route_abs st' is' = foldl (map_add_route junk) (route_abs st1 is1) cs"
    using Cons.IH [OF 1(2,3) _ _ 1(5)] by blast
  with 1(1,6) show ?case
    by (intro exI [of _ st'] exI [of _ is']) simp
qed auto

subsection \<open>Properties\<close>

text \<open>
  C11. The route table refines a finite map. From a table of two or more routes, any sequence of calls of
  \<open>lsp_route_add\<close> (each with an interface that is not NULL and a block of its own, which it uses only for a new
  address) returns, every call with \<open>LSP_ERR_NONE\<close>, and afterwards \<open>lsp_route_find\<close> returns for every address
  what the map returns after the same sequence.
\<close>

theorem route_table_refines_map:
  assumes "table st is" and "2 \<le> length is" and "distinct (map rc_block cs)"
    and "rc_block ` set cs \<inter> set is = {}"
  shows "\<exists>st'. add_routes cs st = Done (replicate (length cs) LSP_ERR_NONE, st')
    \<and> (\<forall>addr. lsp_route_find addr st' = Done (map_find addr
        (foldl (map_add_route (\<lambda>i. r_linkspeed (routes st i))) (route_abs st is) cs)))"
  using add_routes_refines [OF assms, of "\<lambda>i. r_linkspeed (routes st i)"] route_find_abs by fastforce

definition two_routes :: rtable where
  "two_routes =
     \<lparr>r_links = \<lparr>lnext = (\<lambda>n. case n of RHead \<Rightarrow> Some (RNode 0) | RNode 0 \<Rightarrow> Some (RNode 1) | _ \<Rightarrow> Some RHead),
                 lprev = (\<lambda>n. case n of RHead \<Rightarrow> Some (RNode 1) | RNode 0 \<Rightarrow> Some RHead | _ \<Rightarrow> Some (RNode 0)),
                 lvalid = (\<lambda>n. n \<in> {RHead, RNode 0, RNode 1})\<rparr>,
      routes = (\<lambda>i. \<lparr>r_iface = Some i, r_addr = of_nat i, r_linkspeed = 5, r_timestamp = 0\<rparr>),
      rtable_mutex = False\<rparr>"

definition add_call :: "nat \<Rightarrow> nat \<Rightarrow> u16 \<Rightarrow> int \<Rightarrow> route_call" where
  "add_call b iface addr speed =
     \<lparr>rc_block = b, rc_clock = None, rc_iface = iface, rc_addr = addr, rc_speed = speed\<rparr>"

theorem route_table_refines_map_witness:
  "\<exists>st'. add_routes [add_call 2 7 9 100, add_call 3 8 1 4, add_call 4 6 0 6] two_routes = Done ([0, 0, 0], st')
     \<and> lsp_route_find 9 st' = Done (Some 7) \<and> lsp_route_find 1 st' = Done (Some 8)
     \<and> lsp_route_find 0 st' = Done (Some 0) \<and> lsp_route_find 5 st' = Done None"
proof -
  have t: "table two_routes [0, 1]"
    by (simp add: table_def ring_def two_routes_def)
  obtain st' where st': "add_routes [add_call 2 7 9 100, add_call 3 8 1 4, add_call 4 6 0 6] two_routes = Done ([0, 0, 0], st')"
    "\<And>addr. lsp_route_find addr st' = Done (map_find addr (foldl (map_add_route (\<lambda>i. r_linkspeed (routes two_routes i)))
        (route_abs two_routes [0, 1]) [add_call 2 7 9 100, add_call 3 8 1 4, add_call 4 6 0 6]))"
    using route_table_refines_map [OF t, of "[add_call 2 7 9 100, add_call 3 8 1 4, add_call 4 6 0 6]"]
    by (auto simp: add_call_def lsp_consts)
  show ?thesis
    by (intro exI [of _ st'] conjI, rule st'(1))
       (simp_all add: st'(2), simp_all add: map_find_def map_add_route_def add_call_def route_abs_def hit_def two_routes_def int_to_u32_def)
qed

end
