(* ===== verification/LspRoutingConc.thy ===== *)
theory LspRoutingConc imports LspRouting begin

section \<open>Threads on the route table\<close>

text \<open>
  Any number of threads (numbered) call \<open>lsp_route_find\<close> and \<open>lsp_route_add\<close> on one table. The
  code takes the table's mutex only around the insertion and around the replacement: a search
  walks over the links while another thread changes them. So a step is one access of one thread to
  the shared memory, and the accesses are in the order of the source; the memory is sequentially
  consistent. A program counter is a point of the code between two such accesses, with the values
  of the locals. The expansion of \<open>lsp_list_for\<close> reads \<open>head->next\<close> and \<open>head->prev\<close> for its
  test and \<open>head->next\<close> again for the cursor; an iteration reads \<open>next\<close> of the cursor twice.
\<close>

datatype job =
    FindJob u16
  | AddJob "nat option" u16 int   \<comment> \<open>interface, address, link speed\<close>

fun job_addr :: "job \<Rightarrow> u16" where
  "job_addr (FindJob a) = a"
| "job_addr (AddJob iface a speed) = a"

datatype answer = Iface "nat option" | Code int

datatype route_pc =
    Ready
  | ReadNext job                            \<comment> \<open>the test reads \<open>head->next\<close>\<close>
  | ReadPrev job "rnode option"             \<comment> \<open>and \<open>head->prev\<close>, to compare\<close>
  | ReadFirst job                           \<comment> \<open>the cursor is set\<close>
  | Visit job "rnode option"                \<comment> \<open>the body compares the address\<close>
  | Peek job nat                            \<comment> \<open>is \<open>next\<close> the head?\<close>
  | Advance job nat                         \<comment> \<open>the cursor is set to \<open>next\<close>\<close>
  | Missing job                             \<comment> \<open>the loop has ended with NULL\<close>
  | Hit job nat                             \<comment> \<open>the loop has been left at a route\<close>
  | LockNew "nat option" nat                \<comment> \<open>the new route waits for the mutex\<close>
  | FetchNext "nat option" nat              \<comment> \<open>\<open>lsp_list_add\<close> reads \<open>head->next\<close>\<close>
  | SetNextPrev "nat option" nat "rnode option"   \<comment> \<open>the four writes of \<open>_lsp_list_add\<close>\<close>
  | SetNewNext "nat option" nat "rnode option"
  | SetNewPrev "nat option" nat
  | SetHeadNext "nat option" nat
  | UnlockNew "nat option"
  | LogNew "nat option"                     \<comment> \<open>the log reads \<open>iface->ifname\<close>\<close>
  | LogOld "nat option" int nat             \<comment> \<open>so it does before a known route is replaced\<close>
  | LockOld "nat option" int nat            \<comment> \<open>a known route waits for the mutex\<close>
  | SetIface "nat option" int nat           \<comment> \<open>the three writes of the replacement\<close>
  | SetSpeed int nat
  | SetTime nat
  | Unlock
  | Crash fault
  | NoName                                  \<comment> \<open>the log has followed the interface NULL\<close>
  | Return answer

record route_sys =
  rtbl :: rtable
  rpcs :: "nat \<Rightarrow> route_pc"

subsection \<open>One access of one thread\<close>

definition read_link ::
  "(rnode option \<Rightarrow> route_pc) \<Rightarrow> rnode option exec \<Rightarrow> rtable \<Rightarrow> route_pc \<times> rtable" where
  "read_link k r st = (case r of Done v \<Rightarrow> (k v, st) | Fault e \<Rightarrow> (Crash e, st) | Hang \<Rightarrow> (Ready, st))"

definition write_link :: "route_pc \<Rightarrow> rnode lheap exec \<Rightarrow> rtable \<Rightarrow> route_pc \<times> rtable" where
  "write_link pc w st =
     (case w of Done h \<Rightarrow> (pc, st\<lparr>r_links := h\<rparr>) | Fault e \<Rightarrow> (Crash e, st) | Hang \<Rightarrow> (Ready, st))"

text \<open>The struct around the head of the table does not exist: reading an address there is an
  access outside the object.\<close>

definition visit :: "job \<Rightarrow> rnode option \<Rightarrow> rtable \<Rightarrow> route_pc" where
  "visit job c st =
     (case deref (r_links st) c of
        Done RHead \<Rightarrow> Crash OutOfBounds
      | Done (RNode i) \<Rightarrow> if r_addr (routes st i) = job_addr job then Hit job i else Peek job i
      | Fault e \<Rightarrow> Crash e
      | Hang \<Rightarrow> Ready)"

text \<open>\<open>malloc\<close> and \<open>clk\<close> are what the platform returns if the access asks for it. No value: the
  thread is not in a call, or waits for the mutex.\<close>

fun route_access ::
  "nat option \<Rightarrow> timespec option \<Rightarrow> route_pc \<Rightarrow> rtable \<Rightarrow> (route_pc \<times> rtable) option" where
  "route_access malloc clk Ready st = None"
| "route_access malloc clk (ReadNext job) st =
     Some (read_link (ReadPrev job) (rd_next (r_links st) (Some RHead)) st)"
| "route_access malloc clk (ReadPrev job nx) st =
     Some (read_link (\<lambda>pv. if nx \<noteq> pv then ReadFirst job else Missing job)
             (rd_prev (r_links st) (Some RHead)) st)"
| "route_access malloc clk (ReadFirst job) st =
     Some (read_link (Visit job) (rd_next (r_links st) (Some RHead)) st)"
| "route_access malloc clk (Visit job c) st = Some (visit job c st, st)"
| "route_access malloc clk (Peek job i) st =
     Some (read_link (\<lambda>nx. if nx \<noteq> Some RHead then Advance job i else Missing job)
             (rd_next (r_links st) (Some (RNode i))) st)"
| "route_access malloc clk (Advance job i) st =
     Some (read_link (Visit job) (rd_next (r_links st) (Some (RNode i))) st)"
| "route_access malloc clk (Missing (FindJob a)) st = Some (Return (Iface None), st)"
| "route_access malloc clk (Missing (AddJob iface a speed)) st =
     Some (case malloc of
        None \<Rightarrow> (Return (Code LSP_ERR_NOMEM), st)
      | Some i \<Rightarrow> (LockNew iface i,
          st\<lparr>r_links := (r_links st)\<lparr>lvalid := (lvalid (r_links st))(RNode i := True)\<rparr>,
             routes := (routes st)(i := (routes st i)\<lparr>r_iface := iface, r_addr := a,
                                           r_timestamp := lsp_gettime_ms clk\<rparr>)\<rparr>))"
| "route_access malloc clk (Hit (FindJob a) i) st = Some (Return (Iface (r_iface (routes st i))), st)"
| "route_access malloc clk (Hit (AddJob iface a speed) i) st =
     Some (if int_to_u32 speed < r_linkspeed (routes st i) then LogOld iface speed i
           else Return (Code LSP_ERR_NONE), st)"
| "route_access malloc clk (LockNew f i) st =
     (if rtable_mutex st then None else Some (FetchNext f i, st\<lparr>rtable_mutex := True\<rparr>))"
| "route_access malloc clk (FetchNext f i) st =
     Some (read_link (SetNextPrev f i) (rd_next (r_links st) (Some RHead)) st)"
| "route_access malloc clk (SetNextPrev f i nx) st =
     Some (write_link (SetNewNext f i nx) (wr_prev nx (Some (RNode i)) (r_links st)) st)"
| "route_access malloc clk (SetNewNext f i nx) st =
     Some (write_link (SetNewPrev f i) (wr_next (Some (RNode i)) nx (r_links st)) st)"
| "route_access malloc clk (SetNewPrev f i) st =
     Some (write_link (SetHeadNext f i) (wr_prev (Some (RNode i)) (Some RHead) (r_links st)) st)"
| "route_access malloc clk (SetHeadNext f i) st =
     Some (write_link (UnlockNew f) (wr_next (Some RHead) (Some (RNode i)) (r_links st)) st)"
| "route_access malloc clk (UnlockNew f) st = Some (LogNew f, st\<lparr>rtable_mutex := False\<rparr>)"
| "route_access malloc clk (LogNew f) st = Some (if f = None then NoName else Return (Code LSP_ERR_NONE), st)"
| "route_access malloc clk (LogOld iface speed i) st =
     Some (if iface = None then NoName else LockOld iface speed i, st)"
| "route_access malloc clk (LockOld iface speed i) st =
     (if rtable_mutex st then None else Some (SetIface iface speed i, st\<lparr>rtable_mutex := True\<rparr>))"
| "route_access malloc clk (SetIface iface speed i) st =
     Some (SetSpeed speed i, st\<lparr>routes := (routes st)(i := (routes st i)\<lparr>r_iface := iface\<rparr>)\<rparr>)"
| "route_access malloc clk (SetSpeed speed i) st =
     Some (SetTime i, st\<lparr>routes := (routes st)(i := (routes st i)\<lparr>r_linkspeed := int_to_u32 speed\<rparr>)\<rparr>)"
| "route_access malloc clk (SetTime i) st =
     Some (Unlock, st\<lparr>routes := (routes st)(i := (routes st i)\<lparr>r_timestamp := lsp_gettime_ms clk\<rparr>)\<rparr>)"
| "route_access malloc clk Unlock st = Some (Return (Code LSP_ERR_NONE), st\<lparr>rtable_mutex := False\<rparr>)"
| "route_access malloc clk (Crash e) st = None"
| "route_access malloc clk NoName st = None"
| "route_access malloc clk (Return r) st = None"

text \<open>A step of thread \<open>t\<close>: it calls, makes an access, or goes on after its call has returned. An
  allocation returns a block that is not in use.\<close>

inductive route_thread :: "nat \<Rightarrow> route_sys \<Rightarrow> route_sys \<Rightarrow> bool" where
  call: "rpcs s t = Ready \<Longrightarrow> route_thread t s (s\<lparr>rpcs := (rpcs s)(t := ReadNext job)\<rparr>)"
| access: "route_access malloc clk (rpcs s t) (rtbl s) = Some (pc, st) \<Longrightarrow>
     (\<And>i. malloc = Some i \<Longrightarrow> \<not> lvalid (r_links (rtbl s)) (RNode i)) \<Longrightarrow>
     route_thread t s \<lparr>rtbl = st, rpcs = (rpcs s)(t := pc)\<rparr>"
| finish: "rpcs s t = Return r \<Longrightarrow> route_thread t s (s\<lparr>rpcs := (rpcs s)(t := Ready)\<rparr>)"

definition route_sys_step :: "route_sys \<Rightarrow> route_sys \<Rightarrow> bool" where
  "route_sys_step s s' \<longleftrightarrow> (\<exists>t. route_thread t s s')"

definition route_sys_start :: "nat list \<Rightarrow> route_sys \<Rightarrow> bool" where
  "route_sys_start is s \<longleftrightarrow> table (rtbl s) is \<and> rpcs s = (\<lambda>_. Ready)"

subsection \<open>The invariant\<close>

text \<open>
  The chain of \<open>next\<close> links is a list at every moment. Its first element has the head as \<open>prev\<close>,
  except between the first and the last write of an insertion.
\<close>

definition first_of :: "nat list \<Rightarrow> rnode" where
  "first_of is = hd (map RNode is @ [RHead])"

definition chain :: "rtable \<Rightarrow> nat list \<Rightarrow> bool" where
  "chain st is \<longleftrightarrow> distinct is \<and> lvalid (r_links st) RHead \<and> (\<forall>i\<in>set is. lvalid (r_links st) (RNode i))
     \<and> lnext (r_links st) RHead = Some (first_of is) \<and> linked (r_links st) (map RNode is @ [RHead])"

fun critical :: "route_pc \<Rightarrow> bool" where
  "critical (FetchNext f i) = True"
| "critical (SetNextPrev f i nx) = True"
| "critical (SetNewNext f i nx) = True"
| "critical (SetNewPrev f i) = True"
| "critical (SetHeadNext f i) = True"
| "critical (SetIface iface speed i) = True"
| "critical (SetSpeed speed i) = True"
| "critical (SetTime i) = True"
| "critical Unlock = True"
| "critical (UnlockNew f) = True"
| "critical _ = False"

text \<open>The block a thread has allocated and not yet put on the list.\<close>

fun owned :: "route_pc \<Rightarrow> nat option" where
  "owned (LockNew f i) = Some i"
| "owned (FetchNext f i) = Some i"
| "owned (SetNextPrev f i nx) = Some i"
| "owned (SetNewNext f i nx) = Some i"
| "owned (SetNewPrev f i) = Some i"
| "owned (SetHeadNext f i) = Some i"
| "owned _ = None"

text \<open>What the thread that holds the mutex has left in the \<open>prev\<close> of the first element.\<close>

fun front_prev :: "route_pc \<Rightarrow> rnode" where
  "front_prev (SetNewNext f i nx) = RNode i"
| "front_prev (SetNewPrev f i) = RNode i"
| "front_prev (SetHeadNext f i) = RNode i"
| "front_prev _ = RHead"

definition before :: "nat list \<Rightarrow> nat \<Rightarrow> nat list" where
  "before is i = takeWhile (\<lambda>j. j \<noteq> i) is"

text \<open>No route of the table at the start among those passed has the address.\<close>

definition none_at :: "nat list \<Rightarrow> rtable \<Rightarrow> u16 \<Rightarrow> nat list \<Rightarrow> bool" where
  "none_at base st a xs \<longleftrightarrow> (\<forall>k\<in>set xs \<inter> set base. r_addr (routes st k) \<noteq> a)"

definition new_ok :: "nat list \<Rightarrow> rtable \<Rightarrow> nat \<Rightarrow> bool" where
  "new_ok base st i \<longleftrightarrow> (2 \<le> length base \<longrightarrow> none_at base st (r_addr (routes st i)) base)"

definition cursor_ok :: "nat list \<Rightarrow> nat list \<Rightarrow> rnode option \<Rightarrow> bool" where
  "cursor_ok base is c \<longleftrightarrow> (c = Some RHead \<and> base = []) \<or> (\<exists>i\<in>set is. c = Some (RNode i))"

fun pc_ok :: "nat list \<Rightarrow> rtable \<Rightarrow> nat list \<Rightarrow> route_pc \<Rightarrow> bool" where
  "pc_ok base st is (ReadPrev job nx) \<longleftrightarrow> cursor_ok base is nx
     \<and> (2 \<le> length base \<longrightarrow> nx \<noteq> Some (RNode (last base)))"
| "pc_ok base st is (Visit job c) \<longleftrightarrow> cursor_ok base is c
     \<and> (\<forall>i. c = Some (RNode i) \<longrightarrow> none_at base st (job_addr job) (before is i))"
| "pc_ok base st is (Peek job i) \<longleftrightarrow> i \<in> set is \<and> none_at base st (job_addr job) (before is i @ [i])"
| "pc_ok base st is (Advance job i) \<longleftrightarrow> i \<in> set is \<and> none_at base st (job_addr job) (before is i @ [i])
     \<and> lnext (r_links st) (RNode i) \<noteq> Some RHead"
| "pc_ok base st is (Missing job) \<longleftrightarrow> (2 \<le> length base \<longrightarrow> none_at base st (job_addr job) base)"
| "pc_ok base st is (Hit job i) \<longleftrightarrow> i \<in> set is"
| "pc_ok base st is (LockNew f i) \<longleftrightarrow> new_ok base st i"
| "pc_ok base st is (FetchNext f i) \<longleftrightarrow> new_ok base st i"
| "pc_ok base st is (SetNextPrev f i nx) \<longleftrightarrow> new_ok base st i \<and> nx = Some (first_of is)"
| "pc_ok base st is (SetNewNext f i nx) \<longleftrightarrow> new_ok base st i \<and> nx = Some (first_of is)"
| "pc_ok base st is (SetNewPrev f i) \<longleftrightarrow> new_ok base st i
     \<and> lnext (r_links st) (RNode i) = Some (first_of is)"
| "pc_ok base st is (SetHeadNext f i) \<longleftrightarrow> new_ok base st i
     \<and> lnext (r_links st) (RNode i) = Some (first_of is) \<and> lprev (r_links st) (RNode i) = Some RHead"
| "pc_ok base st is (LogOld iface speed i) \<longleftrightarrow> i \<in> set is"
| "pc_ok base st is (LockOld iface speed i) \<longleftrightarrow> i \<in> set is"
| "pc_ok base st is (SetIface iface speed i) \<longleftrightarrow> i \<in> set is"
| "pc_ok base st is (SetSpeed speed i) \<longleftrightarrow> i \<in> set is"
| "pc_ok base st is (SetTime i) \<longleftrightarrow> i \<in> set is"
| "pc_ok base st is (Crash e) \<longleftrightarrow> e = OutOfBounds \<and> base = []"
| "pc_ok base st is pc \<longleftrightarrow> True"

definition route_sys_inv :: "nat list \<Rightarrow> nat list \<Rightarrow> route_sys \<Rightarrow> bool" where
  "route_sys_inv base is s \<longleftrightarrow>
     chain (rtbl s) is \<and> (\<exists>new. is = new @ base)
   \<and> (\<forall>i\<in>set is - set base. new_ok base (rtbl s) i)
   \<and> (\<forall>t. pc_ok base (rtbl s) is (rpcs s t))
   \<and> (\<forall>t i. owned (rpcs s t) = Some i \<longrightarrow> i \<notin> set is \<and> lvalid (r_links (rtbl s)) (RNode i))
   \<and> (\<forall>t u i. owned (rpcs s t) = Some i \<and> owned (rpcs s u) = Some i \<longrightarrow> t = u)
   \<and> (\<forall>t. critical (rpcs s t) \<longrightarrow> rtable_mutex (rtbl s)
            \<and> lprev (r_links (rtbl s)) (first_of is) = Some (front_prev (rpcs s t)))
   \<and> (\<forall>t u. critical (rpcs s t) \<and> critical (rpcs s u) \<longrightarrow> t = u)
   \<and> (\<not> rtable_mutex (rtbl s) \<longrightarrow> lprev (r_links (rtbl s)) (first_of is) = Some RHead)"

subsection \<open>The chain\<close>

lemma first_of_simps [simp]: "first_of [] = RHead" "first_of (i # is) = RNode i"
  by (simp_all add: first_of_def)

lemma first_of_cases: "first_of is = RHead \<or> (\<exists>i\<in>set is. first_of is = RNode i)"
  by (cases "is") auto

lemma chain_ring:
  "chain st is \<Longrightarrow> lprev (r_links st) (first_of is) = Some RHead \<Longrightarrow> ring (r_links st) RHead (map RNode is)"
  by (cases "is") (auto simp: chain_def ring_def distinct_map inj_on_def)

lemma ring_chain:
  assumes "ring (r_links st) RHead (map RNode is)"
  shows "chain st is \<and> lprev (r_links st) (first_of is) = Some RHead"
  using assms by (cases "is") (auto simp: chain_def ring_def distinct_map)

lemma chain_next:
  assumes "chain st (xs @ i # ys)"
  shows "lnext (r_links st) (RNode i) = Some (first_of ys)"
proof -
  have "linked (r_links st) (RNode i # map RNode ys @ [RHead])"
    using assms linked_append [of "r_links st" "map RNode xs" "RNode i" "map RNode ys @ [RHead]"]
    by (simp add: chain_def)
  then show ?thesis
    by (cases ys) simp_all
qed

lemma chain_end:
  assumes "chain st (xs @ [i])"
  shows "lprev (r_links st) RHead = Some (RNode i)"
  using assms linked_append [of "r_links st" "map RNode xs" "RNode i" "[RHead]"]
  by (simp add: chain_def)

lemma before_append [simp]: "i \<notin> set xs \<Longrightarrow> before (xs @ i # ys) i = xs"
  by (induction xs) (auto simp: before_def)

lemma before_split:
  assumes "i \<in> set is"
  obtains ys where "is = before is i @ i # ys"
  using split_list_first [OF assms] by auto

lemma before_Cons [simp]: "before (n # is) i = (if n = i then [] else n # before is i)"
  by (simp add: before_def)

lemma none_at_simps [simp]:
  "none_at base st a []"
  "none_at base st a (xs @ ys) \<longleftrightarrow> none_at base st a xs \<and> none_at base st a ys"
  "none_at base st a (i # xs) \<longleftrightarrow> (i \<in> set base \<longrightarrow> r_addr (routes st i) \<noteq> a) \<and> none_at base st a xs"
  by (auto simp: none_at_def)

lemma none_at_cong:
  "\<forall>k\<in>set base. r_addr (routes st' k) = r_addr (routes st k) \<Longrightarrow>
   none_at base st' a xs = none_at base st a xs"
  by (auto simp: none_at_def)

subsection \<open>What other threads leave alone\<close>

lemma new_ok_cong:
  "\<forall>k\<in>set base. r_addr (routes st' k) = r_addr (routes st k) \<Longrightarrow>
   r_addr (routes st' i) = r_addr (routes st i) \<Longrightarrow> new_ok base st' i = new_ok base st i"
  using none_at_cong [of base st' st] by (simp add: new_ok_def)

text \<open>A thread outside the critical section, while another one changes the links.\<close>

lemma pc_ok_outside:
  assumes "pc_ok base st is pc" "\<not> critical pc" "set base \<subseteq> set is"
    and "is' = is \<or> (\<exists>n. is' = n # is \<and> n \<notin> set is)"
    and "\<forall>j\<in>set is. lnext (r_links st') (RNode j) = lnext (r_links st) (RNode j)"
    and "\<forall>j. j \<in> set is \<or> owned pc = Some j \<longrightarrow> r_addr (routes st' j) = r_addr (routes st j)"
  shows "pc_ok base st' is' pc"
proof -
  have c: "none_at base st' a xs = none_at base st a xs" for a xs
    using assms(3,6) by (intro none_at_cong) auto
  have n: "new_ok base st' i = new_ok base st i" if "owned pc = Some i" for i
    using assms(3,6) that by (intro new_ok_cong) auto
  have cur: "cursor_ok base is' x" if "cursor_ok base is x" for x
    using assms(4) that by (auto simp: cursor_ok_def)
  have b: "none_at base st a (before is' i) = none_at base st a (before is i)" if "i \<in> set is" for a i
    using assms(3,4) that by (auto split: if_splits)
  then have b': "none_at base st a (before is' i @ [i]) = none_at base st a (before is i @ [i])"
    if "i \<in> set is" for a i
    using that by simp
  show ?thesis
    using assms(1,2,4,5) c n cur b b'
    by (cases pc) (auto simp: cursor_ok_def simp del: none_at_simps before_Cons)
qed

text \<open>Any thread, while another one does not change the links.\<close>

lemma pc_ok_quiet:
  assumes "pc_ok base st is pc" "set base \<subseteq> set is"
    and "lnext (r_links st') = lnext (r_links st)" "lprev (r_links st') = lprev (r_links st)"
    and "\<forall>j. j \<in> set is \<or> owned pc = Some j \<longrightarrow> r_addr (routes st' j) = r_addr (routes st j)"
  shows "pc_ok base st' is pc"
proof -
  have c: "none_at base st' a xs = none_at base st a xs" for a xs
    using assms(2,5) by (intro none_at_cong) auto
  have n: "new_ok base st' i = new_ok base st i" if "owned pc = Some i" for i
    using assms(2,5) that by (intro new_ok_cong) auto
  show ?thesis
    using assms(1,3,4) c n by (cases pc) (auto simp: cursor_ok_def simp del: none_at_simps)
qed

subsection \<open>One step\<close>

text \<open>What the access of one thread promises to itself and to the others.\<close>

definition good_access ::
  "nat list \<Rightarrow> rtable \<Rightarrow> nat list \<Rightarrow> route_pc \<Rightarrow> rtable \<Rightarrow> nat list \<Rightarrow> route_pc \<Rightarrow> bool" where
  "good_access base st is pc st' is' pc' \<longleftrightarrow>
     chain st' is' \<and> (is' = is \<or> (\<exists>n. owned pc = Some n \<and> is' = n # is)) \<and> pc_ok base st' is' pc'
   \<and> (\<forall>i. owned pc' = Some i \<longrightarrow> i \<notin> set is' \<and> lvalid (r_links st') (RNode i)
          \<and> (owned pc = Some i \<or> \<not> lvalid (r_links st) (RNode i)))
   \<and> (\<forall>x. lvalid (r_links st) x \<longrightarrow> lvalid (r_links st') x)
   \<and> (\<forall>j. lvalid (r_links st) (RNode j) \<longrightarrow> r_addr (routes st' j) = r_addr (routes st j))
   \<and> (\<forall>j\<in>set is. lnext (r_links st') (RNode j) = lnext (r_links st) (RNode j))
   \<and> (critical pc \<or> is' = is \<and> lnext (r_links st') = lnext (r_links st) \<and> lprev (r_links st') = lprev (r_links st))
   \<and> (critical pc' \<longrightarrow> rtable_mutex st' \<and> lprev (r_links st') (first_of is') = Some (front_prev pc')
          \<and> (critical pc \<or> \<not> rtable_mutex st))
   \<and> (\<not> rtable_mutex st' \<longrightarrow> lprev (r_links st') (first_of is') = Some RHead)
   \<and> (critical pc \<or> (rtable_mutex st \<longrightarrow> rtable_mutex st'))"

definition local_inv :: "nat list \<Rightarrow> rtable \<Rightarrow> nat list \<Rightarrow> route_pc \<Rightarrow> bool" where
  "local_inv base st is pc \<longleftrightarrow> chain st is \<and> (\<exists>new. is = new @ base) \<and> pc_ok base st is pc
   \<and> (\<forall>i. owned pc = Some i \<longrightarrow> i \<notin> set is \<and> lvalid (r_links st) (RNode i))
   \<and> (critical pc \<longrightarrow> rtable_mutex st \<and> lprev (r_links st) (first_of is) = Some (front_prev pc))
   \<and> (\<not> rtable_mutex st \<longrightarrow> lprev (r_links st) (first_of is) = Some RHead)"

lemma chain_simps:
  assumes "chain st is"
  shows "rd_next (r_links st) (Some RHead) = Done (Some (first_of is))"
    and "rd_prev (r_links st) (Some RHead) = Done (lprev (r_links st) RHead)"
    and "i \<in> set is \<Longrightarrow> rd_next (r_links st) (Some (RNode i)) = Done (lnext (r_links st) (RNode i))"
    and "i \<in> set is \<Longrightarrow> deref (r_links st) (Some (RNode i)) = Done (RNode i)"
    and "deref (r_links st) (Some RHead) = Done RHead"
  using assms by (auto simp: chain_def link_defs)

text \<open>An access that changes nothing but the program counter.\<close>

lemma quiet_access:
  assumes "local_inv base st is pc" "pc_ok base st is pc'"
    and "critical pc' = critical pc" "owned pc' = owned pc" "front_prev pc' = front_prev pc"
  shows "good_access base st is pc st is pc'"
  using assms by (auto simp: good_access_def local_inv_def)

lemma cursor_first: "\<exists>new. is = new @ base \<Longrightarrow> cursor_ok base is (Some (first_of is))"
  by (cases "is") (auto simp: cursor_ok_def)

lemma before_first: "first_of is = RNode i \<Longrightarrow> before is i = []"
  by (cases "is") auto

lemma first_not_last:
  assumes "chain st is" "is = new @ base" "2 \<le> length base"
  shows "first_of is \<noteq> RNode (last base)"
proof -
  obtain a b bs where b: "base = a # b # bs"
    using assms(3) by (cases base rule: list.exhaust [OF _ list.exhaust]) (auto simp: numeral_2_eq_2 Suc_le_length_iff)
  show ?thesis
    using assms(1,2) b by (cases new) (auto simp: chain_def)
qed

lemma pc_ok_test:
  assumes "chain st is" "is = new @ base" "pc_ok base st is (ReadPrev job nx)"
    and "nx = lprev (r_links st) RHead"
  shows "pc_ok base st is (Missing job)"
proof -
  have False if "2 \<le> length base"
  proof -
    have "base = butlast base @ [last base]"
      using that by (metis append_butlast_last_id list.size(3) not_numeral_le_zero)
    then have "is = (new @ butlast base) @ [last base]"
      using assms(2) by simp
    then have "lprev (r_links st) RHead = Some (RNode (last base))"
      using chain_end assms(1) by metis
    with assms(3,4) that show False
      by simp
  qed
  then show ?thesis by auto
qed

lemma pc_ok_visit:
  assumes "chain st is" "pc_ok base st is (Visit job c)"
  shows "pc_ok base st is (visit job c st)"
  using assms by (auto simp: visit_def cursor_ok_def chain_def)

lemma pc_ok_end:
  assumes "chain st is" "is = new @ base" "pc_ok base st is (Peek job i)"
    and "lnext (r_links st) (RNode i) = Some RHead"
  shows "pc_ok base st is (Missing job)"
proof -
  obtain ys where ys: "is = before is i @ i # ys"
    using assms(3) by (auto elim: before_split)
  with assms(1) have "lnext (r_links st) (RNode i) = Some (first_of ys)"
    using chain_next by metis
  with assms(4) have "ys = []"
    by (cases ys) auto
  with ys assms(3) have "none_at base st (job_addr job) is"
    by (metis pc_ok.simps(3))
  then show ?thesis
    using assms(2) by simp
qed

lemma pc_ok_advance:
  assumes "chain st is" "pc_ok base st is (Advance job i)"
  shows "pc_ok base st is (Visit job (lnext (r_links st) (RNode i)))"
proof -
  define xs where "xs = before is i"
  obtain ys where ys: "is = xs @ i # ys"
    using assms(2) by (auto simp: xs_def elim: before_split)
  have n: "lnext (r_links st) (RNode i) = Some (first_of ys)"
    using assms(1) chain_next unfolding ys by metis
  with assms(2) obtain k zs where k: "ys = k # zs"
    by (cases ys) auto
  have "before is k = xs @ [i]"
    using assms(1) before_append [of k "xs @ [i]" zs] by (auto simp: chain_def ys k)
  moreover have "none_at base st (job_addr job) (xs @ [i])"
    using assms(2) by (simp add: xs_def)
  ultimately show ?thesis
    using n k ys by (simp add: cursor_ok_def del: none_at_simps)
qed

text \<open>The accesses of the search and of the decision after it.\<close>

fun searching :: "route_pc \<Rightarrow> bool" where
  "searching (ReadNext job) = True"
| "searching (ReadPrev job nx) = True"
| "searching (ReadFirst job) = True"
| "searching (Visit job c) = True"
| "searching (Peek job i) = True"
| "searching (Advance job i) = True"
| "searching (Hit job i) = True"
| "searching (Missing (FindJob a)) = True"
| "searching _ = False"

lemma search_access:
  assumes l: "chain st is" "is = new @ base" "pc_ok base st is pc"
    and a: "searching pc" "route_access malloc clk pc st = Some (pc', st')"
  shows "st' = st \<and> pc_ok base st is pc' \<and> \<not> critical pc' \<and> owned pc' = None"
  using a(1)
proof (cases pc rule: searching.cases)
  case (1 job)
  then show ?thesis
    using a(2) first_not_last [OF l(1,2)] cursor_first [of "is" base] l(2)
    by (auto simp: read_link_def chain_simps(1) [OF l(1)])
next
  case (2 job nx)
  then show ?thesis
    using a(2) pc_ok_test [OF l(1,2), of job nx] l(3)
    by (auto simp: read_link_def chain_simps(2) [OF l(1)] split: if_splits)
next
  case (3 job)
  then show ?thesis
    using a(2) cursor_first [of "is" base] l(2) before_first [of "is"]
    by (auto simp: read_link_def chain_simps(1) [OF l(1)])
next
  case (4 job c)
  then show ?thesis
    using a(2) pc_ok_visit [OF l(1), of base job c] l(3)
    by (auto simp: visit_def split: exec.splits rnode.splits if_splits)
next
  case (5 job i)
  then show ?thesis
    using a(2) pc_ok_end [OF l(1,2), of job i] l(3) chain_simps(3) [OF l(1), of i]
    by (auto simp: read_link_def split: if_splits)
next
  case (6 job i)
  then show ?thesis
    using a(2) pc_ok_advance [OF l(1), of base job i] l(3) chain_simps(3) [OF l(1), of i]
    by (auto simp: read_link_def)
next
  case (7 job i)
  then show ?thesis
    using a(2) l(3) by (cases job) (auto split: if_splits)
next
  case (8 a)
  then show ?thesis
    using a(2) by auto
qed auto

lemma good_search:
  assumes "local_inv base st is pc" "searching pc" "route_access malloc clk pc st = Some (pc', st')"
  shows "good_access base st is pc st' is pc'"
proof -
  obtain new where "chain st is" "is = new @ base" "pc_ok base st is pc"
    using assms(1) by (auto simp: local_inv_def)
  then have "st' = st \<and> pc_ok base st is pc' \<and> \<not> critical pc' \<and> owned pc' = None"
    using search_access assms(2,3) by blast
  moreover have "\<not> critical pc \<and> owned pc = None"
    using assms(2) by (cases pc rule: searching.cases) auto
  ultimately show ?thesis
    using assms(1) by (auto simp: good_access_def local_inv_def)
qed

lemma good_alloc:
  assumes "local_inv base st is (Missing (AddJob iface a speed))"
    and "route_access malloc clk (Missing (AddJob iface a speed)) st = Some (pc', st')"
    and "\<And>i. malloc = Some i \<Longrightarrow> \<not> lvalid (r_links st) (RNode i)"
  shows "good_access base st is (Missing (AddJob iface a speed)) st' is pc'"
proof (cases malloc)
  case None
  then show ?thesis
    using assms by (auto simp: good_access_def local_inv_def)
next
  case (Some i)
  have i: "i \<notin> set is"
    using assms(1,3) Some by (auto simp: local_inv_def chain_def)
  have "linked (h\<lparr>lvalid := v\<rparr>) ys = linked h ys" for h :: "rnode lheap" and v ys
    by (induction ys rule: induct_list012) auto
  then have "chain st' is"
    using assms(1,2) Some by (auto simp: local_inv_def chain_def)
  moreover have "new_ok base st' i"
    using assms(1,2) Some i by (auto simp: local_inv_def new_ok_def none_at_def split: if_splits)
  ultimately show ?thesis
    using assms Some i by (auto simp: good_access_def local_inv_def)
qed

lemma good_lock:
  assumes "local_inv base st is pc"
    and "pc = LockNew f i \<or> pc = LockOld iface speed i \<or> pc = LogNew f \<or> pc = LogOld iface speed i"
    and "route_access malloc clk pc st = Some (pc', st')"
  shows "good_access base st is pc st' is pc'"
  using assms by (auto simp: good_access_def local_inv_def chain_def new_ok_def none_at_def split: if_splits)

lemma good_replace:
  assumes "local_inv base st is pc" "pc = SetIface iface speed i \<or> pc = SetSpeed speed i \<or> pc = SetTime i"
    and "route_access malloc clk pc st = Some (pc', st')"
  shows "good_access base st is pc st' is pc'"
  using assms by (auto simp: good_access_def local_inv_def chain_def)

lemma good_unlock:
  assumes "local_inv base st is pc" "pc = Unlock \<or> pc = UnlockNew f" "route_access malloc clk pc st = Some (pc', st')"
  shows "good_access base st is pc st' is pc'"
  using assms by (auto simp: good_access_def local_inv_def chain_def)

text \<open>The insertion, write by write.\<close>

lemma chain_frame:
  assumes "chain st is" "lvalid h' = lvalid (r_links st)"
    and "lnext h' RHead = Some (first_of is)"
    and "\<forall>j\<in>set is. lnext h' (RNode j) = lnext (r_links st) (RNode j)"
    and "\<forall>x. x \<noteq> first_of is \<and> x \<in> insert RHead (RNode ` set is) \<longrightarrow> lprev h' x = lprev (r_links st) x"
  shows "chain (st\<lparr>r_links := h'\<rparr>) is"
proof -
  have "linked h' (map RNode is @ [RHead]) = linked (r_links st) (map RNode is @ [RHead])"
  proof (rule linked_frame)
    show "lnext h' a = lnext (r_links st) a" if "a \<in> set (butlast (map RNode is @ [RHead]))" for a
      using that assms(4) by auto
    show "lprev h' a = lprev (r_links st) a" if "a \<in> set (tl (map RNode is @ [RHead]))" for a
    proof -
      have "a \<noteq> first_of is \<and> a \<in> insert RHead (RNode ` set is)"
        using that assms(1) by (cases "is") (auto simp: chain_def)
      with assms(5) show ?thesis by simp
    qed
  qed
  with assms(1-3) show ?thesis
    by (simp add: chain_def)
qed

lemma good_fetch:
  assumes "local_inv base st is (FetchNext f i)" "route_access malloc clk (FetchNext f i) st = Some (pc', st')"
  shows "good_access base st is (FetchNext f i) st' is pc'"
  using assms chain_simps(1) [of st "is"] by (auto simp: good_access_def local_inv_def read_link_def)

lemma good_set_next_prev:
  assumes "local_inv base st is (SetNextPrev f i nx)"
    and "route_access malloc clk (SetNextPrev f i nx) st = Some (pc', st')"
  shows "good_access base st is (SetNextPrev f i nx) st' is pc'"
proof -
  let ?h = "(r_links st)\<lparr>lprev := (lprev (r_links st))(first_of is := Some (RNode i))\<rparr>"
  have c: "chain st is" "nx = Some (first_of is)" "lvalid (r_links st) (first_of is)"
    using assms(1) first_of_cases [of "is"] by (auto simp: local_inv_def chain_def)
  then have "chain (st\<lparr>r_links := ?h\<rparr>) is"
    by (intro chain_frame) (auto simp: chain_def)
  then show ?thesis
    using assms c by (auto simp: good_access_def local_inv_def write_link_def link_defs new_ok_def none_at_def)
qed

lemma good_set_new:
  assumes "local_inv base st is pc" "pc = SetNewNext f i nx \<or> pc = SetNewPrev f i"
    and "route_access malloc clk pc st = Some (pc', st')"
  shows "good_access base st is pc st' is pc'"
proof -
  have c: "chain st is" "i \<notin> set is" "lvalid (r_links st) (RNode i)"
    using assms(1,2) by (auto simp: local_inv_def)
  then have "chain (st\<lparr>r_links := (r_links st)\<lparr>lnext := (lnext (r_links st))(RNode i := nx)\<rparr>\<rparr>) is"
    "chain (st\<lparr>r_links := (r_links st)\<lparr>lprev := (lprev (r_links st))(RNode i := Some RHead)\<rparr>\<rparr>) is"
    by (intro chain_frame; auto simp: chain_def)+
  moreover have "first_of is \<noteq> RNode i"
    using c(2) first_of_cases [of "is"] by auto
  ultimately show ?thesis
    using assms c by (auto simp: good_access_def local_inv_def write_link_def link_defs new_ok_def none_at_def)
qed

lemma good_set_head_next:
  assumes "local_inv base st is (SetHeadNext f i)"
    and "route_access malloc clk (SetHeadNext f i) st = Some (pc', st')"
  shows "good_access base st is (SetHeadNext f i) st' (i # is) pc'"
proof -
  let ?h = "(r_links st)\<lparr>lnext := (lnext (r_links st))(RHead := Some (RNode i))\<rparr>"
  have c: "chain st is" "i \<notin> set is" "lvalid (r_links st) (RNode i)" "lvalid (r_links st) RHead"
    "lnext (r_links st) (RNode i) = Some (first_of is)"
    "lprev (r_links st) (first_of is) = Some (RNode i)"
    using assms(1) by (auto simp: local_inv_def chain_def)
  have "linked ?h (map RNode is @ [RHead]) = linked (r_links st) (map RNode is @ [RHead])"
    by (rule linked_frame) auto
  then have "linked ?h (RNode i # map RNode is @ [RHead])"
    using c by (cases "is") (auto simp: chain_def)
  then have "chain (st\<lparr>r_links := ?h\<rparr>) (i # is)"
    using c by (auto simp: chain_def)
  then show ?thesis
    using assms c by (auto simp: good_access_def local_inv_def write_link_def link_defs)
qed

lemma access_good:
  assumes "local_inv base st is pc" "route_access malloc clk pc st = Some (pc', st')"
    and "\<And>i. malloc = Some i \<Longrightarrow> \<not> lvalid (r_links st) (RNode i)"
  shows "\<exists>is'. good_access base st is pc st' is' pc'"
proof (cases pc)
  case (Missing job)
  then show ?thesis
    using assms good_alloc good_search by (cases job) (metis searching.simps(8), metis)
qed (use assms good_search good_lock good_replace good_unlock good_fetch good_set_next_prev
      good_set_new good_set_head_next in \<open>metis searching.simps | fastforce\<close>)+

lemma good_accessD:
  assumes "good_access base st is pc st' is' pc'"
  shows "chain st' is'" "is' = is \<or> (\<exists>n. owned pc = Some n \<and> is' = n # is)" "pc_ok base st' is' pc'"
    and "owned pc' = Some i \<Longrightarrow> i \<notin> set is' \<and> lvalid (r_links st') (RNode i)"
    and "owned pc' = Some i \<Longrightarrow> owned pc = Some i \<or> \<not> lvalid (r_links st) (RNode i)"
    and "lvalid (r_links st) x \<Longrightarrow> lvalid (r_links st') x"
    and "lvalid (r_links st) (RNode j) \<Longrightarrow> r_addr (routes st' j) = r_addr (routes st j)"
    and "\<forall>j\<in>set is. lnext (r_links st') (RNode j) = lnext (r_links st) (RNode j)"
    and "\<not> critical pc \<Longrightarrow> is' = is" "\<not> critical pc \<Longrightarrow> lnext (r_links st') = lnext (r_links st)"
    and "\<not> critical pc \<Longrightarrow> lprev (r_links st') = lprev (r_links st)"
    and "critical pc' \<Longrightarrow> rtable_mutex st' \<and> lprev (r_links st') (first_of is') = Some (front_prev pc')"
    and "critical pc' \<Longrightarrow> critical pc \<or> \<not> rtable_mutex st"
    and "\<not> rtable_mutex st' \<Longrightarrow> lprev (r_links st') (first_of is') = Some RHead"
    and "\<not> critical pc \<Longrightarrow> rtable_mutex st \<Longrightarrow> rtable_mutex st'"
  using assms unfolding good_access_def by blast+

lemma route_sys_invD:
  assumes "route_sys_inv base is s"
  shows "chain (rtbl s) is" "\<exists>new. is = new @ base" "set base \<subseteq> set is"
    and "i \<in> set is \<Longrightarrow> i \<notin> set base \<Longrightarrow> new_ok base (rtbl s) i"
    and "pc_ok base (rtbl s) is (rpcs s t)"
    and "owned (rpcs s t) = Some i \<Longrightarrow> i \<notin> set is" 
    and "owned (rpcs s t) = Some i \<Longrightarrow> lvalid (r_links (rtbl s)) (RNode i)"
    and "owned (rpcs s t) = Some i \<Longrightarrow> owned (rpcs s u) = Some i \<Longrightarrow> t = u"
    and "critical (rpcs s t) \<Longrightarrow> rtable_mutex (rtbl s)"
    and "critical (rpcs s t) \<Longrightarrow> lprev (r_links (rtbl s)) (first_of is) = Some (front_prev (rpcs s t))"
    and "critical (rpcs s t) \<Longrightarrow> critical (rpcs s u) \<Longrightarrow> t = u"
    and "\<not> rtable_mutex (rtbl s) \<Longrightarrow> lprev (r_links (rtbl s)) (first_of is) = Some RHead"
  using assms unfolding route_sys_inv_def by (blast, blast, fastforce, blast+)

lemma inv_valid: "route_sys_inv base is s \<Longrightarrow> i \<in> set is \<Longrightarrow> lvalid (r_links (rtbl s)) (RNode i)"
  using route_sys_invD(1) [of base "is" s] by (simp add: chain_def)

lemma step_keeps_others:
  assumes "route_sys_inv base is s" "good_access base (rtbl s) is (rpcs s t) st' is' pc'" "u \<noteq> t"
  shows "pc_ok base st' is' (rpcs s u)"
proof -
  note i = route_sys_invD [OF assms(1)] and g = good_accessD [OF assms(2)]
  have a: "\<forall>j. j \<in> set is \<or> owned (rpcs s u) = Some j \<longrightarrow> r_addr (routes st' j) = r_addr (routes (rtbl s) j)"
    using g(7) i(7) inv_valid [OF assms(1)] by blast
  show ?thesis
  proof (cases "critical (rpcs s t)")
    case True
    then have "\<not> critical (rpcs s u)"
      using i(11) assms(3) by blast
    moreover have "is' = is \<or> (\<exists>n. is' = n # is \<and> n \<notin> set is)"
      using g(2) i(6) by blast
    ultimately show ?thesis
      using pc_ok_outside [OF i(5) _ i(3) _ g(8) a] by blast
  next
    case False
    then show ?thesis
      using pc_ok_quiet [OF i(5,3) g(10,11) a] g(9) by blast
  qed
qed

lemma step_inv:
  assumes inv: "route_sys_inv base is s" and good: "good_access base (rtbl s) is (rpcs s t) st' is' pc'"
  shows "route_sys_inv base is' \<lparr>rtbl = st', rpcs = (rpcs s)(t := pc')\<rparr>"
proof -
  note i = route_sys_invD [OF inv] and g = good_accessD [OF good]
  have addr: "r_addr (routes st' j) = r_addr (routes (rtbl s) j)"
    if "j \<in> set is \<or> owned (rpcs s t) = Some j" for j
    using g(7) i(7) inv_valid [OF inv] that by blast
  have new: "new_ok base st' j = new_ok base (rtbl s) j" if "j \<in> set is \<or> owned (rpcs s t) = Some j" for j
    using addr that i(3) by (intro new_ok_cong) auto
  have own_ok: "new_ok base (rtbl s) j" if "owned (rpcs s t) = Some j" for j
    using i(5) [of t] that by (cases "rpcs s t") auto
  have new_is: "new_ok base st' j" if "j \<in> set is'" "j \<notin> set base" for j
    using g(2) new own_ok i(4) that by auto
  have oth: "j \<notin> set is' \<and> lvalid (r_links st') (RNode j) \<and> owned pc' \<noteq> Some j"
    if "owned (rpcs s u) = Some j" "u \<noteq> t" for u j
    using that g(2,5,6) i(6,7,8) by (metis set_ConsD)
  have crit: "\<not> critical pc' \<and> rtable_mutex st'
      \<and> lprev (r_links st') (first_of is') = Some (front_prev (rpcs s u))" if "critical (rpcs s u)" "u \<noteq> t" for u
    using that i(9,10,11) g(9,11,13,15) by metis
  show ?thesis
    unfolding route_sys_inv_def
  proof (intro conjI; (intro allI ballI impI)?; (elim conjE)?)
    show "\<exists>new. is' = new @ base"
      using i(2) g(2) by (metis append_Cons)
    show "pc_ok base (rtbl \<lparr>rtbl = st', rpcs = (rpcs s)(t := pc')\<rparr>) is' (rpcs \<lparr>rtbl = st', rpcs = (rpcs s)(t := pc')\<rparr> u)" for u
      using g(3) step_keeps_others [OF inv good] by simp
  qed (use g(1,4,12,14) new_is oth crit i(8,11) in \<open>auto split: if_splits\<close>)
qed

lemma inv_local: "route_sys_inv base is s \<Longrightarrow> local_inv base (rtbl s) is (rpcs s t)"
  using route_sys_invD [of base "is" s] unfolding local_inv_def by blast

lemma route_thread_inv:
  assumes "route_thread t s s'" "route_sys_inv base is s"
  shows "\<exists>is'. route_sys_inv base is' s' \<and> (is' = is \<or> (\<exists>n. n \<notin> set is \<and> is' = n # is))
    \<and> (\<forall>j\<in>set is. r_addr (routes (rtbl s') j) = r_addr (routes (rtbl s) j))"
proof -
  note i = route_sys_invD [OF assms(2)]
  note l = inv_local [OF assms(2), of t]
  have "\<exists>is' st' pc'. good_access base (rtbl s) is (rpcs s t) st' is' pc'
      \<and> s' = \<lparr>rtbl = st', rpcs = (rpcs s)(t := pc')\<rparr>"
    using assms(1)
  proof (cases rule: route_thread.cases)
    case (access malloc clk pc st)
    then show ?thesis
      using access_good [OF l] by metis
  next
    case (call job)
    then have "good_access base (rtbl s) is (rpcs s t) (rtbl s) is (ReadNext job)"
      using l by (auto intro: quiet_access)
    with call show ?thesis
      by (metis route_sys.surjective old.unit.exhaust route_sys.update_convs(2))
  next
    case (finish r)
    then have "good_access base (rtbl s) is (rpcs s t) (rtbl s) is Ready"
      using l by (auto intro: quiet_access)
    with finish show ?thesis
      by (metis route_sys.surjective old.unit.exhaust route_sys.update_convs(2))
  qed
  then obtain is' st' pc' where good: "good_access base (rtbl s) is (rpcs s t) st' is' pc'"
    and s': "s' = \<lparr>rtbl = st', rpcs = (rpcs s)(t := pc')\<rparr>"
    by blast
  have "\<forall>j\<in>set is. r_addr (routes st' j) = r_addr (routes (rtbl s) j)"
    using good_accessD(7) [OF good] inv_valid [OF assms(2)] by blast
  then show ?thesis
    using step_inv [OF assms(2) good] good_accessD(2) [OF good] i(6) s' by auto
qed

lemma route_start_inv:
  assumes "route_sys_start base s"
  shows "route_sys_inv base base s"
  using assms ring_chain [of "rtbl s" base]
  by (auto simp: route_sys_start_def table_def route_sys_inv_def)

definition addrs_of :: "nat list \<Rightarrow> rtable \<Rightarrow> u16 list" where
  "addrs_of base st = map (\<lambda>k. r_addr (routes st k)) base"

lemma route_thread_addrs:
  assumes "route_thread t s s'" "route_sys_inv base is s"
  shows "addrs_of base (rtbl s') = addrs_of base (rtbl s)"
  using route_thread_inv [OF assms] route_sys_invD(3) [OF assms(2)] by (auto simp: addrs_of_def)

text \<open>The contract of a step relation, interpreted on the threads: what the table holds at the start
  (\<open>base\<close>, with the addresses \<open>as\<close>) it keeps.\<close>

interpretation route_threads: step_invariant
    "\<lambda>s. route_sys_start base s \<and> addrs_of base (rtbl s) = as" route_sys_step
    "\<lambda>s. (\<exists>is. route_sys_inv base is s) \<and> addrs_of base (rtbl s) = as" for base as
proof
  show "(\<exists>is. route_sys_inv base is s) \<and> addrs_of base (rtbl s) = as"
    if "route_sys_start base s \<and> addrs_of base (rtbl s) = as" for s
    using that route_start_inv by blast
next
  show "(\<exists>is. route_sys_inv base is s') \<and> addrs_of base (rtbl s') = as"
    if "route_sys_step s s'" "(\<exists>is. route_sys_inv base is s) \<and> addrs_of base (rtbl s) = as" for s s'
    using that route_thread_inv route_thread_addrs unfolding route_sys_step_def by metis
qed

lemma route_reachable:
  assumes "route_sys_start base s" "rtranclp route_sys_step s s'"
  obtains "is" where "route_sys_inv base is s'" and "addrs_of base (rtbl s') = addrs_of base (rtbl s)"
  using route_threads.inv_reachable [of base s "addrs_of base (rtbl s)" s'] assms by blast

subsection \<open>A search ends, whatever the others do\<close>

fun in_loop :: "route_pc \<Rightarrow> bool" where
  "in_loop (Visit job c) = True"
| "in_loop (Peek job i) = True"
| "in_loop (Advance job i) = True"
| "in_loop _ = False"

text \<open>\<open>search_run t n s s'\<close>: a run from \<open>s\<close> to \<open>s'\<close> in which thread \<open>t\<close> makes \<open>n\<close> accesses and is in
  its loop after each of them; the others make any steps in between.\<close>

inductive search_run :: "nat \<Rightarrow> nat \<Rightarrow> route_sys \<Rightarrow> route_sys \<Rightarrow> bool" for t where
  search_start: "search_run t 0 s s"
| search_own: "search_run t n s s1 \<Longrightarrow> route_thread t s1 s' \<Longrightarrow> in_loop (rpcs s' t) \<Longrightarrow>
     search_run t (Suc n) s s'"
| search_other: "search_run t n s s1 \<Longrightarrow> route_thread u s1 s' \<Longrightarrow> u \<noteq> t \<Longrightarrow> search_run t n s s'"

definition behind :: "nat list \<Rightarrow> nat \<Rightarrow> nat" where
  "behind is i = length (tl (dropWhile (\<lambda>j. j \<noteq> i) is))"

lemma behind_append: "i \<notin> set xs \<Longrightarrow> behind (xs @ i # ys) i = length ys"
  by (induction xs) (auto simp: behind_def)

lemma behind_Cons: "n \<notin> set is \<Longrightarrow> i \<in> set is \<Longrightarrow> behind (n # is) i = behind is i"
  by (auto simp: behind_def)

fun rank :: "nat list \<Rightarrow> route_pc \<Rightarrow> nat" where
  "rank is (Visit job (Some (RNode i))) = 3 * behind is i + 2"
| "rank is (Peek job i) = 3 * behind is i + 1"
| "rank is (Advance job i) = 3 * behind is i"
| "rank is _ = 0"

lemma rank_bound: "pc_ok base st is pc \<Longrightarrow> rank is pc < 3 * length is \<or> rank is pc = 0"
proof -
  have "3 * behind is i + 2 < 3 * length is" if "i \<in> set is" for i
    using split_list_first [OF that] by (auto simp: behind_append)
  then show "pc_ok base st is pc \<Longrightarrow> rank is pc < 3 * length is \<or> rank is pc = 0"
    by (induction "is" pc rule: rank.induct) (fastforce simp: cursor_ok_def)+
qed

lemma rank_advance:
  assumes "chain st is" "i \<in> set is" "lnext (r_links st) (RNode i) = Some (RNode k)"
  shows "behind is i = Suc (behind is k)"
proof -
  obtain xs ys where xs: "is = xs @ i # ys" "i \<notin> set xs"
    using split_list_first [OF assms(2)] by blast
  have "Some (first_of ys) = Some (RNode k)"
    using chain_next [of st xs i ys] assms(1,3) xs(1) by simp
  then obtain zs where zs: "ys = k # zs"
    by (cases ys) auto
  have "k \<notin> set (xs @ [i])"
    using assms(1) xs zs by (auto simp: chain_def)
  then show ?thesis
    using behind_append [of k "xs @ [i]" zs] behind_append [of i xs ys] xs zs by simp
qed

lemma in_loop_access:
  assumes "chain st is" "pc_ok base st is pc" "in_loop pc" "in_loop pc'"
    and "route_access malloc clk pc st = Some (pc', st')"
  shows "rank is pc' < rank is pc \<and> st' = st"
  using assms(3)
proof (cases pc rule: in_loop.cases)
  case (1 job c)
  then show ?thesis
    using assms by (auto simp: visit_def cursor_ok_def chain_def split: if_splits)
next
  case (2 job i)
  then show ?thesis
    using assms chain_simps(3) [OF assms(1), of i] by (auto simp: read_link_def split: if_splits)
next
  case (3 job i)
  then have "i \<in> set is" and n: "lnext (r_links st) (RNode i) \<noteq> Some RHead"
    using assms(2) by auto
  moreover have "cursor_ok base is (lnext (r_links st) (RNode i))"
    using pc_ok_advance [OF assms(1), of base job i] assms(2) 3 by simp
  ultimately obtain k where "lnext (r_links st) (RNode i) = Some (RNode k)"
    by (auto simp: cursor_ok_def)
  then show ?thesis
    using 3 assms chain_simps(3) [OF assms(1), of i] rank_advance [OF assms(1), of i k]
    by (auto simp: read_link_def)
qed auto

lemma search_run_rank:
  assumes "search_run t n s s'" "route_sys_inv base is s" "in_loop (rpcs s t)"
  shows "\<exists>is'. route_sys_inv base is' s' \<and> in_loop (rpcs s' t) \<and> rank is' (rpcs s' t) + n \<le> rank is (rpcs s t)"
  using assms
proof (induction rule: search_run.induct)
  case (search_start s)
  then show ?case by auto
next
  case (search_own n s s1 s')
  then obtain is1 where i1: "route_sys_inv base is1 s1" "in_loop (rpcs s1 t)"
    "rank is1 (rpcs s1 t) + n \<le> rank is (rpcs s t)"
    by blast
  note d = route_sys_invD [OF i1(1)]
  obtain malloc clk pc' st' where a: "route_access malloc clk (rpcs s1 t) (rtbl s1) = Some (pc', st')"
    "s' = \<lparr>rtbl = st', rpcs = (rpcs s1)(t := pc')\<rparr>"
    using search_own.hyps(2) i1(2) by (cases rule: route_thread.cases) auto
  have "rank is1 pc' < rank is1 (rpcs s1 t) \<and> st' = rtbl s1"
    using in_loop_access [OF d(1) d(5) i1(2) _ a(1)] search_own.hyps(3) a(2) by simp
  moreover have "searching (rpcs s1 t)"
    using i1(2) by (cases "rpcs s1 t") auto
  then have "route_sys_inv base is1 s'"
    using step_inv [OF i1(1) good_search [OF inv_local [OF i1(1)] _ a(1)]] a(2) by simp
  ultimately show ?case
    using i1(3) search_own.hyps(3) a(2) by (intro exI [of _ is1]) auto
next
  case (search_other n s s1 u s')
  then obtain is1 where i1: "route_sys_inv base is1 s1" "in_loop (rpcs s1 t)"
    "rank is1 (rpcs s1 t) + n \<le> rank is (rpcs s t)"
    by blast
  obtain is' where i': "route_sys_inv base is' s'" "is' = is1 \<or> (\<exists>n. n \<notin> set is1 \<and> is' = n # is1)"
    using route_thread_inv [OF search_other.hyps(2) i1(1)] by blast
  have same: "rpcs s' t = rpcs s1 t"
    using search_other.hyps(2,3) by (cases rule: route_thread.cases) auto
  have "rank is' pc = rank is1 pc" if "pc_ok base (rtbl s1) is1 pc" for pc
    using that i'(2) by (induction is1 pc rule: rank.induct) (auto simp: cursor_ok_def behind_Cons)
  with i1 i'(1) same route_sys_invD(5) [OF i1(1)] show ?case
    by metis
qed

lemma in_loop_progress: "in_loop (rpcs s t) \<Longrightarrow> \<exists>s'. route_thread t s s'"
proof -
  assume "in_loop (rpcs s t)"
  then have "route_access None None (rpcs s t) (rtbl s) \<noteq> None"
    by (cases "rpcs s t") auto
  then obtain pc st where "route_access None None (rpcs s t) (rtbl s) = Some (pc, st)"
    by auto
  then show ?thesis
    using access by blast
qed

subsection \<open>One thread alone\<close>

text \<open>At most \<open>n\<close> accesses of one thread, with no other thread in between.\<close>

fun drive :: "nat \<Rightarrow> nat option \<Rightarrow> timespec option \<Rightarrow> route_pc \<times> rtable \<Rightarrow> route_pc \<times> rtable" where
  "drive 0 malloc clk x = x"
| "drive (Suc n) malloc clk (pc, st) =
     (case route_access malloc clk pc st of None \<Rightarrow> (pc, st) | Some x \<Rightarrow> drive n malloc clk x)"

lemma drive_add: "drive (m + n) malloc clk x = drive n malloc clk (drive m malloc clk x)"
proof (induction m arbitrary: x)
  case (Suc m)
  obtain pc st where x: "x = (pc, st)" by (cases x)
  have "route_access malloc clk pc st = None \<Longrightarrow> drive n malloc clk (pc, st) = (pc, st)"
    by (cases n) auto
  with Suc x show ?case
    by (auto split: option.split)
qed simp

lemma route_sys_same: "pc = rpcs s t \<Longrightarrow> st = rtbl s \<Longrightarrow> \<lparr>rtbl = st, rpcs = (rpcs s)(t := pc)\<rparr> = s"
  by simp

text \<open>A thread that is alone makes steps of the system.\<close>

lemma drive_steps:
  assumes "drive n malloc clk (rpcs s t, rtbl s) = (pc, st)" "malloc = None"
  shows "rtranclp route_sys_step s \<lparr>rtbl = st, rpcs = (rpcs s)(t := pc)\<rparr>"
  using assms
proof (induction n arbitrary: s)
  case (Suc n)
  show ?case
  proof (cases "route_access malloc clk (rpcs s t) (rtbl s)")
    case (Some x)
    then obtain pc1 st1 where x: "route_access malloc clk (rpcs s t) (rtbl s) = Some (pc1, st1)"
      by (cases x) auto
    let ?s1 = "\<lparr>rtbl = st1, rpcs = (rpcs s)(t := pc1)\<rparr>"
    have "route_sys_step s ?s1"
      using access [OF x] Suc.prems(2) unfolding route_sys_step_def by blast
    moreover have u: "(rpcs ?s1)(t := pc) = (rpcs s)(t := pc)"
      by (simp add: fun_eq_iff)
    have "rtranclp route_sys_step ?s1 \<lparr>rtbl = st, rpcs = (rpcs ?s1)(t := pc)\<rparr>"
      using Suc.prems x by (intro Suc.IH) simp_all
    then have "rtranclp route_sys_step ?s1 \<lparr>rtbl = st, rpcs = (rpcs s)(t := pc)\<rparr>"
      unfolding u .
    ultimately show ?thesis
      by (rule converse_rtranclp_into_rtranclp)
  next
    case None
    then have "pc = rpcs s t" "st = rtbl s"
      using Suc.prems by auto
    show ?thesis
      unfolding route_sys_same [OF \<open>pc = _\<close> \<open>st = _\<close>] by (rule rtranclp.rtrancl_refl)
  qed
next
  case 0
  then have "pc = rpcs s t" "st = rtbl s"
    by auto
  show ?case
    unfolding route_sys_same [OF \<open>pc = _\<close> \<open>st = _\<close>] by (rule rtranclp.rtrancl_refl)
qed

lemma call_drive:
  assumes "rpcs s t = Ready" "drive n None clk (ReadNext job, rtbl s) = (pc, st)"
  shows "rtranclp route_sys_step s \<lparr>rtbl = st, rpcs = (rpcs s)(t := pc)\<rparr>"
proof -
  let ?s = "s\<lparr>rpcs := (rpcs s)(t := ReadNext job)\<rparr>"
  have "route_sys_step s ?s"
    using call [of s t job] assms(1) unfolding route_sys_step_def by blast
  moreover have "rtranclp route_sys_step ?s \<lparr>rtbl = st, rpcs = (rpcs ?s)(t := pc)\<rparr>"
    using assms(2) by (intro drive_steps) simp_all
  moreover have "(rpcs ?s)(t := pc) = (rpcs s)(t := pc)"
    by (simp add: fun_eq_iff)
  ultimately show ?thesis
    by (metis converse_rtranclp_into_rtranclp)
qed

lemma drive_loop:
  assumes "chain st (xs @ i # ys)" 
  shows "\<exists>n. drive n malloc clk (Visit job (Some (RNode i)), st)
    = (case find (\<lambda>i. r_addr (routes st i) = job_addr job) (i # ys) of
         None \<Rightarrow> Missing job | Some j \<Rightarrow> Hit job j, st)"
  using assms
proof (induction ys arbitrary: xs i)
  case Nil
  note c = chain_simps [OF Nil] and n = chain_next [OF Nil]
  show ?case
  proof (cases "r_addr (routes st i) = job_addr job")
    case True
    then show ?thesis
      using c(4) [of i] by (intro exI [of _ 1]) (simp add: visit_def del: deref.simps)
  next
    case False
    then have "drive 2 malloc clk (Visit job (Some (RNode i)), st) = (Missing job, st)"
      using c(3,4) [of i] n by (simp add: visit_def numeral_2_eq_2 read_link_def del: deref.simps)
    with False show ?thesis by (intro exI [of _ 2]) simp
  qed
next
  case (Cons k ys)
  note c = chain_simps [OF Cons.prems] and n = chain_next [OF Cons.prems]
  show ?case
  proof (cases "r_addr (routes st i) = job_addr job")
    case True
    then show ?thesis
      using c(4) [of i] by (intro exI [of _ 1]) (simp add: visit_def del: deref.simps)
  next
    case False
    then have 3: "drive 3 malloc clk (Visit job (Some (RNode i)), st) = (Visit job (Some (RNode k)), st)"
      using c(3,4) [of i] n by (simp add: visit_def numeral_3_eq_3 read_link_def del: deref.simps)
    obtain m where "drive m malloc clk (Visit job (Some (RNode k)), st)
      = (case find (\<lambda>i. r_addr (routes st i) = job_addr job) (k # ys) of
         None \<Rightarrow> Missing job | Some j \<Rightarrow> Hit job j, st)"
      using Cons.IH [of "xs @ [i]" k] Cons.prems by auto
    with 3 False show ?thesis
      by (intro exI [of _ "3 + m"]) (simp add: drive_add)
  qed
qed

lemma drive_search:
  assumes "table st is"
  shows "\<exists>n. drive n malloc clk (ReadNext job, st)
    = (case hit st is (job_addr job) of None \<Rightarrow> Missing job | Some j \<Rightarrow> Hit job j, st)"
proof -
  have c: "chain st is" and r: "ring (r_links st) RHead (map RNode is)"
    using assms ring_chain by (auto simp: table_def)
  note s = chain_simps(1,2) [OF c]
  have e: "Some (first_of is) = lprev (r_links st) RHead \<longleftrightarrow> length is \<le> 1"
    using ring_ends_eq [OF r] c by (auto simp: chain_def)
  show ?thesis
  proof (cases "length is \<le> 1")
    case True
    then have "drive 2 malloc clk (ReadNext job, st) = (Missing job, st)"
      using s e by (simp add: numeral_2_eq_2 read_link_def)
    with True show ?thesis
      by (intro exI [of _ 2]) (simp add: hit_def)
  next
    case False
    then obtain i ys where i: "is = [] @ i # ys"
      by (cases "is") auto
    have 3: "drive 3 malloc clk (ReadNext job, st) = (Visit job (Some (RNode i)), st)"
      using s e False i by (simp add: numeral_3_eq_3 read_link_def)
    obtain m where "drive m malloc clk (Visit job (Some (RNode i)), st)
      = (case find (\<lambda>i. r_addr (routes st i) = job_addr job) (i # ys) of
         None \<Rightarrow> Missing job | Some j \<Rightarrow> Hit job j, st)"
      using drive_loop [of st "[]" i ys malloc clk job] c i by auto
    with 3 False i show ?thesis
      by (intro exI [of _ "3 + m"]) (simp add: drive_add hit_def)
  qed
qed

definition alloc_route :: "nat \<Rightarrow> timespec option \<Rightarrow> nat option \<Rightarrow> u16 \<Rightarrow> rtable \<Rightarrow> rtable" where
  "alloc_route i clk iface a st =
     st\<lparr>r_links := (r_links st)\<lparr>lvalid := (lvalid (r_links st))(RNode i := True)\<rparr>,
        routes := (routes st)(i := fresh_route st i iface a clk)\<rparr>"

lemma access_alloc:
  "route_access (Some i) clk (Missing (AddJob iface a speed)) st = Some (LockNew iface i, alloc_route i clk iface a st)"
  by (simp add: alloc_route_def fresh_route_def)

lemma drive_insert:
  assumes "table st is" "i \<notin> set is"
  shows "\<exists>st'. (\<forall>m c. drive 8 m c (LockNew iface i, alloc_route i clk iface a st) =
        (if iface = None then NoName else Return (Code LSP_ERR_NONE), st'))
    \<and> table st' (i # is) \<and> routes st' = (routes st)(i := fresh_route st i iface a clk)
    \<and> lvalid (r_links st') = (lvalid (r_links st))(RNode i := True)
    \<and> (hit st is a = None \<longrightarrow> lsp_route_add (Some i) clk iface a speed st =
        (if iface = None then Fault NullDeref else Done (LSP_ERR_NONE, st')))"
proof -
  let ?st = "alloc_route i clk iface a st"
  have c: "chain st is" and m: "\<not> rtable_mutex st"
    using assms(1) ring_chain by (auto simp: table_def)
  then have v: "lvalid (r_links st) RHead" "lvalid (r_links st) (first_of is)"
    "lnext (r_links st) RHead = Some (first_of is)"
    using first_of_cases [of "is"] by (auto simp: chain_def)
  have "ring (r_links ?st) RHead (map RNode is)"
    using assms(1) ring_lvalid [of "r_links st" RHead "map RNode is" "RNode i"]
    by (simp add: table_def alloc_route_def)
  then obtain h where h: "lsp_list_add (Some (RNode i)) (Some RHead) (r_links ?st) = Done h"
    "ring h RHead (map RNode (i # is))" "lvalid h = lvalid (r_links ?st)"
    using lsp_list_add_inserts [of "r_links ?st" RHead "map RNode is" "RNode i"] assms(2)
    by (auto simp: alloc_route_def inserts_def same_outside_def)
  let ?st' = "?st\<lparr>r_links := h, rtable_mutex := False\<rparr>"
  have "drive 8 m c (LockNew iface i, ?st) = (if iface = None then NoName else Return (Code LSP_ERR_NONE), ?st')" for m c
    using v m h(1) by (auto simp: alloc_route_def lsp_list_add_def lsp_list_add_between_def link_defs
        read_link_def write_link_def eval_nat_numeral)
  moreover have "lsp_route_add (Some i) clk iface a speed st =
      (if iface = None then Fault NullDeref else Done (LSP_ERR_NONE, ?st'))" if "hit st is a = None"
    using m h(1) that route_cursor_table [OF assms(1), of a]
    by (auto simp: lsp_route_add_def rtable_lock_def rtable_unlock_def alloc_route_def fresh_route_def log_ifname_def)
  ultimately show ?thesis
    using h(2,3) by (intro exI [of _ ?st']) (simp add: table_def alloc_route_def)
qed

text \<open>What the accesses of a thread alone have to do with the call: they end with its result, or where it faults.\<close>

definition ends_as :: "route_pc \<times> rtable \<Rightarrow> (int \<times> rtable) exec \<Rightarrow> nat option \<Rightarrow> bool" where
  "ends_as x r iface \<longleftrightarrow> (case r of
       Done (rc, st') \<Rightarrow> x = (Return (Code rc), st')
     | Fault e \<Rightarrow> e = NullDeref \<and> iface = None \<and> fst x = NoName
     | Hang \<Rightarrow> False)"

lemma drive_known:
  assumes "table st is" "hit st is a = Some j"
  shows "\<exists>n. ends_as (drive n malloc clk (Hit (AddJob iface a speed) j, st)) (lsp_route_add malloc clk iface a speed st) iface"
proof (cases "int_to_u32 speed < r_linkspeed (routes st j)")
  case True
  then show ?thesis
    using assms(1) route_cursor_table [OF assms(1), of a] assms(2)
    by (intro exI [of _ 7]) (simp add: lsp_route_add_def rtable_lock_def rtable_unlock_def table_def
        eval_nat_numeral Let_def log_ifname_def ends_as_def)
next
  case False
  then show ?thesis
    using route_cursor_table [OF assms(1), of a] assms(2)
    by (intro exI [of _ 1]) (simp add: lsp_route_add_def ends_as_def)
qed

lemma alone_find:
  assumes "table st is"
  shows "\<exists>n r. drive n malloc clk (ReadNext (FindJob a), st) = (Return (Iface r), st)
    \<and> lsp_route_find a st = Done r"
proof -
  obtain n where "drive n malloc clk (ReadNext (FindJob a), st)
    = (case hit st is a of None \<Rightarrow> Missing (FindJob a) | Some j \<Rightarrow> Hit (FindJob a) j, st)"
    using drive_search [OF assms, of malloc clk "FindJob a"] by auto
  then show ?thesis
    by (intro exI [of _ "n + 1"])
       (simp only: drive_add, simp add: route_find_table [OF assms] split: option.split)
qed

lemma alone_add:
  assumes "table st is" "\<And>i. malloc = Some i \<Longrightarrow> i \<notin> set is"
  shows "\<exists>n. ends_as (drive n malloc clk (ReadNext (AddJob iface a speed), st)) (lsp_route_add malloc clk iface a speed st) iface"
proof -
  let ?job = "AddJob iface a speed"
  obtain m where m: "drive m malloc clk (ReadNext ?job, st)
    = (case hit st is a of None \<Rightarrow> Missing ?job | Some j \<Rightarrow> Hit ?job j, st)"
    using drive_search [OF assms(1), of malloc clk ?job] by auto
  have "\<exists>k. ends_as (drive k malloc clk (case hit st is a of None \<Rightarrow> Missing ?job | Some j \<Rightarrow> Hit ?job j, st))
      (lsp_route_add malloc clk iface a speed st) iface"
  proof (cases "hit st is a")
    case None
    show ?thesis
    proof (cases malloc)
      case (Some i)
      obtain st' where "drive 8 (Some i) clk (LockNew iface i, alloc_route i clk iface a st) =
          (if iface = None then NoName else Return (Code LSP_ERR_NONE), st')"
        "lsp_route_add (Some i) clk iface a speed st =
          (if iface = None then Fault NullDeref else Done (LSP_ERR_NONE, st'))"
        using drive_insert [OF assms(1), where i = i and clk = clk and iface = iface and a = a and speed = speed] assms(2) Some None by blast
      then have "ends_as (drive (Suc 8) (Some i) clk (Missing ?job, st)) (lsp_route_add (Some i) clk iface a speed st) iface"
        by (simp only: drive.simps access_alloc option.case) (simp add: ends_as_def)
      then show ?thesis
        unfolding None Some option.case by blast
    qed (use route_add_nomem [OF assms(1) None] None in \<open>auto simp: ends_as_def intro!: exI [of _ 1]\<close>)
  next
    case (Some j)
    then show ?thesis
      using drive_known [OF assms(1) Some, of malloc clk iface speed] by auto
  qed
  with m show ?thesis
    by (metis drive_add)
qed

subsection \<open>Properties\<close>

text \<open>Two routes, to the addresses 2 and 1.\<close>

definition route_sys_two :: route_sys where
  "route_sys_two =
     \<lparr>rtbl = \<lparr>r_links = \<lparr>lnext = (\<lambda>_. None)(RHead := Some (RNode 1), RNode 1 := Some (RNode 0), RNode 0 := Some RHead),
                         lprev = (\<lambda>_. None)(RHead := Some (RNode 0), RNode 0 := Some (RNode 1), RNode 1 := Some RHead),
                         lvalid = (\<lambda>n. n \<in> {RHead, RNode 0, RNode 1})\<rparr>,
              routes = (\<lambda>i. \<lparr>r_iface = Some (7 + i), r_addr = of_nat i + 1, r_linkspeed = 5, r_timestamp = 0\<rparr>),
              rtable_mutex = False\<rparr>,
      rpcs = (\<lambda>_. Ready)\<rparr>"

lemma route_sys_two_start: "route_sys_start [1, 0] route_sys_two"
  by (simp add: route_sys_start_def table_def route_sys_two_def ring_def)

lemma two_table: "table (rtbl route_sys_two) [1, 0]"
  using route_sys_two_start by (simp add: route_sys_start_def)

text \<open>Thread 1 of the example searches alone and stops where the address is.\<close>

definition route_sys_hit :: route_sys where
  "route_sys_hit = route_sys_two\<lparr>rpcs := (\<lambda>_. Ready)(1 := Visit (FindJob 1) (Some (RNode 1)))\<rparr>"

lemma route_sys_hit_reachable: "rtranclp route_sys_step route_sys_two route_sys_hit"
proof -
  have "drive 3 None None (ReadNext (FindJob 1), rtbl route_sys_two)
    = (Visit (FindJob 1) (Some (RNode 1)), rtbl route_sys_two)"
    by (simp add: eval_nat_numeral read_link_def link_defs route_sys_two_def)
  with call_drive [of route_sys_two 1] have "rtranclp route_sys_step route_sys_two
      \<lparr>rtbl = rtbl route_sys_two, rpcs = (rpcs route_sys_two)(1 := Visit (FindJob 1) (Some (RNode 1)))\<rparr>"
    by (simp add: route_sys_two_def)
  then show ?thesis
    by (simp add: route_sys_hit_def route_sys_two_def)
qed

text \<open>
  C4. The table under concurrency. In every run of any number of threads, whatever the order of
  their accesses: the routes of the start stay on the list and new ones are only put in front; the
  chain of \<open>next\<close> links is intact at every moment, and between two insertions the list is a ring
  again; at most one thread is in the critical section; and no access to the table is undefined, provided it
  was not empty at the start. (The log of a call with the interface NULL is, see \<open>NoName\<close>.)
\<close>

theorem concurrent_table:
  assumes "route_sys_start base s" and "rtranclp route_sys_step s s'"
  shows "\<exists>new. chain (rtbl s') (new @ base)
    \<and> (\<not> rtable_mutex (rtbl s') \<longrightarrow> ring (r_links (rtbl s')) RHead (map RNode (new @ base)))
    \<and> (\<forall>t u. critical (rpcs s' t) \<and> critical (rpcs s' u) \<longrightarrow> t = u)
    \<and> (\<forall>t e. rpcs s' t = Crash e \<longrightarrow> base = [] \<and> e = OutOfBounds)"
proof -
  obtain "is" where inv: "route_sys_inv base is s'"
    using route_reachable [OF assms] .
  note d = route_sys_invD [OF inv]
  have "base = [] \<and> e = OutOfBounds" if "rpcs s' t = Crash e" for t e
    using d(5) [of t] that by simp
  then show ?thesis
    using d(1,2,11,12) chain_ring by blast
qed

theorem concurrent_table_witness:
  "\<exists>new. chain (rtbl route_sys_hit) (new @ [1, 0])"
  using concurrent_table [OF route_sys_two_start route_sys_hit_reachable] by blast

text \<open>
  C22. No search misses what was there: with two routes or more at the start, a search whose loop
  ends without a hit, at any time in any run, was for an address that none of these routes has.
  So no thread adds a second route to an address the table held at the start.
\<close>

theorem concurrent_search_complete:
  assumes "route_sys_start base s" and "rtranclp route_sys_step s s'" and "2 \<le> length base"
  shows "(\<forall>t job. rpcs s' t = Missing job \<longrightarrow> job_addr job \<notin> set (addrs_of base (rtbl s)))
    \<and> (\<exists>new. chain (rtbl s') (new @ base)
        \<and> set (addrs_of new (rtbl s')) \<inter> set (addrs_of base (rtbl s)) = {})"
proof -
  obtain "is" where inv: "route_sys_inv base is s'" and a: "addrs_of base (rtbl s') = addrs_of base (rtbl s)"
    using route_reachable [OF assms(1,2)] .
  note d = route_sys_invD [OF inv]
  have none: "none_at base (rtbl s') x base \<Longrightarrow> x \<notin> set (addrs_of base (rtbl s))" for x
    unfolding a [symmetric] by (auto simp: none_at_def addrs_of_def)
  obtain new where new: "is = new @ base"
    using d(2) by blast
  have "r_addr (routes (rtbl s') i) \<notin> set (addrs_of base (rtbl s))" if "i \<in> set new" for i
    using d(1) d(4) [of i] that new assms(3) none by (auto simp: chain_def new_ok_def)
  moreover have "job_addr job \<notin> set (addrs_of base (rtbl s))" if "rpcs s' t = Missing job" for t job
    using d(5) [of t] that assms(3) none by simp
  ultimately show ?thesis
    using d(1) new by (auto simp: addrs_of_def)
qed

theorem concurrent_search_complete_witness:
  "\<exists>s'. rtranclp route_sys_step route_sys_two s' \<and> rpcs s' 1 = Missing (FindJob 3)
     \<and> 3 \<notin> set (addrs_of [1, 0] (rtbl route_sys_two))"
proof -
  have "hit (rtbl route_sys_two) [1, 0] 3 = None"
    by (simp add: hit_def route_sys_two_def)
  then obtain n where "drive n None None (ReadNext (FindJob 3), rtbl route_sys_two) = (Missing (FindJob 3), rtbl route_sys_two)"
    using drive_search [OF two_table, of None None "FindJob 3"] by auto
  then obtain s' where r: "rtranclp route_sys_step route_sys_two s'" and p: "rpcs s' 1 = Missing (FindJob 3)"
    using call_drive [of route_sys_two 1] by (fastforce simp: route_sys_two_def)
  have "\<forall>t job. rpcs s' t = Missing job \<longrightarrow> job_addr job \<notin> set (addrs_of [1, 0] (rtbl route_sys_two))"
    using concurrent_search_complete [OF route_sys_two_start r] by simp
  with p have "job_addr (FindJob 3) \<notin> set (addrs_of [1, 0] (rtbl route_sys_two))"
    by blast
  with r p show ?thesis by auto
qed

text \<open>
  C23. A search ends, whatever the others do. From the moment its cursor is set, a search makes at most
  three accesses in its loop for each route that is then on the table, however many routes the
  other threads put in front meanwhile and in whatever order all of them run; and it can always
  make the next one: it never waits for the mutex.
\<close>

theorem search_wait_free:
  assumes "route_sys_start base s0" and "rtranclp route_sys_step s0 s"
    and "in_loop (rpcs s t)" and "search_run t n s s'"
  shows "\<exists>is. chain (rtbl s) is \<and> n \<le> 3 * length is \<and> (\<exists>s''. route_thread t s' s'')"
proof -
  obtain "is" where inv: "route_sys_inv base is s"
    using route_reachable [OF assms(1,2)] .
  then obtain is' where "in_loop (rpcs s' t)" "rank is' (rpcs s' t) + n \<le> rank is (rpcs s t)"
    using search_run_rank [OF assms(4) _ assms(3)] by blast
  moreover have "rank is (rpcs s t) \<le> 3 * length is"
    using rank_bound [OF route_sys_invD(5) [OF inv], of t] by auto
  ultimately show ?thesis
    using route_sys_invD(1) [OF inv] in_loop_progress by (intro exI [of _ "is"]) auto
qed

theorem search_wait_free_witness:
  "\<exists>is s''. chain (rtbl route_sys_hit) is \<and> route_thread 1 route_sys_hit s''"
  using search_wait_free [OF route_sys_two_start route_sys_hit_reachable, of 1 0 route_sys_hit]
    search_start [of 1 route_sys_hit] by (auto simp: route_sys_hit_def)

text \<open>
  C24. A thread that runs alone does what the sequential definitions say: from the start of the call
  it returns after finitely many accesses, \<open>lsp_route_find\<close> with the same interface and the table
  unchanged, \<open>lsp_route_add\<close> with the same code and the same table; or the log of \<open>lsp_route_add\<close> follows the interface
  NULL in both.
\<close>

theorem alone_is_sequential:
  assumes "table st is" and "malloc \<in> insert None (Some ` (- set is))"
  shows "(\<exists>n r. drive n malloc clk (ReadNext (FindJob a), st) = (Return (Iface r), st)
        \<and> lsp_route_find a st = Done r)
    \<and> (\<exists>n. case lsp_route_add malloc clk iface a speed st of
          Done (rc, st') \<Rightarrow> drive n malloc clk (ReadNext (AddJob iface a speed), st) = (Return (Code rc), st')
        | Fault e \<Rightarrow> e = NullDeref \<and> iface = None
            \<and> fst (drive n malloc clk (ReadNext (AddJob iface a speed), st)) = NoName
        | Hang \<Rightarrow> False)"
  using alone_find [OF assms(1)] alone_add [OF assms(1), of malloc clk iface a speed] assms(2)
  unfolding ends_as_def by blast

theorem alone_is_sequential_witness:
  "\<exists>n rc st'. drive n (Some 2) None (ReadNext (AddJob (Some 4) 3 9), rtbl route_sys_two) = (Return (Code rc), st')
     \<and> lsp_route_add (Some 2) None (Some 4) 3 9 (rtbl route_sys_two) = Done (rc, st')"
  using alone_is_sequential [OF two_table, of "Some 2" None 3 "Some 4" 9]
  by (cases "lsp_route_add (Some 2) None (Some 4) 3 9 (rtbl route_sys_two)") auto

lemma empty_table_race:
  assumes "route_sys_start [] s" "\<not> lvalid (r_links (rtbl s)) (RNode i)"
  shows "\<exists>s'. rtranclp route_sys_step s s' \<and> rpcs s' 1 = Crash OutOfBounds"
proof -
  have t: "table (rtbl s) []" and rp: "rpcs s = (\<lambda>_. Ready)"
    using assms(1) by (auto simp: route_sys_start_def)
  let ?l = "r_links (rtbl s)" and ?st = "alloc_route i None (Some 0) 0 (rtbl s)"
  have l: "lnext ?l RHead = Some RHead" "lprev ?l RHead = Some RHead" "lvalid ?l RHead" "\<not> rtable_mutex (rtbl s)"
    using t by (auto simp: table_def ring_def)
  let ?st2 = "?st\<lparr>r_links := (r_links ?st)\<lparr>lprev := (lprev ?l)(RHead := Some (RNode i))\<rparr>, rtable_mutex := True\<rparr>"
  let ?s1 = "\<lparr>rtbl = rtbl s, rpcs = (rpcs s)(0 := Missing (AddJob (Some 0) 0 0))\<rparr>"
  let ?s2 = "\<lparr>rtbl = ?st, rpcs = (rpcs ?s1)(0 := LockNew (Some 0) i)\<rparr>"
  let ?s3 = "\<lparr>rtbl = ?st2, rpcs = (rpcs ?s2)(0 := SetNewNext (Some 0) i (Some RHead))\<rparr>"
  have 1: "rtranclp route_sys_step s ?s1"
    using l rp by (intro call_drive [of s 0 2 None "AddJob (Some 0) 0 0"])
      (simp_all add: eval_nat_numeral read_link_def link_defs)
  have 2: "route_sys_step ?s1 ?s2"
    using access [of "Some i" None ?s1 0 "LockNew (Some 0) i" ?st] assms(2) access_alloc [of i None "Some 0" 0 0 "rtbl s"]
    unfolding route_sys_step_def by auto
  have 3: "rtranclp route_sys_step ?s2 ?s3"
    using l by (intro drive_steps [of 3 None None]) (simp_all add: eval_nat_numeral read_link_def
        write_link_def link_defs alloc_route_def)
  have 4: "rtranclp route_sys_step ?s3 \<lparr>rtbl = ?st2, rpcs = (rpcs ?s3)(1 := Crash OutOfBounds)\<rparr>"
    using l rp by (intro call_drive [of ?s3 1 4 None "FindJob 0"]) (simp_all add: eval_nat_numeral read_link_def
        visit_def link_defs alloc_route_def)
  show ?thesis
    using rtranclp_trans [OF rtranclp.rtrancl_into_rtrancl [OF 1 2] rtranclp_trans [OF 3 4]]
    by (intro exI conjI, assumption) simp
qed

lemma add_after_search:
  assumes "table (rtbl s) is" "i \<notin> set is" "\<not> lvalid (r_links (rtbl s)) (RNode i)"
    and "rpcs s t = Missing (AddJob (Some f) a speed)"
  shows "\<exists>s'. rtranclp route_sys_step s s' \<and> table (rtbl s') (i # is) \<and> rpcs s' = (rpcs s)(t := Return (Code LSP_ERR_NONE))
    \<and> routes (rtbl s') = (routes (rtbl s))(i := fresh_route (rtbl s) i (Some f) a None)
    \<and> lvalid (r_links (rtbl s')) = (lvalid (r_links (rtbl s)))(RNode i := True)"
proof -
  let ?st = "alloc_route i None (Some f) a (rtbl s)"
  let ?s1 = "\<lparr>rtbl = ?st, rpcs = (rpcs s)(t := LockNew (Some f) i)\<rparr>"
  have 1: "route_sys_step s ?s1"
    using access [of "Some i" None s t "LockNew (Some f) i" ?st] assms(3,4) access_alloc [of i None "Some f" a speed "rtbl s"]
    unfolding route_sys_step_def by auto
  obtain st' where st': "drive 8 None None (LockNew (Some f) i, ?st) = (Return (Code LSP_ERR_NONE), st')"
    "table st' (i # is)" "routes st' = (routes (rtbl s))(i := fresh_route (rtbl s) i (Some f) a None)"
    "lvalid (r_links st') = (lvalid (r_links (rtbl s)))(RNode i := True)"
    using drive_insert [OF assms(1,2), where clk = None and iface = "Some f" and a = a and speed = speed]
    by (simp only: option.distinct if_False) blast
  have "rtranclp route_sys_step ?s1 \<lparr>rtbl = st', rpcs = (rpcs ?s1)(t := Return (Code LSP_ERR_NONE))\<rparr>"
    using st'(1) by (intro drive_steps) simp_all
  with 1 have "rtranclp route_sys_step s \<lparr>rtbl = st', rpcs = (rpcs ?s1)(t := Return (Code LSP_ERR_NONE))\<rparr>"
    (is "rtranclp _ _ ?s'") by (rule converse_rtranclp_into_rtranclp)
  then show ?thesis
    using st'(2-4) by (intro exI [of _ ?s'] conjI) simp_all
qed

lemma double_insertion:
  assumes "route_sys_start is s" "hit (rtbl s) is a = None" "i \<noteq> k"
    and "\<not> lvalid (r_links (rtbl s)) (RNode i)" "\<not> lvalid (r_links (rtbl s)) (RNode k)"
  shows "\<exists>s'. rtranclp route_sys_step s s' \<and> table (rtbl s') (k # i # is)
    \<and> r_addr (routes (rtbl s') k) = a \<and> r_addr (routes (rtbl s') i) = a"
proof -
  let ?job = "AddJob (Some 0) a 0"
  have t: "table (rtbl s) is" and rp: "rpcs s = (\<lambda>_. Ready)"
    using assms(1) by (auto simp: route_sys_start_def)
  have new: "i \<notin> set is" "k \<notin> set is"
    using table_fresh [OF t] assms(4,5) by auto
  obtain n where n: "drive n None None (ReadNext ?job, rtbl s) = (Missing ?job, rtbl s)"
    using drive_search [OF t, of None None ?job] assms(2) by auto
  let ?s1 = "\<lparr>rtbl = rtbl s, rpcs = (rpcs s)(0 := Missing ?job)\<rparr>"
  let ?s2 = "\<lparr>rtbl = rtbl s, rpcs = (rpcs ?s1)(1 := Missing ?job)\<rparr>"
  have "rtranclp route_sys_step s ?s1"
    by (rule call_drive [OF _ n]) (simp add: rp)
  moreover have "rtranclp route_sys_step ?s1 ?s2"
    by (rule call_drive [of ?s1 1 n None ?job]) (simp_all add: n rp)
  moreover obtain s3 where s3: "rtranclp route_sys_step ?s2 s3" "table (rtbl s3) (i # is)"
    "rpcs s3 = (rpcs ?s2)(0 := Return (Code LSP_ERR_NONE))"
    "routes (rtbl s3) = (routes (rtbl s))(i := fresh_route (rtbl s) i (Some 0) a None)"
    "lvalid (r_links (rtbl s3)) = (lvalid (r_links (rtbl s)))(RNode i := True)"
    using add_after_search [of ?s2 "is" i 0 0 a 0] t new(1) assms(4) by auto
  moreover obtain s4 where "rtranclp route_sys_step s3 s4" "table (rtbl s4) (k # i # is)"
    "routes (rtbl s4) = (routes (rtbl s3))(k := fresh_route (rtbl s3) k (Some 0) a None)"
    using add_after_search [of s3 "i # is" k 1 0 a 0] s3 new(2) assms(3,5) by auto
  ultimately show ?thesis
    using assms(3) by (intro exI [of _ s4]) (auto simp: fresh_route_def intro: rtranclp_trans)
qed

text \<open>
  C25. Two races. A search that starts while the first route is being inserted can take the head of the
  table for a route, and reads an address outside the object: the insertion has already set
  \<open>head->prev\<close>, so the table does not look empty, and \<open>head->next\<close> is still the head. And two threads
  that add the same new address can both search before either inserts: the address is then twice on
  the table, however many routes the table holds.
\<close>

theorem route_table_races:
  assumes "route_sys_start is s" and "hit (rtbl s) is a = None" and "i \<noteq> k"
    and "\<not> lvalid (r_links (rtbl s)) (RNode i)" and "\<not> lvalid (r_links (rtbl s)) (RNode k)"
  shows "(is = [] \<longrightarrow> (\<exists>s'. rtranclp route_sys_step s s' \<and> rpcs s' 1 = Crash OutOfBounds))
    \<and> (\<exists>s'. rtranclp route_sys_step s s' \<and> table (rtbl s') (k # i # is)
         \<and> r_addr (routes (rtbl s') k) = a \<and> r_addr (routes (rtbl s') i) = a)"
  using empty_table_race [of s i] double_insertion [OF assms] assms(1,4) by blast

theorem route_table_races_witness:
  "\<exists>s'. rtranclp route_sys_step route_sys_two s' \<and> table (rtbl s') [3, 2, 1, 0]
     \<and> r_addr (routes (rtbl s') 3) = r_addr (routes (rtbl s') 2)"
  using route_table_races [OF route_sys_two_start, of 9 2 3]
  by (auto simp: hit_def route_sys_two_def)

end
