(* ===== verification/LspEgroupConc.thy ===== *)
theory LspEgroupConc imports LspEgroup begin

section \<open>Threads on one event group\<close>

text \<open>
  Any number of threads (numbered) call \<open>lsp_egroup_set\<close> and \<open>lsp_egroup_wait\<close> on one event group. A
  critical section runs under the group's mutex, so a step is one critical section of one thread:
  from the call, or from the end of a wait on the condition variable, to the next wait or the
  return. The broadcast of \<open>lsp_egroup_set\<close> wakes every sleeping thread; a wait may also end by
  itself (POSIX allows it) or with a return code (a timeout, an error). A woken thread runs when it
  has the mutex again, at any time later. \<open>lsp_egroup_set\<close> reads the bits it returns after it has
  given up the mutex, and also if it never had it: that read is a step of its own.
\<close>

text \<open>The arguments of a wait. \<open>c_loop\<close> is \<open>None\<close> in the loops without a timeout, and holds \<open>max_time\<close>
  and \<open>remaining_timeout\<close> in those with one.\<close>

record wait_call =
  c_bits :: u32
  c_clear :: bool
  c_all :: bool
  c_loop :: "(u32 \<times> u32) option"

datatype eg_thread =
    EgRunning
  | EgAsleep wait_call
  | EgWoken wait_call int     \<comment> \<open>with the return code of the wait\<close>
  | EgSetting                 \<comment> \<open>in \<open>lsp_egroup_set\<close>, behind the unlock\<close>
  | EgReturned u32

record eg_sys =
  evgroup :: egroup
  eg_thr :: "nat \<Rightarrow> eg_thread"

subsection \<open>The critical sections of a wait\<close>

definition call_ready :: "wait_call \<Rightarrow> egroup \<Rightarrow> bool" where
  "call_ready c eg = bits_ready (c_bits c) (c_all c) (event_bits eg)"

text \<open>The end of the function: read the bits, clear, unlock.\<close>

definition eg_leave :: "wait_call \<Rightarrow> egroup \<Rightarrow> eg_thread \<times> egroup" where
  "eg_leave c eg =
     (EgReturned (event_bits eg), eg\<lparr>event_bits := clear_bits (c_clear c) (c_bits c) (event_bits eg)\<rparr>)"

text \<open>The head of the loop: without a timeout the bits are tested; with one, the clock is read
  (\<open>now\<close>) and the thread sleeps, unless no time remained.\<close>

definition eg_head :: "u32 \<Rightarrow> wait_call \<Rightarrow> egroup \<Rightarrow> eg_thread \<times> egroup" where
  "eg_head now c eg =
     (case c_loop c of
        None \<Rightarrow> if call_ready c eg then eg_leave c eg else (EgAsleep c, eg)
      | Some (max_time, remaining) \<Rightarrow>
          if remaining > 0
          then (EgAsleep (c\<lparr>c_loop := Some (max_time, if max_time > now then max_time - now else 0)\<rparr>), eg)
          else eg_leave c eg)"

text \<open>The body after the wait has returned \<open>rc\<close>.\<close>

definition eg_resume :: "u32 \<Rightarrow> int \<Rightarrow> wait_call \<Rightarrow> egroup \<Rightarrow> eg_thread \<times> egroup" where
  "eg_resume now rc c eg =
     (case c_loop c of
        None \<Rightarrow> if rc \<noteq> 0 then eg_leave c eg else eg_head now c eg
      | Some _ \<Rightarrow>
          if rc \<noteq> 0 \<and> rc \<noteq> ETIMEDOUT then eg_leave c eg
          else if call_ready c eg then eg_leave c eg
          else eg_head now c eg)"

text \<open>The beginning of the function, \<open>start\<close> being the clock at the call.\<close>

definition eg_enter ::
  "u32 \<Rightarrow> u32 \<Rightarrow> u32 \<Rightarrow> bool \<Rightarrow> bool \<Rightarrow> u32 \<Rightarrow> egroup \<Rightarrow> eg_thread \<times> egroup" where
  "eg_enter start now bits clearOnExit waitAll timeout eg =
     (let c = \<lparr>c_bits = bits, c_clear = clearOnExit, c_all = waitAll, c_loop = None\<rparr> in
      if timeout = LSP_TIMEOUT_MAX then eg_head now c eg
      else if timeout > 0 then eg_head now (c\<lparr>c_loop := Some (start + timeout, timeout)\<rparr>) eg
      else eg_leave c eg)"

definition wake_all :: "eg_thread \<Rightarrow> eg_thread" where
  "wake_all th = (case th of EgAsleep c \<Rightarrow> EgWoken c 0 | _ \<Rightarrow> th)"

subsection \<open>The steps\<close>

text \<open>The parameter restricts the calls: which masks may be waited for, with which \<open>clearOnExit\<close>. The
  code as it is allows all of them.\<close>

inductive eg_step :: "(u32 \<Rightarrow> bool \<Rightarrow> bool) \<Rightarrow> nat \<Rightarrow> eg_sys \<Rightarrow> eg_sys \<Rightarrow> bool" for allow where
  eg_set: "eg_thr s t = EgRunning \<Longrightarrow> lsp_egroup_set LSP_ERR_NONE bits (evgroup s) = (r, eg) \<Longrightarrow>
     eg_step allow t s \<lparr>evgroup = eg, eg_thr = (\<lambda>u. wake_all (eg_thr s u))(t := EgSetting)\<rparr>"
| eg_set_fails: "eg_thr s t = EgRunning \<Longrightarrow> lock_rc \<noteq> LSP_ERR_NONE \<Longrightarrow>
     lsp_egroup_set lock_rc bits (evgroup s) = (r, eg) \<Longrightarrow>
     eg_step allow t s \<lparr>evgroup = eg, eg_thr = (eg_thr s)(t := EgSetting)\<rparr>"
| eg_set_read: "eg_thr s t = EgSetting \<Longrightarrow>
     eg_step allow t s (s\<lparr>eg_thr := (eg_thr s)(t := EgReturned (event_bits (evgroup s)))\<rparr>)"
| eg_wait: "eg_thr s t = EgRunning \<Longrightarrow>
     allow bits clearOnExit \<Longrightarrow>
     eg_enter start now bits clearOnExit waitAll timeout (evgroup s) = (th, eg) \<Longrightarrow>
     eg_step allow t s \<lparr>evgroup = eg, eg_thr = (eg_thr s)(t := th)\<rparr>"
| eg_wait_fails: "eg_thr s t = EgRunning \<Longrightarrow> lock_rc \<noteq> LSP_ERR_NONE \<Longrightarrow>
     lsp_egroup_wait lock_rc start ebits0 [] bits clearOnExit waitAll timeout (evgroup s) = Some (b, eg) \<Longrightarrow>
     eg_step allow t s \<lparr>evgroup = eg, eg_thr = (eg_thr s)(t := EgReturned b)\<rparr>"
| eg_wake: "eg_thr s t = EgAsleep c \<Longrightarrow> eg_step allow t s (s\<lparr>eg_thr := (eg_thr s)(t := EgWoken c rc)\<rparr>)"
| eg_run: "eg_thr s t = EgWoken c rc \<Longrightarrow> allow (c_bits c) (c_clear c) \<Longrightarrow> eg_resume now rc c (evgroup s) = (th, eg) \<Longrightarrow>
     eg_step allow t s \<lparr>evgroup = eg, eg_thr = (eg_thr s)(t := th)\<rparr>"
| eg_return: "eg_thr s t = EgReturned b \<Longrightarrow> eg_step allow t s (s\<lparr>eg_thr := (eg_thr s)(t := EgRunning)\<rparr>)"

definition any_call :: "u32 \<Rightarrow> bool \<Rightarrow> bool" where
  "any_call bits clearOnExit = True"

definition eg_sys_step :: "eg_sys \<Rightarrow> eg_sys \<Rightarrow> bool" where
  "eg_sys_step s s' \<longleftrightarrow> (\<exists>t. eg_step any_call t s s')"

definition eg_start :: "eg_sys \<Rightarrow> bool" where
  "eg_start s \<longleftrightarrow> eg_thr s = (\<lambda>_. EgRunning)"

subsection \<open>No wake-up is lost\<close>

text \<open>A thread that sleeps without a timeout is waiting for something that is not there.\<close>

definition eg_inv :: "eg_sys \<Rightarrow> bool" where
  "eg_inv s \<longleftrightarrow> (\<forall>t c. eg_thr s t = EgAsleep c \<and> c_loop c = None \<longrightarrow> \<not> call_ready c (evgroup s))"

lemma clear_not_ready:
  "\<not> bits_ready bits all b \<Longrightarrow> \<not> bits_ready bits all (clear_bits c m b)"
  by (cases all) (auto simp: bits_ready_def clear_bits_def bit_eq_iff bit_and_iff bit_not_iff split: if_splits)

lemma eg_leave_cases: "eg_leave c eg = (th, eg') \<Longrightarrow> th = EgReturned (event_bits eg)
  \<and> event_bits eg' = clear_bits (c_clear c) (c_bits c) (event_bits eg)"
  by (auto simp: eg_leave_def)

text \<open>A critical section of a wait only clears bits, and the thread sleeps only where it must.\<close>

lemma eg_head_cases:
  assumes "eg_head now c eg = (th, eg')"
  shows "(eg' = eg \<or> event_bits eg' = clear_bits (c_clear c) (c_bits c) (event_bits eg))
    \<and> (\<forall>c'. th = EgAsleep c' \<and> c_loop c' = None \<longrightarrow> \<not> call_ready c' eg')"
  using assms by (auto simp: eg_head_def eg_leave_def split: option.splits if_splits)

lemma eg_resume_cases:
  assumes "eg_resume now rc c eg = (th, eg')"
  shows "(eg' = eg \<or> event_bits eg' = clear_bits (c_clear c) (c_bits c) (event_bits eg))
    \<and> (\<forall>c'. th = EgAsleep c' \<and> c_loop c' = None \<longrightarrow> \<not> call_ready c' eg')"
  using assms eg_head_cases [of now c eg th eg']
  by (auto simp: eg_resume_def eg_leave_def split: option.splits if_splits)

lemma eg_enter_cases:
  assumes "eg_enter start now bits clear all timeout eg = (th, eg')"
  shows "(eg' = eg \<or> event_bits eg' = clear_bits clear bits (event_bits eg))
    \<and> (\<forall>c'. th = EgAsleep c' \<and> c_loop c' = None \<longrightarrow> \<not> call_ready c' eg')"
  using assms eg_head_cases [of now _ eg th eg']
  by (force simp: eg_enter_def eg_leave_def Let_def split: if_splits)

lemma eg_inv_step:
  assumes "eg_step allow t s s'" "eg_inv s"
  shows "eg_inv s'"
proof -
  have keep: "eg_inv \<lparr>evgroup = eg, eg_thr = (eg_thr s)(t := th)\<rparr>"
    if "eg = evgroup s \<or> event_bits eg = clear_bits clear m (event_bits (evgroup s))"
      and "\<forall>c. th = EgAsleep c \<and> c_loop c = None \<longrightarrow> \<not> call_ready c eg" for eg th clear m
    using that assms(2) clear_not_ready by (auto simp: eg_inv_def call_ready_def)
  from assms(1) show ?thesis
  proof (cases rule: eg_step.cases)
    case (eg_wait start now bits clearOnExit waitAll timeout th eg)
    then show ?thesis
      using keep eg_enter_cases by metis
  next
    case (eg_run c rc now th eg)
    then show ?thesis
      using keep eg_resume_cases by metis
  next
    case (eg_set_fails lock_rc bits r eg)
    then show ?thesis
      using assms(2) by (auto simp: eg_inv_def lsp_egroup_set_def)
  next
    case (eg_wait_fails lock_rc start ebits0 bits clearOnExit waitAll timeout b eg)
    then show ?thesis
      using assms(2) by (auto simp: eg_inv_def lsp_egroup_wait_def)
  qed (use assms(2) in \<open>auto simp: eg_inv_def wake_all_def split: eg_thread.splits\<close>)
qed

interpretation eg_threads: step_invariant eg_start eg_sys_step eg_inv
proof
  show "eg_inv s" if "eg_start s" for s
    using that by (simp add: eg_start_def eg_inv_def)
  show "eg_inv s'" if "eg_sys_step s s'" "eg_inv s" for s s'
    using that eg_inv_step unfolding eg_sys_step_def by blast
qed

subsection \<open>One waiter alone\<close>

text \<open>A waiter with the wake-ups of \<open>lsp_egroup_wait\<close>: before each of them the other threads change the
  bits. The clock of a wake-up is read at the head of its iteration, before the wait.\<close>

fun next_now :: "wake list \<Rightarrow> u32" where
  "next_now [] = 0"
| "next_now (w # ws) = w_now w"

fun eg_follow :: "wake list \<Rightarrow> eg_thread \<times> egroup \<Rightarrow> eg_thread \<times> egroup" where
  "eg_follow (w # ws) (EgAsleep c, eg) =
     eg_follow ws (eg_resume (next_now ws) (w_rc w) c (eg\<lparr>event_bits := w_bits w (event_bits eg)\<rparr>))"
| "eg_follow ws x = x"

text \<open>The outcome of a loop as the state of the thread.\<close>

definition follows :: "wait_call \<Rightarrow> u32 option \<Rightarrow> eg_thread \<times> egroup \<Rightarrow> bool" where
  "follows c r x \<longleftrightarrow>
     (case r of
        None \<Rightarrow> (\<exists>c'. fst x = EgAsleep c')
      | Some b \<Rightarrow> x = (EgReturned b, \<lparr>event_bits = clear_bits (c_clear c) (c_bits c) b\<rparr>))"

lemma eg_eta: "eg\<lparr>event_bits := b\<rparr> = \<lparr>event_bits = b\<rparr>" for eg :: egroup
  by (cases eg) simp

lemma leave_follows [simp]:
  "follows c (Some (event_bits eg)) (eg_follow ws (eg_leave (c\<lparr>c_loop := l\<rparr>) eg))"
  "follows c (Some b) (eg_follow ws (eg_leave (c\<lparr>c_loop := l\<rparr>) (eg\<lparr>event_bits := b\<rparr>)))"
  by (simp_all add: follows_def eg_leave_def eg_eta)

lemma forever_follows:
  "follows c (wait_forever (bits_ready (c_bits c) (c_all c)) ws (event_bits eg))
     (eg_follow ws (eg_head now (c\<lparr>c_loop := None\<rparr>) eg))"
proof (induction ws arbitrary: eg now)
  case Nil
  then show ?case
    by (simp add: eg_head_def call_ready_def) (simp add: follows_def eg_leave_def eg_eta)
next
  case (Cons w ws)
  then show ?case
    using Cons.IH [of "eg\<lparr>event_bits := w_bits w (event_bits eg)\<rparr>" "next_now ws"]
    by (simp add: eg_head_def [of _ _ eg] eg_resume_def call_ready_def Let_def)
qed

lemma until_follows:
  "follows c (wait_until (bits_ready (c_bits c) (c_all c)) max_time remaining ws (event_bits eg))
     (eg_follow ws (eg_head (next_now ws) (c\<lparr>c_loop := Some (max_time, remaining)\<rparr>) eg))"
proof (induction ws arbitrary: eg remaining)
  case Nil
  then show ?case
    by (simp add: eg_head_def) (simp add: follows_def eg_leave_def eg_eta)
next
  case (Cons w ws)
  then show ?case
    using Cons.IH [where eg = "eg\<lparr>event_bits := w_bits w (event_bits eg)\<rparr>"]
    by (simp add: eg_head_def [of _ _ eg] eg_resume_def call_ready_def Let_def)
qed

lemma wait_follows:
  "case lsp_egroup_wait LSP_ERR_NONE start ebits0 wakes bits clearOnExit waitAll timeout eg of
     None \<Rightarrow> \<exists>c. fst (eg_follow wakes (eg_enter start (next_now wakes) bits clearOnExit waitAll timeout eg)) = EgAsleep c
   | Some (b, eg') \<Rightarrow>
       eg_follow wakes (eg_enter start (next_now wakes) bits clearOnExit waitAll timeout eg) = (EgReturned b, eg')"
proof -
  let ?c = "\<lparr>c_bits = bits, c_clear = clearOnExit, c_all = waitAll, c_loop = None\<rparr>"
  note f = forever_follows [of ?c wakes eg "next_now wakes"]
    and u = until_follows [of ?c "start + timeout" timeout wakes eg]
  show ?thesis
  proof (cases "timeout = LSP_TIMEOUT_MAX \<or> timeout = 0")
    case True
    then show ?thesis
      using f by (auto simp: lsp_egroup_wait_def eg_enter_def follows_def eg_leave_def Let_def clear_bits_def
          eg_eta word_gt_0 split: option.splits)
  next
    case False
    then show ?thesis
      using u by (auto simp: lsp_egroup_wait_def eg_enter_def follows_def Let_def clear_bits_def
          eg_eta word_gt_0 split: option.splits)
  qed
qed

subsection \<open>Delivery\<close>

text \<open>Calls that leave the bits of \<open>m\<close> alone.\<close>

definition spares :: "u32 \<Rightarrow> u32 \<Rightarrow> bool \<Rightarrow> bool" where
  "spares m bits clearOnExit \<longleftrightarrow> bits AND m = 0 \<and> \<not> clearOnExit"

definition others :: "(u32 \<Rightarrow> bool \<Rightarrow> bool) \<Rightarrow> nat \<Rightarrow> eg_sys \<Rightarrow> eg_sys \<Rightarrow> bool" where
  "others allow t s s' \<longleftrightarrow> (\<exists>u. u \<noteq> t \<and> eg_step allow u s s')"

lemma spared_ready:
  assumes "bits AND m = 0" "bits_ready m all b"
  shows "bits_ready m all (b AND NOT bits)"
proof -
  have "(b AND NOT bits) AND m = b AND m"
    using assms(1) by (auto simp: bit_eq_iff bit_and_iff bit_not_iff)
  with assms(2) show ?thesis
    by (simp add: bits_ready_def)
qed

lemma set_ready: "bits_ready m all b \<Longrightarrow> bits_ready m all (b OR bits)"
  by (auto simp: bits_ready_def bit_eq_iff bit_and_iff bit_or_iff split: if_splits)

text \<open>A woken thread and its bits: the others take neither away.\<close>

definition due :: "nat \<Rightarrow> wait_call \<Rightarrow> eg_sys \<Rightarrow> bool" where
  "due t c s \<longleftrightarrow> eg_thr s t = EgWoken c 0 \<and> call_ready c (evgroup s)"

lemma due_kept:
  assumes "others (spares (c_bits c)) t s s'" "due t c s"
  shows "due t c s'"
proof -
  obtain u where u: "u \<noteq> t" "eg_step (spares (c_bits c)) u s s'"
    using assms(1) by (auto simp: others_def)
  have keep: "due t c \<lparr>evgroup = eg, eg_thr = (eg_thr s)(u := th)\<rparr>"
    if "spares (c_bits c) m cl" "eg = evgroup s \<or> event_bits eg = clear_bits cl m (event_bits (evgroup s))"
    for eg th m cl
    using that assms(2) u(1) spared_ready [of m "c_bits c"]
    by (auto simp: due_def call_ready_def spares_def clear_bits_def)
  from u(2) show ?thesis
  proof (cases rule: eg_step.cases)
    case (eg_wait start now bits clearOnExit waitAll timeout th eg)
    then show ?thesis
      using keep eg_enter_cases by metis
  next
    case (eg_run c rc now th eg)
    then show ?thesis
      using keep eg_resume_cases by metis
  next
    case (eg_set bits r eg)
    then show ?thesis
      using assms(2) u(1) by (auto simp: due_def wake_all_def lsp_egroup_set_def call_ready_def set_ready Let_def)
  next
    case (eg_set_fails lock_rc bits r eg)
    then show ?thesis
      using assms(2) u(1) by (auto simp: due_def lsp_egroup_set_def)
  next
    case (eg_wait_fails lock_rc start ebits0 bits clearOnExit waitAll timeout b eg)
    then show ?thesis
      using assms(2) u(1) by (auto simp: due_def lsp_egroup_wait_def)
  qed (use assms(2) u(1) in \<open>auto simp: due_def\<close>)
qed

interpretation delivery: step_invariant "due t c" "others (spares (c_bits c)) t" "due t c" for t c
  by unfold_locales (auto intro: due_kept)

subsection \<open>Properties\<close>

definition eg_example :: eg_sys where
  "eg_example = \<lparr>evgroup = \<lparr>event_bits = 0\<rparr>, eg_thr = (\<lambda>_. EgRunning)\<rparr>"

definition want :: "u32 \<Rightarrow> bool \<Rightarrow> wait_call" where
  "want bits cl = \<lparr>c_bits = bits, c_clear = cl, c_all = True, c_loop = None\<rparr>"

text \<open>Thread 1 of the example waits for bit 0.\<close>

definition eg_waiting :: eg_sys where
  "eg_waiting = \<lparr>evgroup = \<lparr>event_bits = 0\<rparr>, eg_thr = (\<lambda>_. EgRunning)(1 := EgAsleep (want 1 False))\<rparr>"

lemma eg_waiting_step: "eg_sys_step eg_example eg_waiting"
  using eg_wait [of eg_example 1 any_call 1 False 0 0 True LSP_TIMEOUT_MAX "EgAsleep (want 1 False)" "\<lparr>event_bits = 0\<rparr>"]
  unfolding eg_sys_step_def by (auto simp: eg_example_def eg_waiting_def any_call_def eg_enter_def eg_head_def
      call_ready_def bits_ready_def want_def)

text \<open>
  C19. No wake-up is lost. In every run of any number of threads, a thread that sleeps in a wait without
  a timeout is waiting for bits that are not there: whoever sets them wakes it, and it tests them under
  the mutex before it sleeps again.
\<close>

theorem no_lost_wakeup:
  assumes "eg_start s" and "rtranclp eg_sys_step s s'"
    and "eg_thr s' t = EgAsleep c" and "c_loop c = None"
  shows "\<not> bits_ready (c_bits c) (c_all c) (event_bits (evgroup s'))"
  using eg_threads.inv_reachable [OF assms(1,2)] assms(3,4) by (auto simp: eg_inv_def call_ready_def)

theorem no_lost_wakeup_witness: "\<not> bits_ready 1 True (event_bits (evgroup eg_waiting))"
proof -
  have "eg_start eg_example"
    by (simp add: eg_start_def eg_example_def)
  from no_lost_wakeup [OF this r_into_rtranclp [of eg_sys_step, OF eg_waiting_step], of 1 "want 1 False"]
  show ?thesis
    by (simp add: eg_waiting_def want_def)
qed

lemma wait_spec:
  assumes "\<forall>w\<in>set wakes. w_rc w = 0 \<or> w_rc w = ETIMEDOUT \<and> timeout \<noteq> LSP_TIMEOUT_MAX"
  shows "lsp_egroup_wait LSP_ERR_NONE start ebits0 wakes bits clearOnExit waitAll timeout eg =
    map_option (\<lambda>b. (b, \<lparr>event_bits = clear_bits clearOnExit bits b\<rparr>))
      (if timeout = LSP_TIMEOUT_MAX then find (bits_ready bits waitAll) (bit_history wakes (event_bits eg))
       else if timeout = 0 then Some (event_bits eg)
       else map_option snd (find (\<lambda>(w, b). bits_ready bits waitAll b \<or> start + timeout \<le> w_now w)
              (zip wakes (tl (bit_history wakes (event_bits eg))))))"
proof -
  consider "timeout = LSP_TIMEOUT_MAX" | "timeout \<noteq> LSP_TIMEOUT_MAX" "timeout = 0" | "timeout \<noteq> LSP_TIMEOUT_MAX" "timeout \<noteq> 0"
    by blast
  then show ?thesis
    using assms by cases (cases eg; auto simp: lsp_egroup_wait_def wait_forever_find wait_until_find clear_bits_def Let_def
      word_gt_0 option.map_comp comp_def)+
qed

text \<open>
  C27. What a wait returns, and when, for all masks, modes and timeouts. The waiter has the mutex at the call and is followed
  through a list of wake-ups, one critical section at a time; no wait on the condition variable fails (a timed one may
  time out). Without a timeout it returns at the first moment at which the bits asked for
  are there, all of them or one by the mode, be it at the call or after a wake-up, and sleeps until then. With
  a timeout it does not look at the call, and returns after the first wake-up after which they are there, or before which the
  clock had reached the deadline (a sum modulo 2 to the 32); with timeout 0 it returns at once. It returns the bits of that moment and leaves
  none with \<open>clearOnExit\<close>, the other bits without; and \<open>lsp_egroup_wait\<close> as one call does the same.
\<close>

theorem wait_returns:
  assumes "\<forall>w\<in>set wakes. w_rc w = 0 \<or> w_rc w = ETIMEDOUT \<and> timeout \<noteq> LSP_TIMEOUT_MAX"
  shows "let there = (\<lambda>b. if waitAll then b AND bits = bits else b AND bits \<noteq> 0) in
    case if timeout = LSP_TIMEOUT_MAX then find there (bit_history wakes (event_bits eg))
         else if timeout = 0 then Some (event_bits eg)
         else map_option snd (find (\<lambda>(w, b). there b \<or> start + timeout \<le> w_now w)
                (zip wakes (tl (bit_history wakes (event_bits eg)))))
    of None \<Rightarrow> lsp_egroup_wait LSP_ERR_NONE start ebits0 wakes bits clearOnExit waitAll timeout eg = None
        \<and> (\<exists>c. fst (eg_follow wakes (eg_enter start (next_now wakes) bits clearOnExit waitAll timeout eg)) = EgAsleep c)
    | Some b \<Rightarrow> lsp_egroup_wait LSP_ERR_NONE start ebits0 wakes bits clearOnExit waitAll timeout eg
          = Some (b, \<lparr>event_bits = if clearOnExit then 0 else b AND NOT bits\<rparr>)
        \<and> eg_follow wakes (eg_enter start (next_now wakes) bits clearOnExit waitAll timeout eg)
          = (EgReturned b, \<lparr>event_bits = if clearOnExit then 0 else b AND NOT bits\<rparr>)"
proof -
  have there: "(\<lambda>b. if waitAll then b AND bits = bits else b AND bits \<noteq> 0) = bits_ready bits waitAll"
    by (simp add: bits_ready_def fun_eq_iff)
  show ?thesis
    using wait_follows [where ?ebits0.0 = ebits0 and wakes = wakes and start = start and bits = bits and clearOnExit = clearOnExit
        and waitAll = waitAll and timeout = timeout and eg = eg]
    unfolding wait_spec [OF assms] Let_def there
    by (auto simp: clear_bits_def split: option.splits)
qed

theorem wait_returns_witness:
  "eg_follow [\<lparr>w_now = 0, w_rc = 0, w_bits = (\<lambda>b. b OR 1)\<rparr>, \<lparr>w_now = 0, w_rc = 0, w_bits = (\<lambda>b. b OR 2)\<rparr>]
     (eg_enter 0 0 3 False True LSP_TIMEOUT_MAX \<lparr>event_bits = 4\<rparr>) = (EgReturned 7, \<lparr>event_bits = 4\<rparr>)"
  using wait_returns [where wakes = "[\<lparr>w_now = 0, w_rc = 0, w_bits = (\<lambda>b. b OR 1)\<rparr>, \<lparr>w_now = 0, w_rc = 0, w_bits = (\<lambda>b. b OR 2)\<rparr>]"
      and timeout = LSP_TIMEOUT_MAX and waitAll = True and bits = 3 and eg = "\<lparr>event_bits = 4\<rparr>" and start = 0 and clearOnExit = False]
  by (simp add: Let_def)

text \<open>
  C28. Delivery. A thread sleeps in a wait without a timeout and another one sets what it waits for. As
  long as the calls of the others wait for other bits and do not ask for \<open>clearOnExit\<close>, then whatever
  they do, in any order and for any time, the waiter stays ready to run, and when it runs it returns
  with its bits.
\<close>

theorem event_is_delivered:
  assumes "eg_thr s t = EgAsleep c" and "c_loop c = None" and "u \<noteq> t"
    and "lsp_egroup_set LSP_ERR_NONE bits (evgroup s) = (r, eg)"
    and "bits_ready (c_bits c) (c_all c) (event_bits eg)"
    and "rtranclp (others (spares (c_bits c)) t)
      \<lparr>evgroup = eg, eg_thr = (\<lambda>v. wake_all (eg_thr s v))(u := EgSetting)\<rparr> s'"
  shows "\<exists>s'' b. eg_step any_call t s' s'' \<and> eg_thr s'' t = EgReturned b \<and> bits_ready (c_bits c) (c_all c) b
    \<and> (\<forall>now. eg_resume now 0 c (evgroup s') = (EgReturned b, evgroup s''))"
proof -
  have "due t c \<lparr>evgroup = eg, eg_thr = (\<lambda>v. wake_all (eg_thr s v))(u := EgSetting)\<rparr>"
    using assms(1,3,5) by (simp add: due_def wake_all_def call_ready_def)
  then have d: "due t c s'"
    using assms(6) by (rule delivery.inv_steps [rotated])
  define th where "th = EgReturned (event_bits (evgroup s'))"
  obtain eg' where r: "eg_resume now 0 c (evgroup s') = (th, eg')" for now
    using d assms(2) by (auto simp: eg_resume_def eg_head_def due_def eg_leave_def th_def)
  have "eg_step any_call t s' \<lparr>evgroup = eg', eg_thr = (eg_thr s')(t := th)\<rparr>"
    using d eg_run [of s' t c 0 any_call 0 th eg'] r by (auto simp: due_def any_call_def)
  then show ?thesis
    using r d by (intro exI [of _ "\<lparr>evgroup = eg', eg_thr = (eg_thr s')(t := th)\<rparr>"]
        exI [of _ "event_bits (evgroup s')"]) (auto simp: th_def due_def call_ready_def)
qed

theorem event_is_delivered_witness:
  "\<exists>s'' b. eg_step any_call 1
       \<lparr>evgroup = \<lparr>event_bits = 1\<rparr>, eg_thr = (\<lambda>u. wake_all (eg_thr eg_waiting u))(0 := EgSetting)\<rparr> s''
     \<and> eg_thr s'' 1 = EgReturned b \<and> bits_ready 1 True b"
proof -
  have "lsp_egroup_set LSP_ERR_NONE 1 (evgroup eg_waiting) = (1, \<lparr>event_bits = 1\<rparr>)"
    by (simp add: lsp_egroup_set_def eg_waiting_def)
  from event_is_delivered [OF _ _ _ this _ rtranclp.rtrancl_refl, of 1 "want 1 False" 0] show ?thesis
    by (auto simp: eg_waiting_def want_def bits_ready_def)
qed

text \<open>
  C32. With \<open>clearOnExit\<close> an event can be lost: one \<open>lsp_egroup_set\<close> wakes two waiters for different
  bits; the first to run clears all bits, and the second goes back to sleep although its bit was set
  while it was waiting and no wait for that bit has returned.
\<close>

theorem clear_on_exit_loses_event:
  assumes "m1 \<noteq> 0" and "m2 \<noteq> 0"
  shows "\<exists>s1 s2 s3 s4. rtranclp eg_sys_step eg_example s1
    \<and> eg_thr s1 1 = EgAsleep (want m1 True) \<and> eg_thr s1 2 = EgAsleep (want m2 False)
    \<and> eg_step any_call 0 s1 s2 \<and> eg_thr s2 2 = EgWoken (want m2 False) 0
    \<and> bits_ready m2 True (event_bits (evgroup s2))
    \<and> eg_step any_call 1 s2 s3 \<and> eg_thr s3 1 = EgReturned (m1 OR m2)
    \<and> eg_step any_call 2 s3 s4 \<and> eg_thr s4 2 = EgAsleep (want m2 False)
    \<and> event_bits (evgroup s4) = 0"
proof -
  let ?w1 = "EgAsleep (want m1 True)" and ?w2 = "EgAsleep (want m2 False)"
  let ?g = "\<lambda>b. \<lparr>event_bits = b\<rparr>"
  let ?s0 = "\<lparr>evgroup = ?g 0, eg_thr = (\<lambda>_. EgRunning)(1 := ?w1)\<rparr>"
  let ?s1 = "\<lparr>evgroup = ?g 0, eg_thr = (eg_thr ?s0)(2 := ?w2)\<rparr>"
  let ?s2 = "\<lparr>evgroup = ?g (m1 OR m2), eg_thr = (\<lambda>u. wake_all (eg_thr ?s1 u))(0 := EgSetting)\<rparr>"
  let ?s3 = "\<lparr>evgroup = ?g 0, eg_thr = (eg_thr ?s2)(1 := EgReturned (m1 OR m2))\<rparr>"
  let ?s4 = "\<lparr>evgroup = ?g 0, eg_thr = (eg_thr ?s3)(2 := ?w2)\<rparr>"
  note ev = any_call_def eg_enter_def eg_head_def eg_resume_def eg_leave_def call_ready_def bits_ready_def
    want_def wake_all_def clear_bits_def
  have r: "bits_ready m2 True (m1 OR m2)" "bits_ready m1 True (m1 OR m2)"
    using set_ready [of m1 True m1 m2] by (auto simp: bits_ready_def bit_eq_iff bit_and_iff bit_or_iff)
  have a: "eg_step any_call 1 eg_example ?s0"
    using eg_wait [of eg_example 1 any_call m1 True 0 0 True LSP_TIMEOUT_MAX ?w1 "?g 0"] assms
    by (simp add: ev eg_example_def)
  have b: "eg_step any_call 2 ?s0 ?s1"
    using eg_wait [of ?s0 2 any_call m2 False 0 0 True LSP_TIMEOUT_MAX ?w2 "?g 0"] assms by (simp add: ev)
  have c: "eg_step any_call 0 ?s1 ?s2"
    using eg_set [of ?s1 0 "m1 OR m2" "m1 OR m2" "?g (m1 OR m2)" any_call]
    by (simp add: lsp_egroup_set_def wake_all_def)
  have d: "eg_step any_call 1 ?s2 ?s3"
    using eg_run [of ?s2 1 "want m1 True" 0 any_call 0 "EgReturned (m1 OR m2)" "?g 0"] r(2)
    by (simp add: ev)
  have e: "eg_step any_call 2 ?s3 ?s4"
    using eg_run [of ?s3 2 "want m2 False" 0 any_call 0 ?w2 "?g 0"] assms by (simp add: ev)
  have "rtranclp eg_sys_step eg_example ?s1"
    using a b by (meson eg_sys_step_def r_into_rtranclp rtranclp.rtrancl_into_rtrancl)
  then show ?thesis
    using c d e r by (intro exI [of _ ?s1] exI [of _ ?s2] exI [of _ ?s3] exI [of _ ?s4])
      (simp add: wake_all_def want_def)
qed

theorem clear_on_exit_loses_event_witness:
  "\<exists>s2 s4. rtranclp eg_sys_step eg_example s2 \<and> eg_thr s2 2 = EgWoken (want 2 False) 0
     \<and> bits_ready 2 True (event_bits (evgroup s2))
     \<and> rtranclp eg_sys_step s2 s4 \<and> eg_thr s4 2 = EgAsleep (want 2 False) \<and> event_bits (evgroup s4) = 0"
proof -
  have "(1 :: u32) \<noteq> 0" "(2 :: u32) \<noteq> 0"
    by simp_all
  from clear_on_exit_loses_event [OF this] obtain s1 s2 s3 s4 where
    r: "rtranclp eg_sys_step eg_example s1" "eg_step any_call 0 s1 s2" "eg_step any_call 1 s2 s3" "eg_step any_call 2 s3 s4"
    and "eg_thr s2 2 = EgWoken (want 2 False) 0" "bits_ready 2 True (event_bits (evgroup s2))"
      "eg_thr s4 2 = EgAsleep (want 2 False)" "event_bits (evgroup s4) = 0"
    by blast
  moreover have "rtranclp eg_sys_step eg_example s2"
    using r(1,2) by (meson eg_sys_step_def rtranclp.rtrancl_into_rtrancl)
  moreover have "rtranclp eg_sys_step s2 s4"
    using r(3,4) by (meson eg_sys_step_def r_into_rtranclp rtranclp.rtrancl_into_rtrancl)
  ultimately show ?thesis
    by blast
qed

text \<open>
  What \<open>lsp_egroup_set\<close> returns does not tell what it has set: the bits are read without the mutex, after a
  waiter may have taken them, and in a call that never got the mutex as well. Two calls that return the same value
  0 for the same bits: the first has set them and they were taken by the thread that waited, the second has done
  nothing.
\<close>

theorem set_result_is_later:
  assumes "m \<noteq> 0"
  shows "\<exists>s1 s2 s3 s4. rtranclp eg_sys_step eg_example s1 \<and> eg_thr s1 1 = EgAsleep (want m False)
    \<and> eg_step any_call 0 s1 s2 \<and> event_bits (evgroup s2) = m
    \<and> eg_step any_call 1 s2 s3 \<and> eg_thr s3 1 = EgReturned m
    \<and> eg_step any_call 0 s3 s4 \<and> eg_thr s4 0 = EgReturned 0
    \<and> (\<exists>s2'. eg_step any_call 0 s1 s2' \<and> evgroup s2' = evgroup s1 \<and> eg_thr s2' 1 = EgAsleep (want m False)
        \<and> eg_step any_call 0 s2' (s2'\<lparr>eg_thr := (eg_thr s2')(0 := EgReturned 0)\<rparr>))"
proof -
  let ?w = "EgAsleep (want m False)" and ?g = "\<lambda>b. \<lparr>event_bits = b\<rparr>"
  let ?s1 = "\<lparr>evgroup = ?g 0, eg_thr = (\<lambda>_. EgRunning)(1 := ?w)\<rparr>"
  let ?s2 = "\<lparr>evgroup = ?g m, eg_thr = (\<lambda>u. wake_all (eg_thr ?s1 u))(0 := EgSetting)\<rparr>"
  let ?s3 = "\<lparr>evgroup = ?g 0, eg_thr = (eg_thr ?s2)(1 := EgReturned m)\<rparr>"
  let ?s4 = "?s3\<lparr>eg_thr := (eg_thr ?s3)(0 := EgReturned 0)\<rparr>"
  let ?f = "\<lparr>evgroup = ?g 0, eg_thr = (eg_thr ?s1)(0 := EgSetting)\<rparr>"
  note ev = any_call_def eg_enter_def eg_head_def eg_resume_def eg_leave_def call_ready_def bits_ready_def
    want_def wake_all_def clear_bits_def lsp_egroup_set_def
  have a: "eg_step any_call 1 eg_example ?s1"
    using eg_wait [of eg_example 1 any_call m False 0 0 True LSP_TIMEOUT_MAX ?w "?g 0"] assms
    by (simp add: ev eg_example_def)
  have b: "eg_step any_call 0 ?s1 ?s2"
    using eg_set [of ?s1 0 m m "?g m" any_call] by (simp add: ev)
  have c: "eg_step any_call 1 ?s2 ?s3"
    using eg_run [of ?s2 1 "want m False" 0 any_call 0 "EgReturned m" "?g 0"] by (simp add: ev)
  have d: "eg_step any_call 0 ?s3 ?s4"
    using eg_set_read [of ?s3 0 any_call] by simp
  have e: "eg_step any_call 0 ?s1 ?f"
    using eg_set_fails [of ?s1 0 LSP_ERR_MUTEX m 0 "?g 0" any_call] by (simp add: ev lsp_consts)
  have f: "eg_step any_call 0 ?f (?f\<lparr>eg_thr := (eg_thr ?f)(0 := EgReturned 0)\<rparr>)"
    using eg_set_read [of ?f 0 any_call] by simp
  have "rtranclp eg_sys_step eg_example ?s1"
    using a by (meson eg_sys_step_def r_into_rtranclp)
  then show ?thesis
    using b c d e f
    by (intro exI [of _ ?s1] exI [of _ ?s2] exI [of _ ?s3] exI [of _ ?s4] conjI exI [of _ ?f]) simp_all
qed

theorem set_result_is_later_witness:
  "\<exists>s4 :: eg_sys. eg_thr s4 0 = EgReturned 0 \<and> rtranclp eg_sys_step eg_example s4"
proof -
  have "(1 :: u32) \<noteq> 0" by simp
  from set_result_is_later [OF this] obtain s1 s2 s3 s4 where "rtranclp eg_sys_step eg_example s1"
    "eg_step any_call 0 s1 s2" "eg_step any_call 1 s2 s3" "eg_step any_call 0 s3 s4" "eg_thr s4 0 = EgReturned 0"
    by blast
  then show ?thesis
    by (meson eg_sys_step_def rtranclp.rtrancl_into_rtrancl)
qed

end
