(* ===== verification/LspConf.thy ===== *)
theory LspConf imports LspTypes begin

section \<open>Configuration (lsp_conf.c)\<close>

text \<open>
  \<open>struct lsp_conf_s\<close> and the static \<open>_lsp_conf\<close>, which the rest of the library reads through the
  pointer \<open>lsp_conf\<close>. The three names are pointers, so they may be NULL.
\<close>

record lsp_conf =
  conf_addr :: u16
  hostname :: "string option"
  machinename :: "string option"
  conf_rev :: "string option"
  conn_max :: u8
  conn_queuelen :: u8

text \<open>The initialiser of \<open>_lsp_conf\<close>.\<close>

definition default_conf :: lsp_conf where
  "default_conf =
     \<lparr>conf_addr = LSP_DEFAULT_ADDR, hostname = Some LSP_DEFAULT_HOSTNAME,
      machinename = Some LSP_DEFAULT_MACHINENAME, conf_rev = Some LSP_DEFAULT_LSPREV,
      conn_max = word_of_int LSP_DEFAULT_MAX_CONNECTIONS,
      conn_queuelen = word_of_int LSP_DEFAULT_CONN_QUEUELEN\<rparr>"

definition lsp_conf_init :: "lsp_conf option \<Rightarrow> lsp_conf \<Rightarrow> int \<times> lsp_conf" where
  "lsp_conf_init conf st =
     (case conf of
        None \<Rightarrow> (LSP_ERR_NONE, st)
      | Some c \<Rightarrow>
          if uint (conf_addr c) > LSP_PACKET_ADDR_MAX then (LSP_ERR_ADDR_INVALID, st)
          else (LSP_ERR_NONE,
                st\<lparr>conf_addr := conf_addr c, hostname := hostname c, machinename := machinename c,
                   conf_rev := conf_rev c, conn_max := conn_max c, conn_queuelen := conn_queuelen c\<rparr>))"

text \<open>The range check can never fail: an address has 16 bits.\<close>

lemma addr_in_range: "uint (a :: u16) \<le> LSP_PACKET_ADDR_MAX"
  using unsigned_less [of a, where 'a = int] by (simp add: LSP_PACKET_ADDR_MAX_eq)

lemma lsp_conf_init_eq:
  "lsp_conf_init conf st = (LSP_ERR_NONE, case conf of None \<Rightarrow> st | Some c \<Rightarrow> c)"
  by (cases conf) (auto simp: lsp_conf_init_def leD [OF addr_in_range] intro!: lsp_conf.equality)

text \<open>
  Any sequence of calls of \<open>lsp_conf_init\<close> succeeds, and leaves the configuration of the last
  call that passed one, else the built-in one: the address check rejects nothing, and a NULL name
  is stored although the log says that the default is loaded.
\<close>

theorem conf_last_wins:
  "fold (\<lambda>conf st. snd (lsp_conf_init conf st)) confs default_conf =
     last (default_conf # map the (filter (\<lambda>c. c \<noteq> None) confs))
   \<and> (\<forall>conf st. fst (lsp_conf_init conf st) = LSP_ERR_NONE)
   \<and> hostname (snd (lsp_conf_init (Some (default_conf\<lparr>hostname := None\<rparr>)) default_conf)) = None"
proof (intro conjI)
  have "fold (\<lambda>conf st. snd (lsp_conf_init conf st)) confs st =
     last (st # map the (filter (\<lambda>c. c \<noteq> None) confs))" for st
    by (induction confs arbitrary: st) (auto simp: lsp_conf_init_eq)
  then show "fold (\<lambda>conf st. snd (lsp_conf_init conf st)) confs default_conf =
     last (default_conf # map the (filter (\<lambda>c. c \<noteq> None) confs))" .
qed (simp_all add: lsp_conf_init_eq)

end
