(* ===== verification/LspLog.thy ===== *)
theory LspLog imports LspPrelude begin

section \<open>Messages, hex dump, assertion and abort (port/generic/lsp_log.c, lsp_log.h)\<close>

text \<open>
  \<open>_lsp_hexdump\<close> prints a heading and then rows of eight bytes; the model returns the rows, each
  with its address and its offset. The memory is a function that says what reading an address
  gives, a byte or a fault. The functions of the other theories leave their log messages out.
  \<open>_lsp_flush\<close> changes nothing that is modelled.
\<close>

type_synonym memory = "size_t \<Rightarrow> u8 exec"
type_synonym dump_row = "size_t \<times> int \<times> u8 list"

fun read_bytes :: "memory \<Rightarrow> size_t \<Rightarrow> nat list \<Rightarrow> u8 list exec" where
  "read_bytes rd p [] = Done []"
| "read_bytes rd p (j # js) =
     xbind (rd (p + of_nat j)) (\<lambda>b. xbind (read_bytes rd p js) (\<lambda>bs. Done (b # bs)))"

text \<open>The outer loop: \<open>i\<close> is an \<open>int\<close>, compared and advanced as a \<open>size_t\<close>.\<close>

partial_function (option) hexdump_loop ::
  "memory \<Rightarrow> size_t \<Rightarrow> size_t \<Rightarrow> int \<Rightarrow> dump_row list \<Rightarrow> dump_row list exec option" where
  "hexdump_loop rd p len i out =
     (if int_to_size i < len
      then (case read_bytes rd (p + int_to_size i) [0..<8] of
              Fault e \<Rightarrow> Some (Fault e)
            | Hang \<Rightarrow> Some Hang
            | Done bs \<Rightarrow>
                hexdump_loop rd p len (size_to_int (int_to_size i + 8))
                  (out @ [(p + int_to_size i, i, bs)]))
      else Some (Done out))"

definition lsp_hexdump :: "memory \<Rightarrow> size_t \<Rightarrow> size_t \<Rightarrow> dump_row list exec" where
  "lsp_hexdump rd p len = of_loop (hexdump_loop rd p len 0 [])"

subsection \<open>Messages\<close>

text \<open>
  The macro \<open>lsp_log\<close> and the five it is wrapped in: a message is passed on if its level is not above
  that of the build (\<open>LSP_LOGL\<close>, which is the highest level unless the build sets another). \<open>out\<close> is what has
  been printed; the text of a message is what \<open>vprintf\<close> makes of the format and its arguments.
\<close>

definition LSP_LOGL_NONE :: nat where [lsp_consts]: "LSP_LOGL_NONE = 0"
definition LSP_LOGL_ERROR :: nat where [lsp_consts]: "LSP_LOGL_ERROR = 1"
definition LSP_LOGL_WARNING :: nat where [lsp_consts]: "LSP_LOGL_WARNING = 2"
definition LSP_LOGL_INFO :: nat where [lsp_consts]: "LSP_LOGL_INFO = 3"
definition LSP_LOGL_DEBUG :: nat where [lsp_consts]: "LSP_LOGL_DEBUG = 4"
definition LSP_LOGL_VERBOSE :: nat where [lsp_consts]: "LSP_LOGL_VERBOSE = 5"

definition print_message :: "string \<Rightarrow> string list \<Rightarrow> string list" where
  "print_message msg out = out @ [msg]"

definition lsp_log :: "nat \<Rightarrow> nat \<Rightarrow> string \<Rightarrow> string \<Rightarrow> string list \<Rightarrow> string list" where
  "lsp_log build_level logl prefix msg out =
     (if build_level \<ge> logl then print_message (prefix @ msg) out else out)"

definition log_prefix :: "string \<Rightarrow> string \<Rightarrow> string" where
  "log_prefix letter tag = letter @ '': ('' @ tag @ '') ''"

definition lsp_err :: "nat \<Rightarrow> string \<Rightarrow> string \<Rightarrow> string list \<Rightarrow> string list" where
  "lsp_err build_level tag = lsp_log build_level LSP_LOGL_ERROR (log_prefix ''E'' tag)"

definition lsp_warn :: "nat \<Rightarrow> string \<Rightarrow> string \<Rightarrow> string list \<Rightarrow> string list" where
  "lsp_warn build_level tag = lsp_log build_level LSP_LOGL_WARNING (log_prefix ''W'' tag)"

definition lsp_info :: "nat \<Rightarrow> string \<Rightarrow> string \<Rightarrow> string list \<Rightarrow> string list" where
  "lsp_info build_level tag = lsp_log build_level LSP_LOGL_INFO (log_prefix ''I'' tag)"

definition lsp_dbg :: "nat \<Rightarrow> string \<Rightarrow> string \<Rightarrow> string list \<Rightarrow> string list" where
  "lsp_dbg build_level tag = lsp_log build_level LSP_LOGL_DEBUG (log_prefix ''D'' tag)"

definition lsp_verb :: "nat \<Rightarrow> string \<Rightarrow> string \<Rightarrow> string list \<Rightarrow> string list" where
  "lsp_verb build_level tag = lsp_log build_level LSP_LOGL_VERBOSE (log_prefix ''V'' tag)"

text \<open>A higher level of the build only adds messages, and at the level of no messages nothing is printed.\<close>

lemma log_levels:
  "logl \<le> b \<Longrightarrow> b \<le> b' \<Longrightarrow> lsp_log b logl p msg out = lsp_log b' logl p msg out"
  "lsp_err LSP_LOGL_NONE tag msg out = out"
  "lsp_verb LSP_LOGL_VERBOSE tag msg out = out @ [''V: ('' @ tag @ '') '' @ msg]"
  by (simp_all add: lsp_log_def lsp_err_def lsp_verb_def log_prefix_def print_message_def lsp_consts)

subsection \<open>Assertions\<close>

text \<open>\<open>_lsp_abort\<close> loops; \<open>LSP_ASSERT\<close> reaches it where the condition is false.\<close>

definition lsp_abort :: "'a exec" where
  "lsp_abort = Hang"

definition LSP_ASSERT :: "bool \<Rightarrow> unit exec" where
  "LSP_ASSERT cond = (if \<not> cond then lsp_abort else Done ())"

lemma LSP_ASSERT_simps [simp]: "LSP_ASSERT True = Done ()" "LSP_ASSERT False = Hang"
  by (simp_all add: LSP_ASSERT_def lsp_abort_def)

subsection \<open>What a dump reads\<close>

text \<open>Memory of which \<open>n\<close> bytes from \<open>p\<close> on may be read, and no other.\<close>

definition block_memory :: "size_t \<Rightarrow> nat \<Rightarrow> (nat \<Rightarrow> u8) \<Rightarrow> memory" where
  "block_memory p n f a = (if unat (a - p) < n then Done (f (unat (a - p))) else Fault OutOfBounds)"

lemma unat_of_nat_small: "n < 2 ^ 64 \<Longrightarrow> unat (of_nat n :: size_t) = n"
  by (simp add: unat_of_nat take_bit_nat_eq_self)

lemma read_bytes_block:
  assumes "\<forall>j\<in>set js. k + j < 2 ^ 64"
  shows "read_bytes (block_memory p n f) (p + of_nat k) js =
    (if \<forall>j\<in>set js. k + j < n then Done (map (\<lambda>j. f (k + j)) js) else Fault OutOfBounds)"
  using assms
proof (induction js)
  case (Cons j js)
  have "unat (p + word_of_nat k + word_of_nat j - p) = k + j"
    using Cons.prems unat_of_nat_small [of "k + j"] by (simp add: algebra_simps)
  with Cons show ?case
    by (auto simp: block_memory_def)
qed simp

lemma hexdump_index:
  assumes "int k + 8 \<le> INT_MAX"
  shows "size_to_int (int_to_size (int k) + 8) = int (k + 8)"
proof -
  have "uint (int_to_size (int k) + 8) = int k + 8"
    using assms by (simp add: uint_word_ariths uint_int_to_size)
  then show ?thesis
    using assms by (simp add: size_to_int_small)
qed

lemma hexdump_loop_step:
  assumes "k + 8 \<le> 2147483647"
  shows "hexdump_loop (block_memory p n f) p len (int k) out =
    (if k < unat len
     then if k + 8 \<le> n
       then hexdump_loop (block_memory p n f) p len (int (k + 8))
              (out @ [(p + of_nat k, int k, map (\<lambda>j. f (k + j)) [0..<8])])
       else Some (Fault OutOfBounds)
     else Some (Done out))"
proof -
  have i: "int_to_size (int k) = of_nat k"
    by (simp add: int_to_size_def)
  have lt: "(of_nat k :: size_t) < len \<longleftrightarrow> k < unat len"
    using assms by (simp add: word_less_nat_alt unat_of_nat_small)
  have row: "(\<forall>j\<in>{0..<8}. k + j < n) \<longleftrightarrow> k + 8 \<le> n"
  proof
    assume "\<forall>j\<in>{0..<8}. k + j < n"
    then have "k + 7 < n" by (rule bspec) simp
    then show "k + 8 \<le> n" by simp
  qed auto
  have rd: "read_bytes (block_memory p n f) (p + of_nat k) [0..<8] =
      (if k + 8 \<le> n then Done (map (\<lambda>j. f (k + j)) [0..<8]) else Fault OutOfBounds)"
    using assms read_bytes_block [of "[0..<8]" k p n f] by (simp add: row del: upt_Suc)
  have nx: "size_to_int (of_nat k + 8) = int (k + 8)"
    using hexdump_index [of k] assms i by simp
  show ?thesis
    by (subst hexdump_loop.simps) (simp add: i lt rd nx del: upt_Suc)
qed

text \<open>Row number \<open>r\<close>, and how many rows there are.\<close>

definition dump_row :: "size_t \<Rightarrow> (nat \<Rightarrow> u8) \<Rightarrow> nat \<Rightarrow> dump_row" where
  "dump_row p f r = (p + of_nat (8 * r), int (8 * r), map (\<lambda>j. f (8 * r + j)) [0..<8])"

definition dump_rows :: "size_t \<Rightarrow> nat" where
  "dump_rows len = (unat len + 7) div 8"

lemma dump_rows_less: "r < dump_rows len \<longleftrightarrow> 8 * r < unat len"
  unfolding dump_rows_def by linarith

lemma hexdump_loop_rows:
  assumes "unat len + 15 \<le> 2147483647"
  shows "r + d = dump_rows len \<Longrightarrow> 8 * r \<le> n \<Longrightarrow>
    hexdump_loop (block_memory p n f) p len (int (8 * r)) out =
      (if 8 * dump_rows len \<le> n
       then Some (Done (out @ map (dump_row p f) [r..<dump_rows len]))
       else Some (Fault OutOfBounds))"
proof (induction d arbitrary: r out)
  case 0
  then have "\<not> 8 * r < unat len" "8 * r \<le> unat len + 7"
    using dump_rows_less [of r len] by (simp_all add: dump_rows_def)
  with 0 assms hexdump_loop_step [of "8 * r" p n f len out] show ?case
    by simp
next
  case (Suc d)
  then have r: "r < dump_rows len" "8 * r < unat len" "Suc r + d = dump_rows len"
    using dump_rows_less [of r len] by simp_all
  have k: "8 * r + 8 = 8 * Suc r"
    by simp
  have "hexdump_loop (block_memory p n f) p len (int (8 * r)) out =
      (if 8 * Suc r \<le> n
       then hexdump_loop (block_memory p n f) p len (int (8 * Suc r)) (out @ [dump_row p f r])
       else Some (Fault OutOfBounds))"
    using r(2) assms hexdump_loop_step [of "8 * r" p n f len out] unfolding k dump_row_def by simp
  moreover have "8 * Suc r \<le> 8 * dump_rows len"
    using r(1) by simp
  moreover have "map (dump_row p f) [r..<dump_rows len]
      = dump_row p f r # map (dump_row p f) [Suc r..<dump_rows len]"
    using r(1) by (simp add: upt_conv_Cons)
  ultimately show ?case
    using Suc.IH [OF r(3), of "out @ [dump_row p f r]"] by (simp del: of_nat_mult)
qed

subsection \<open>Property\<close>

text \<open>
  A dump of \<open>len\<close> bytes of a block of \<open>n\<close> bytes ends: it prints the bytes in rows of eight when
  the length rounded up to a multiple of eight is inside the block, and otherwise, so for every
  block of exactly the given length that is no such multiple, it reads past the end of the block.
\<close>

theorem hexdump_outcome:
  assumes "unat len + 15 \<le> 2147483647"
  shows "lsp_hexdump (block_memory p n f) p len =
    (if 8 * dump_rows len \<le> n then Done (map (dump_row p f) [0..<dump_rows len])
     else Fault OutOfBounds)"
  using hexdump_loop_rows [OF assms, of 0 "dump_rows len" n p f "[]"]
  by (simp add: lsp_hexdump_def)

theorem hexdump_outcome_witness:
  "lsp_hexdump (block_memory 4096 12 (\<lambda>_. 7)) 4096 12 = Fault OutOfBounds
   \<and> is_done (lsp_hexdump (block_memory 4096 16 (\<lambda>_. 7)) 4096 12)"
  using hexdump_outcome [of 12 4096 12 "\<lambda>_. 7"] hexdump_outcome [of 12 4096 16 "\<lambda>_. 7"]
  by (simp add: dump_rows_def)

end
