(* ===== verification/LspConn.thy ===== *)
theory LspConn imports LspConf LspList LspQueue LspEgroup LspLog begin

section \<open>Connections and their pool (lsp_conn.c)\<close>

text \<open>
  The static state of \<open>lsp_conn.c\<close>: the pool (a block of connection structs behind the pointer
  \<open>conn_pool\<close>) and its mutex. A connection is named by its index; its list node is a node of the
  memory of links that it shares with the port table. A handle is a pointer to an object the
  connection owns. The children queue and the parent pointer share their memory in the C struct,
  so \<open>conn_union\<close> says which one was written last.

  What the functions get from the platform, from the two compile-time switches (both 0 in the build)
  and from variables they read before they write them is the record \<open>conn_env\<close>. Mutex and event
  group objects never fail here where the code ignores their result; log calls are left out.
\<close>

subsection \<open>Types\<close>

datatype conn_state = CONN_FREE | CONN_CLOSED | CONN_OPEN | CONN_LISTEN | CONN_CONNECTED

fun state_code :: "conn_state \<Rightarrow> nat" where
  "state_code CONN_FREE = 0"
| "state_code CONN_CLOSED = 1"
| "state_code CONN_OPEN = 2"
| "state_code CONN_LISTEN = 3"
| "state_code CONN_CONNECTED = 4"

lemma state_code_inj: "state_code a = state_code b \<longleftrightarrow> a = b"
  by (cases a; cases b) simp_all

instantiation conn_state :: linorder
begin

definition less_eq_conn_state :: "conn_state \<Rightarrow> conn_state \<Rightarrow> bool" where
  "a \<le> b \<longleftrightarrow> state_code a \<le> state_code b"

definition less_conn_state :: "conn_state \<Rightarrow> conn_state \<Rightarrow> bool" where
  "a < b \<longleftrightarrow> state_code a < state_code b"

instance
  by standard (auto simp: less_eq_conn_state_def less_conn_state_def state_code_inj)

end

text \<open>The member \<open>type\<close> holds a number: the code also stores a connection state in it.\<close>

definition CONN_CLIENT :: int where [lsp_consts]: "CONN_CLIENT = 0"
definition CONN_SERVER :: int where [lsp_consts]: "CONN_SERVER = 1"
definition CONN_CHILD :: int where [lsp_consts]: "CONN_CHILD = 2"

text \<open>The event bits of a connection's event group.\<close>

datatype conn_event =
    CONN_EV_RECEIVE | CONN_EV_SEND | CONN_EV_BOUND | CONN_EV_LISTEN | CONN_EV_ACCEPT | CONN_EV_CONNECT
  | CONN_EV_CLOSED | CONN_EV_INTR | CONN_EV_ALL

fun event_mask :: "conn_event \<Rightarrow> u32" where
  "event_mask CONN_EV_RECEIVE = 0x01"
| "event_mask CONN_EV_SEND = 0x02"
| "event_mask CONN_EV_BOUND = 0x04"
| "event_mask CONN_EV_LISTEN = 0x08"
| "event_mask CONN_EV_ACCEPT = 0x10"
| "event_mask CONN_EV_CONNECT = 0x20"
| "event_mask CONN_EV_CLOSED = 0x40"
| "event_mask CONN_EV_INTR = 0x80"
| "event_mask CONN_EV_ALL = 0xFF"

text \<open>Every event is one bit of the mask of all, and no two share one: events can be awaited singly.\<close>

lemma event_mask_bits:
  "event_mask e AND event_mask CONN_EV_ALL = event_mask e"
  "e \<noteq> CONN_EV_ALL \<Longrightarrow> e' \<noteq> CONN_EV_ALL \<Longrightarrow> e \<noteq> e' \<Longrightarrow> event_mask e AND event_mask e' = 0"
  by (cases e; simp) (cases e; cases e'; simp)

datatype 'a handle = HNull | HLive 'a | HFreed

fun hget :: "'a handle \<Rightarrow> 'a exec" where
  "hget HNull = Fault NullDeref"
| "hget (HLive a) = Done a"
| "hget HFreed = Fault BadPtr"

datatype conn_union = UNull | UQueue lsp_queue | UFreedQueue | UParent nat

fun children_of :: "conn_union \<Rightarrow> lsp_queue exec" where
  "children_of UNull = Fault NullDeref"
| "children_of (UQueue q) = Done q"
| "children_of UFreedQueue = Fault BadPtr"
| "children_of (UParent _) = Fault TypeConfusion"

record lsp_connattr =
  priority :: u8
  lport :: u8
  laddr :: u16
  rport :: u8
  raddr :: u16
  attr_flags :: u32

definition def_conn_attr :: lsp_connattr where
  "def_conn_attr =
     \<lparr>priority = word_of_int LSP_CONN_PRIO_DEF, lport = word_of_int LSP_PORT_ANY,
      laddr = word_of_int LSP_ADDR_ANY, rport = word_of_int LSP_PORT_ANY,
      raddr = word_of_int LSP_ADDR_ANY, attr_flags = 0\<rparr>"

record lsp_conn =
  c_type :: int
  c_state :: conn_state
  attr :: lsp_connattr
  c_egroup :: "egroup handle"
  c_union :: conn_union
  rcv_timeout :: u32
  snd_timeout :: u32
  s_opt :: u32
  c_timestamp :: u32
  rx_queue :: "lsp_queue handle"

text \<open>What \<open>memset(conn_pool, 0, blocksize)\<close> leaves.\<close>

definition conn_zero :: lsp_conn where
  "conn_zero =
     \<lparr>c_type = 0, c_state = CONN_FREE,
      attr = \<lparr>priority = 0, lport = 0, laddr = 0, rport = 0, raddr = 0, attr_flags = 0\<rparr>,
      c_egroup = HNull, c_union = UNull, rcv_timeout = 0, snd_timeout = 0, s_opt = 0,
      c_timestamp = 0, rx_queue = HNull\<rparr>"

datatype pnode = PortHead nat | ConnNode nat

text \<open>\<open>conn_pool\<close> carries the number of structs in the block it points to.\<close>

record conn_sys =
  lsp_conf_of :: lsp_conf
  conn_pool :: "nat handle"
  conns :: "nat \<Rightarrow> lsp_conn"
  plinks :: "pnode lheap"
  conn_mutex :: bool
  refusals :: "bool list"

record conn_env =
  LSP_CONN_EGROUP_POOL :: bool
  LSP_CONN_PERSISTENT_RXQUEUE :: bool
  rc0 :: "nat \<Rightarrow> int"                              \<comment> \<open>an unset \<open>rc\<close>\<close>
  destroy_value :: int                            \<comment> \<open>the "result" of a void function\<close>
  queue_destroy_rc :: int                         \<comment> \<open>what \<open>lsp_queue_destroy\<close> returns without a return\<close>
  buff0 :: "size_t option"                        \<comment> \<open>the unset buffer pointer of the flush\<close>
  sock0 :: "nat \<Rightarrow> nat option"                     \<comment> \<open>the unset \<open>sock\<close> of \<open>lsp_conn_free\<close>\<close>
  buffer_free :: "size_t option \<Rightarrow> unit exec"      \<comment> \<open>\<open>lsp_buffer_free\<close>\<close>
  conn_at :: "u8 list \<Rightarrow> nat option"               \<comment> \<open>a connection pointer from its bytes\<close>
  new_queue :: "int \<Rightarrow> size_t \<Rightarrow> lsp_queue option exec"   \<comment> \<open>\<open>lsp_queue_create\<close>\<close>
  new_egroup :: "egroup option"                   \<comment> \<open>\<open>lsp_egroup_create\<close>\<close>

subsection \<open>Memory accesses\<close>

text \<open>\<open>conn_pool[i]\<close>, and following a pointer to a connection.\<close>

definition pool_read :: "'z conn_sys_scheme \<Rightarrow> nat \<Rightarrow> lsp_conn exec" where
  "pool_read st i =
     xbind (hget (conn_pool st)) (\<lambda>n.
     xbind (xguard (i < n) OutOfBounds) (\<lambda>_. Done (conns st i)))"

definition conn_deref :: "'z conn_sys_scheme \<Rightarrow> nat option \<Rightarrow> nat exec" where
  "conn_deref st p =
     (case p of
        None \<Rightarrow> Fault NullDeref
      | Some i \<Rightarrow>
          (case conn_pool st of
             HLive n \<Rightarrow> if i < n then Done i else Fault BadPtr
           | _ \<Rightarrow> Fault BadPtr))"

definition upd_conn :: "nat \<Rightarrow> (lsp_conn \<Rightarrow> lsp_conn) \<Rightarrow> 'z conn_sys_scheme \<Rightarrow> 'z conn_sys_scheme" where
  "upd_conn i f st = st\<lparr>conns := (conns st)(i := f (conns st i))\<rparr>"

definition conn_lock :: "'z conn_sys_scheme \<Rightarrow> 'z conn_sys_scheme exec" where
  "conn_lock st = (if conn_mutex st then Hang else Done (st\<lparr>conn_mutex := True\<rparr>))"

definition conn_unlock :: "'z conn_sys_scheme \<Rightarrow> 'z conn_sys_scheme exec" where
  "conn_unlock st = Done (st\<lparr>conn_mutex := False\<rparr>)"

subsection \<open>lsp_conn_init\<close>

text \<open>
  With the switch on, every connection gets an event group of a second block; \<open>eg_setclock\<close> and
  \<open>eg_cond\<close> are the pthread results of its initialisation. Both blocks are freed at the end.
\<close>

fun init_egroups ::
  "conn_env \<Rightarrow> (nat \<Rightarrow> int) \<Rightarrow> (nat \<Rightarrow> int) \<Rightarrow> nat list \<Rightarrow> int \<Rightarrow> 'z conn_sys_scheme \<Rightarrow>
     int \<times> 'z conn_sys_scheme" where
  "init_egroups env eg_setclock eg_cond [] rc st = (rc, st)"
| "init_egroups env eg_setclock eg_cond (i # is) rc st =
     (let (rc, eg) = lsp_egroup_init (rc0 env i) (eg_setclock i) (eg_cond i) \<lparr>event_bits = 0\<rparr> in
      if rc \<noteq> LSP_ERR_NONE then (rc, st)
      else init_egroups env eg_setclock eg_cond is rc (upd_conn i (\<lambda>c. c\<lparr>c_egroup := HLive eg\<rparr>) st))"

definition new_pool :: "nat \<Rightarrow> 'z conn_sys_scheme \<Rightarrow> 'z conn_sys_scheme" where
  "new_pool n st =
     st\<lparr>conn_pool := HLive n, conns := (\<lambda>_. conn_zero),
        plinks := (plinks st)
          \<lparr>lnext := (\<lambda>a. case a of ConnNode _ \<Rightarrow> None | _ \<Rightarrow> lnext (plinks st) a),
           lprev := (\<lambda>a. case a of ConnNode _ \<Rightarrow> None | _ \<Rightarrow> lprev (plinks st) a),
           lvalid := (\<lambda>a. case a of ConnNode i \<Rightarrow> i < n | _ \<Rightarrow> lvalid (plinks st) a)\<rparr>\<rparr>"

definition free_pool :: "'z conn_sys_scheme \<Rightarrow> 'z conn_sys_scheme" where
  "free_pool st =
     st\<lparr>conn_pool := HFreed,
        plinks := (plinks st)\<lparr>lvalid := (\<lambda>a. case a of ConnNode _ \<Rightarrow> False
                                               | _ \<Rightarrow> lvalid (plinks st) a)\<rparr>\<rparr>"

definition lsp_conn_init ::
  "conn_env \<Rightarrow> int \<Rightarrow> bool \<Rightarrow> bool \<Rightarrow> (nat \<Rightarrow> int) \<Rightarrow> (nat \<Rightarrow> int) \<Rightarrow> 'z conn_sys_scheme \<Rightarrow>
     (int \<times> 'z conn_sys_scheme) exec" where
  "lsp_conn_init env rc1 pool_ok egroups_ok eg_setclock eg_cond st =
     xbind (LSP_ASSERT (conn_pool st = HNull)) (\<lambda>_.
     let n = unat (conn_max (lsp_conf_of st)); st = st\<lparr>conn_mutex := False\<rparr> in
     if \<not> pool_ok then Done (- LSP_ERR_NOMEM, st\<lparr>conn_pool := HNull\<rparr>)
     else
       (let st = new_pool n st;
            (rc, st) =
              (if LSP_CONN_EGROUP_POOL env
               then if \<not> egroups_ok then (- LSP_ERR_NOMEM, st)
                    else init_egroups env eg_setclock eg_cond [0..<n] rc1 st
               else (rc1, st))
        in Done (rc, free_pool st)))"

subsection \<open>lsp_conn_alloc\<close>

fun find_free :: "'z conn_sys_scheme \<Rightarrow> nat list \<Rightarrow> nat option exec" where
  "find_free st [] = Done None"
| "find_free st (i # is) =
     xbind (pool_read st i) (\<lambda>c. if c_state c = CONN_FREE then Done (Some i) else find_free st is)"

text \<open>The two objects that are made at the first use of a struct: \<open>None\<close> where that fails.\<close>

definition need_rx_queue :: "conn_env \<Rightarrow> nat \<Rightarrow> 'z conn_sys_scheme \<Rightarrow> (bool \<times> 'z conn_sys_scheme) exec"
  where
  "need_rx_queue env i st =
     (if rx_queue (conns st i) = HNull
      then xbind (new_queue env (uint (conn_queuelen (lsp_conf_of st))) 8) (\<lambda>r.
        case r of None \<Rightarrow> Done (False, st)
                | Some q \<Rightarrow> Done (True, upd_conn i (\<lambda>c. c\<lparr>rx_queue := HLive q\<rparr>) st))
      else Done (True, st))"

definition need_egroup :: "conn_env \<Rightarrow> nat \<Rightarrow> 'z conn_sys_scheme \<Rightarrow> bool \<times> 'z conn_sys_scheme" where
  "need_egroup env i st =
     (if \<not> LSP_CONN_EGROUP_POOL env \<and> c_egroup (conns st i) = HNull
      then (case new_egroup env of
              None \<Rightarrow> (False, st)
            | Some eg \<Rightarrow> (True, upd_conn i (\<lambda>c. c\<lparr>c_egroup := HLive eg\<rparr>) st))
      else (True, st))"

definition reset_conn :: "lsp_conn \<Rightarrow> lsp_conn" where
  "reset_conn c =
     c\<lparr>c_state := CONN_CLOSED, c_union := UNull, attr := def_conn_attr,
       rcv_timeout := LSP_TIMEOUT_MAX, snd_timeout := LSP_TIMEOUT_MAX, s_opt := 0\<rparr>"

text \<open>What follows the search: the struct found gets its objects and its defaults.\<close>

definition setup_conn ::
  "conn_env \<Rightarrow> nat \<Rightarrow> 'z conn_sys_scheme \<Rightarrow> (nat option \<times> 'z conn_sys_scheme) exec" where
  "setup_conn env i st =
     xbind (need_rx_queue env i st) (\<lambda>(ok, st).
     if \<not> ok then Done (None, st)
     else (let (ok, st) = need_egroup env i st in
           if \<not> ok then Done (None, st)
           else Done (Some i, upd_conn i reset_conn st)))"

definition lsp_conn_alloc ::
  "conn_env \<Rightarrow> 'z conn_sys_scheme \<Rightarrow> (nat option \<times> 'z conn_sys_scheme) exec" where
  "lsp_conn_alloc env st =
     xbind (conn_lock st) (\<lambda>st.
     xbind (find_free st [0..<nat LSP_DEFAULT_MAX_CONNECTIONS]) (\<lambda>conn.
     xbind (conn_unlock st) (\<lambda>st.
     case conn of None \<Rightarrow> Done (None, st) | Some i \<Rightarrow> setup_conn env i st)))"

subsection \<open>The receive queue\<close>

text \<open>
  The two loops of this file pop with timeout 0, which does not wait, neither for an item nor for the mutex of the
  queue: \<open>lsp_mutex_lock\<close> is refused when another thread is inside the queue. The field \<open>refusals\<close> says what the
  mutexes answer to the pops of the loops to come, \<open>True\<close> being a refusal; when it is used up, they are free. (It
  is not memory of the program, and any finite pattern of refusals is some value of it.)
\<close>

definition next_lock :: "bool list \<Rightarrow> int \<times> bool list" where
  "next_lock ls =
     (case ls of
        [] \<Rightarrow> (LSP_ERR_NONE, [])
      | refused # ls \<Rightarrow> (if refused then LSP_ERR_MUTEX else LSP_ERR_NONE, ls))"

text \<open>
  The loop of \<open>lsp_conn_rxq_flush\<close>: it goes on while a pop fails, be it that the queue is empty or that its mutex is
  refused. \<open>b\<close> is what the memory held: a failed pop does not write it.
\<close>

partial_function (option) flush_loop ::
  "(size_t option \<Rightarrow> unit exec) \<Rightarrow> size_t option \<Rightarrow> bool list \<Rightarrow> lsp_queue \<Rightarrow>
     (bool list \<times> lsp_queue) exec option" where
  "flush_loop bfree b ls q =
     (case lsp_queue_pop (fst (next_lock ls)) (\<lambda>q. (0, q)) 0 q of
        Fault e \<Rightarrow> Some (Fault e)
      | Hang \<Rightarrow> Some Hang
      | Done (rc, item, q') \<Rightarrow>
          if rc \<noteq> LSP_ERR_NONE
          then (case bfree b of
                  Fault e \<Rightarrow> Some (Fault e)
                | Hang \<Rightarrow> Some Hang
                | Done _ \<Rightarrow> flush_loop bfree b (snd (next_lock ls)) q')
          else Some (Done (snd (next_lock ls), q')))"

definition lsp_conn_rxq_flush ::
  "conn_env \<Rightarrow> nat option \<Rightarrow> 'z conn_sys_scheme \<Rightarrow> (int \<times> 'z conn_sys_scheme) exec" where
  "lsp_conn_rxq_flush env conn st =
     xbind (conn_deref st conn) (\<lambda>i.
     if rx_queue (conns st i) = HNull then Done (LSP_ERR_INVALID, st)
     else xbind (hget (rx_queue (conns st i))) (\<lambda>q.
       xbind (of_loop (flush_loop (buffer_free env) (buff0 env) (refusals st) q)) (\<lambda>(ls, q').
       Done (LSP_ERR_NONE, upd_conn i (\<lambda>c. c\<lparr>rx_queue := HLive q'\<rparr>) (st\<lparr>refusals := ls\<rparr>)))))"

text \<open>\<open>buffer\<close> is the pointer pushed, as its eight bytes.\<close>

definition lsp_conn_rxq_push ::
  "int \<Rightarrow> (lsp_queue \<Rightarrow> int \<times> lsp_queue) \<Rightarrow> u8 list \<Rightarrow> nat option \<Rightarrow> 'z conn_sys_scheme \<Rightarrow>
     (int \<times> 'z conn_sys_scheme) exec" where
  "lsp_conn_rxq_push lock_rc wait buffer conn st =
     xbind (conn_deref st conn) (\<lambda>i.
     xbind (hget (rx_queue (conns st i))) (\<lambda>q.
     xbind (lsp_queue_push lock_rc wait buffer LSP_DEFAULT_QUEUE_TIMEOUT_MS q) (\<lambda>(rc, q').
     Done (rc, upd_conn i (\<lambda>c. c\<lparr>rx_queue := HLive q'\<rparr>) st))))"

subsection \<open>Closing and freeing\<close>

text \<open>With \<open>LSP_CONN_PERSISTENT_RXQUEUE\<close> on, closing destroys the receive queue.\<close>

definition close_rx_queue :: "conn_env \<Rightarrow> nat \<Rightarrow> int \<Rightarrow> 'z conn_sys_scheme \<Rightarrow> (int \<times> 'z conn_sys_scheme) exec"
  where
  "close_rx_queue env i rc st =
     (if \<not> LSP_CONN_PERSISTENT_RXQUEUE env then Done (rc, st)
      else xbind (hget (rx_queue (conns st i))) (\<lambda>q.
        let (rc, left) = lsp_queue_destroy (queue_destroy_rc env) q;
            st = upd_conn i (\<lambda>c. c\<lparr>rx_queue := (case left of None \<Rightarrow> HFreed | Some q \<Rightarrow> HLive q)\<rparr>) st
        in if rc = LSP_ERR_NONE
           then Done (rc, upd_conn i (\<lambda>c. c\<lparr>rx_queue := HNull\<rparr>) st)
           else Done (rc, st)))"

text \<open>
  With the switch off the code assigns the result of \<open>lsp_egroup_destroy\<close>, a void function, so
  that result is \<open>destroy_value\<close>; destroying the event group of a NULL handle faults.
\<close>

definition close_egroup :: "conn_env \<Rightarrow> nat \<Rightarrow> int \<Rightarrow> 'z conn_sys_scheme \<Rightarrow> (int \<times> 'z conn_sys_scheme) exec"
  where
  "close_egroup env i rc st =
     (if LSP_CONN_EGROUP_POOL env then Done (rc, st)
      else xbind (hget (c_egroup (conns st i))) (\<lambda>eg.
        let rc = destroy_value env;
            st = upd_conn i (\<lambda>c. c\<lparr>c_egroup := (case lsp_egroup_destroy eg of
                                                None \<Rightarrow> HFreed | Some e \<Rightarrow> HLive e)\<rparr>) st
        in if rc = LSP_ERR_NONE
           then Done (rc, upd_conn i (\<lambda>c. c\<lparr>c_egroup := HNull\<rparr>) st)
           else Done (rc, st)))"

definition lsp_conn_close ::
  "conn_env \<Rightarrow> nat option \<Rightarrow> 'z conn_sys_scheme \<Rightarrow> (int \<times> 'z conn_sys_scheme) exec" where
  "lsp_conn_close env conn st =
     xbind (conn_deref st conn) (\<lambda>i.
     if c_state (conns st i) \<le> CONN_CLOSED then Done (LSP_ERR_NONE, st)
     else
       (let st = upd_conn i (\<lambda>c. c\<lparr>c_state := CONN_CLOSED\<rparr>) st in
        xbind (lsp_list_del (Some (ConnNode i)) (plinks st)) (\<lambda>h.
        xbind (lsp_conn_rxq_flush env conn (st\<lparr>plinks := h\<rparr>)) (\<lambda>(rc, st).
        if rc \<noteq> LSP_ERR_NONE then Done (rc, st)
        else xbind (close_rx_queue env i rc st) (\<lambda>(rc, st). close_egroup env i rc st)))))"

definition destroy_children :: "nat \<Rightarrow> 'z conn_sys_scheme \<Rightarrow> 'z conn_sys_scheme exec" where
  "destroy_children i st =
     xbind (children_of (c_union (conns st i))) (\<lambda>q.
     Done (upd_conn i (\<lambda>c. c\<lparr>c_union := (case snd (lsp_queue_destroy 0 q) of
                                            None \<Rightarrow> UFreedQueue | Some q' \<Rightarrow> UQueue q')\<rparr>) st))"

text \<open>
  What comes before the loop over the children, and one pop of that loop, in which \<open>sock\<close> keeps its value if the pop
  writes nothing. The loop ends when the queue is empty, and goes on when its mutex is refused.
\<close>

definition free_enter ::
  "conn_env \<Rightarrow> nat option \<Rightarrow> 'z conn_sys_scheme \<Rightarrow> (nat \<times> int \<times> 'z conn_sys_scheme) exec" where
  "free_enter env conn st =
     xbind (conn_deref st conn) (\<lambda>i.
     xbind (if c_state (conns st i) \<noteq> CONN_CLOSED then lsp_conn_close env conn st
            else Done (rc0 env i, st)) (\<lambda>(rc, st).
     Done (i, rc, st)))"

definition pop_child ::
  "conn_env \<Rightarrow> nat \<Rightarrow> nat option \<Rightarrow> 'z conn_sys_scheme \<Rightarrow> (bool \<times> nat option \<times> 'z conn_sys_scheme) exec"
  where
  "pop_child env i sock st =
     xbind (children_of (c_union (conns st i))) (\<lambda>q.
     xbind (lsp_queue_pop (fst (next_lock (refusals st))) (\<lambda>q. (0, q)) 0 q) (\<lambda>(rc, item, q').
     Done (rc \<noteq> LSP_ERR_QUEUE_EMPTY, case item of None \<Rightarrow> sock | Some x \<Rightarrow> conn_at env x,
           upd_conn i (\<lambda>c. c\<lparr>c_union := UQueue q'\<rparr>) (st\<lparr>refusals := snd (next_lock (refusals st))\<rparr>))))"

text \<open>
  \<open>lsp_conn_free\<close> calls itself in the loop over its children. Both are one recursive function:
  with \<open>None\<close> it is the call on \<open>conn\<close>, with \<open>Some (i, rc)\<close> the loop (and the rest) of the call on
  \<open>i\<close> whose result so far is \<open>rc\<close>, and \<open>conn\<close> is the local \<open>sock\<close> of that call.
\<close>

partial_function (option) conn_free_rec ::
  "conn_env \<Rightarrow> (nat \<times> int) option \<Rightarrow> nat option \<Rightarrow> 'z conn_sys_scheme \<Rightarrow>
     (int \<times> 'z conn_sys_scheme) exec option" where
  "conn_free_rec env at conn st =
     (case at of
        None \<Rightarrow>
          (case free_enter env conn st of
             Fault e \<Rightarrow> Some (Fault e)
           | Hang \<Rightarrow> Some Hang
           | Done (i, rc, st) \<Rightarrow>
               if rc \<noteq> LSP_ERR_NONE then Some (Done (rc, st))
               else if c_type (conns st i) = CONN_SERVER then conn_free_rec env (Some (i, rc)) (sock0 env i) st
               else Some (Done (rc, upd_conn i (\<lambda>c. c\<lparr>c_state := CONN_FREE\<rparr>) st)))
      | Some (i, rc) \<Rightarrow>
          (case pop_child env i conn st of
             Fault e \<Rightarrow> Some (Fault e)
           | Hang \<Rightarrow> Some Hang
           | Done (again, sock, st) \<Rightarrow>
               if again
               then Option.bind (conn_free_rec env None sock st) (\<lambda>r.
                 case r of
                   Fault e \<Rightarrow> Some (Fault e)
                 | Hang \<Rightarrow> Some Hang
                 | Done (_, st) \<Rightarrow> conn_free_rec env (Some (i, rc)) sock st)
               else Some (xbind (destroy_children i st) (\<lambda>st.
                 Done (rc, upd_conn i (\<lambda>c. c\<lparr>c_state := CONN_FREE\<rparr>) st)))))"

definition lsp_conn_free ::
  "conn_env \<Rightarrow> nat option \<Rightarrow> 'z conn_sys_scheme \<Rightarrow> (int \<times> 'z conn_sys_scheme) exec" where
  "lsp_conn_free env conn st = of_loop (conn_free_rec env None conn st)"

subsection \<open>A live pool\<close>

text \<open>
  \<open>lsp_conn_init\<close> never leaves a live pool (see the properties), so what the other functions do is
  stated from any state with a pool of at least one struct whose mutex is free.
\<close>

definition live :: "nat \<Rightarrow> 'z conn_sys_scheme \<Rightarrow> bool" where
  "live n st \<longleftrightarrow> conn_pool st = HLive n \<and> \<not> conn_mutex st"

lemma live_pool: "live n st \<Longrightarrow> conn_pool st = HLive n"
  by (simp add: live_def)

lemma conn_deref_pool: "conn_pool st = HLive n \<Longrightarrow> i < n \<Longrightarrow> conn_deref st (Some i) = Done i"
  by (simp add: conn_deref_def)

lemma conn_deref_live: "live n st \<Longrightarrow> i < n \<Longrightarrow> conn_deref st (Some i) = Done i"
  by (simp add: conn_deref_def live_def)

lemma pool_read_live:
  "live n st \<Longrightarrow> pool_read st i = (if i < n then Done (conns st i) else Fault OutOfBounds)"
  by (simp add: pool_read_def live_def xguard_def)

lemma upd_conn_simps [simp]:
  "conns (upd_conn i f st) = (conns st)(i := f (conns st i))"
  "conn_pool (upd_conn i f st) = conn_pool st" "conn_mutex (upd_conn i f st) = conn_mutex st"
  "plinks (upd_conn i f st) = plinks st" "lsp_conf_of (upd_conn i f st) = lsp_conf_of st"
  "refusals (upd_conn i f st) = refusals st" "live n (upd_conn i f st) = live n st"
  by (simp_all add: upd_conn_def live_def)

lemma refusals_none [simp]: "refusals st = [] \<Longrightarrow> st\<lparr>refusals := []\<rparr> = st"
  by simp

lemma refusals_simps [simp]:
  "live n (st\<lparr>refusals := ls\<rparr>) = live n st" "conn_deref (st\<lparr>refusals := ls\<rparr>) p = conn_deref st p"
  by (simp_all add: live_def conn_deref_def split: option.split)

text \<open>The search of \<open>lsp_conn_alloc\<close>: the lowest free index, if one is inside the pool.\<close>

lemma find_free_live:
  assumes "live n st"
  shows "find_free st [k..<m] =
    (case find (\<lambda>i. n \<le> i \<or> c_state (conns st i) = CONN_FREE) [k..<m] of
       None \<Rightarrow> Done None
     | Some i \<Rightarrow> if i < n then Done (Some i) else Fault OutOfBounds)"
proof -
  have "find_free st is =
    (case find (\<lambda>i. n \<le> i \<or> c_state (conns st i) = CONN_FREE) is of
       None \<Rightarrow> Done None
     | Some i \<Rightarrow> if i < n then Done (Some i) else Fault OutOfBounds)" for "is"
    by (induction "is") (auto simp: pool_read_live [OF assms])
  then show ?thesis .
qed

lemma find_upt_Some: "find P [0..<m] = Some i \<longleftrightarrow> i < m \<and> P i \<and> (\<forall>j<i. \<not> P j)"
  by (auto simp: find_Some_iff)

lemma find_upt_None: "find P [0..<m] = None \<longleftrightarrow> (\<forall>j<m. \<not> P j)"
  by (auto simp: find_None_iff)

subsection \<open>The flush loop\<close>

text \<open>
  It takes one item off a queue that has one, unless it is refused the mutex and the unset pointer cannot be freed; and
  it never gets past an empty queue, refused or not.
\<close>

lemma next_lock_simps [simp]:
  "next_lock [] = (LSP_ERR_NONE, [])" "next_lock (False # ls) = (LSP_ERR_NONE, ls)"
  "next_lock (True # ls) = (LSP_ERR_MUTEX, ls)"
  by (simp_all add: next_lock_def)

lemma next_lock_cases: "fst (next_lock ls) = LSP_ERR_NONE \<or> fst (next_lock ls) = LSP_ERR_MUTEX"
  by (simp add: next_lock_def split: list.split)

lemma mutex_not_none: "LSP_ERR_MUTEX \<noteq> LSP_ERR_NONE" "LSP_ERR_MUTEX \<noteq> LSP_ERR_QUEUE_EMPTY"
  by (simp_all add: lsp_consts)

lemma pop_refused: "lsp_queue_pop LSP_ERR_MUTEX w t q = Done (LSP_ERR_MUTEX, None, q)"
  by (simp add: lsp_queue_pop_def pop_enter_def mutex_not_none)

definition refused :: "bool list \<Rightarrow> bool" where
  "refused ls \<longleftrightarrow> ls \<noteq> [] \<and> hd ls"

lemma refused_simps [simp]: "\<not> refused []" "refused (r # ls) = r"
  by (simp_all add: refused_def)

text \<open>The refusals that are left when a pop has had the mutex.\<close>

definition rest_refusals :: "bool list \<Rightarrow> bool list" where
  "rest_refusals ls = tl (dropWhile id ls)"

lemma rest_refusals_simps [simp]:
  "rest_refusals [] = []" "rest_refusals (True # ls) = rest_refusals ls" "rest_refusals (False # ls) = ls"
  by (simp_all add: rest_refusals_def)

lemma rest_refusals_length: "length (rest_refusals ls) \<le> length ls"
proof -
  have "length (dropWhile id ls) \<le> length ls"
    by (rule length_dropWhile_le)
  then show ?thesis
    by (simp add: rest_refusals_def)
qed

lemma flush_loop_some:
  assumes "q_inv q" "q_items q = x # xs"
  shows "\<exists>q'. q_inv q' \<and> q_items q' = xs \<and> itemsize q' = itemsize q
    \<and> (\<forall>bfree b ls. flush_loop bfree b ls q =
        Some (if refused ls then (case bfree b of
                  Fault e \<Rightarrow> Fault e | Hang \<Rightarrow> Hang | Done _ \<Rightarrow> Done (rest_refusals ls, q'))
              else Done (rest_refusals ls, q')))"
proof -
  have l: "\<not> q_length q \<le> 0"
    using assms(2) length_q_items [of q] by auto
  obtain q' where q': "lsp_queue_pop LSP_ERR_NONE (\<lambda>q. (0, q)) 0 q = Done (LSP_ERR_NONE, Some x, q')"
    "q_inv q'" "q_items q' = xs"
    using ring_buffer.pop_some [OF assms, of "\<lambda>q. (0, q)"] by blast
  moreover from this have "itemsize q' = itemsize q"
    using pop_nowait [OF assms(1), of "\<lambda>q. (0, q)"] l by (auto simp: taken_def)
  moreover have "flush_loop bfree b ls q =
        Some (if refused ls then (case bfree b of
                  Fault e \<Rightarrow> Fault e | Hang \<Rightarrow> Hang | Done _ \<Rightarrow> Done (rest_refusals ls, q'))
              else Done (rest_refusals ls, q'))" for bfree b ls
  proof (induction ls)
    case Nil
    then show ?case
      using q'(1) by (subst flush_loop.simps) simp
  next
    case (Cons r ls)
    then show ?case
      using q'(1) by (subst flush_loop.simps)
        (cases r; cases "bfree b"; simp add: pop_refused mutex_not_none)
  qed
  ultimately show ?thesis
    by blast
qed

lemma flush_loop_pop_empty:
  assumes "q_inv q" "q_items q = []"
  shows "lsp_queue_pop LSP_ERR_NONE (\<lambda>q. (0, q)) 0 q = Done (LSP_ERR_QUEUE_EMPTY, None, q)"
  using ring_buffer.pop_none [OF assms] .

lemma empty_not_none: "LSP_ERR_QUEUE_EMPTY \<noteq> LSP_ERR_NONE"
  by (simp add: lsp_consts)

text \<open>A pop that takes nothing.\<close>

lemma pop_fails:
  assumes "q_inv q" "q_items q = []"
  shows "\<exists>rc. rc \<noteq> LSP_ERR_NONE \<and> lsp_queue_pop (fst (next_lock ls)) (\<lambda>q. (0, q)) 0 q = Done (rc, None, q)"
  using next_lock_cases [of ls] flush_loop_pop_empty [OF assms] empty_not_none mutex_not_none(1)
  by (auto simp: pop_refused)

lemma flush_loop_empty_no_value:
  assumes "flush_loop bfree b ls q = Some r"
  shows "q_inv q \<longrightarrow> q_items q = [] \<longrightarrow> bfree b \<noteq> Done ()"
proof (rule flush_loop.raw_induct
    [where P = "\<lambda>f b ls q r. q_inv q \<longrightarrow> q_items q = [] \<longrightarrow> f b \<noteq> Done ()", OF _ assms], intro impI notI, goal_cases)
  case (1 loop bfree b ls q r)
  then show ?case
    using pop_fails [of q ls] by auto
qed

lemma flush_loop_empty:
  assumes "q_inv q" "q_items q = []"
  shows "of_loop (flush_loop bfree b ls q) =
    (case bfree b of Fault e \<Rightarrow> Fault e | _ \<Rightarrow> Hang)"
proof -
  obtain rc where rc: "rc \<noteq> LSP_ERR_NONE"
    "lsp_queue_pop (fst (next_lock ls)) (\<lambda>q. (0, q)) 0 q = Done (rc, None, q)"
    using pop_fails [OF assms] by blast
  show ?thesis
  proof (cases "bfree b")
    case (Done u)
    then show ?thesis
      using flush_loop_empty_no_value [of bfree b ls q] assms by (cases "flush_loop bfree b ls q") auto
  next
    case (Fault e)
    then show ?thesis
      using rc by (subst flush_loop.simps) simp
  next
    case Hang
    then show ?thesis
      using rc by (subst flush_loop.simps) simp
  qed
qed

lemma rxq_flush_live:
  assumes "live n st" "i < n" "rx_queue (conns st i) = HLive q"
  shows "lsp_conn_rxq_flush env (Some i) st =
    xbind (of_loop (flush_loop (buffer_free env) (buff0 env) (refusals st) q)) (\<lambda>(ls, q').
      Done (LSP_ERR_NONE, upd_conn i (\<lambda>c. c\<lparr>rx_queue := HLive q'\<rparr>) (st\<lparr>refusals := ls\<rparr>)))"
  using assms by (simp add: lsp_conn_rxq_flush_def conn_deref_live)

subsection \<open>The objects of a connection\<close>

lemma upd_conn_same: "f (conns st i) = conns st i \<Longrightarrow> upd_conn i f st = st"
  by (simp add: upd_conn_def)

lemma need_rx_queue_ok:
  assumes "rx_queue (conns st i) \<noteq> HNull
      \<or> new_queue env (uint (conn_queuelen (lsp_conf_of st))) 8 = Done (Some q)"
  shows "\<exists>rx. rx \<noteq> HNull \<and> need_rx_queue env i st = Done (True, upd_conn i (\<lambda>c. c\<lparr>rx_queue := rx\<rparr>) st)"
proof (cases "rx_queue (conns st i) = HNull")
  case False
  then show ?thesis
    by (intro exI [of _ "rx_queue (conns st i)"]) (simp add: need_rx_queue_def upd_conn_same)
qed (use assms in \<open>auto simp: need_rx_queue_def\<close>)

lemma need_egroup_ok:
  assumes "c_egroup (conns st i) \<noteq> HNull \<or> new_egroup env = Some eg"
  shows "\<exists>e. need_egroup env i st = (True, upd_conn i (\<lambda>c. c\<lparr>c_egroup := e\<rparr>) st)"
proof (cases "\<not> LSP_CONN_EGROUP_POOL env \<and> c_egroup (conns st i) = HNull")
  case False
  then show ?thesis
    by (intro exI [of _ "c_egroup (conns st i)"]) (auto simp: need_egroup_def upd_conn_same)
qed (use assms in \<open>auto simp: need_egroup_def\<close>)

subsection \<open>Properties: the pool\<close>

definition env_example :: conn_env where
  "env_example =
     \<lparr>LSP_CONN_EGROUP_POOL = False, LSP_CONN_PERSISTENT_RXQUEUE = False, rc0 = (\<lambda>_. 0),
      destroy_value = 0, queue_destroy_rc = 0, buff0 = None, sock0 = (\<lambda>_. None),
      buffer_free = (\<lambda>b. if b = None then Done () else Fault BadFree),
      conn_at = (\<lambda>bs. case bs of [] \<Rightarrow> None | b # _ \<Rightarrow> Some (unat b)),
      new_queue = lsp_queue_create 176 (\<lambda>_. True) 0 0 0,
      new_egroup = lsp_egroup_create True 0 0\<rparr>"

definition sys_example :: conn_sys where
  "sys_example =
     \<lparr>lsp_conf_of = default_conf, conn_pool = HNull, conns = (\<lambda>_. conn_zero),
      plinks = \<lparr>lnext = (\<lambda>_. None), lprev = (\<lambda>_. None), lvalid = (\<lambda>_. False)\<rparr>,
      conn_mutex = False, refusals = []\<rparr>"

lemma init_egroups_frame:
  "init_egroups env c d is rc st = (rc', st') \<Longrightarrow>
     conn_pool st' = conn_pool st \<and> conn_mutex st' = conn_mutex st"
  by (induction "is" arbitrary: rc st) (auto split: prod.splits if_splits)

text \<open>
  C40. Initialising the pool, with or without the pool of event groups: it never leaves a pool behind.
  When memory is short the pool pointer stays NULL and the next \<open>lsp_conn_alloc\<close> dereferences it;
  when the allocation succeeds the block is freed before the function returns, the next
  \<open>lsp_conn_alloc\<close> reads freed memory, and a second initialisation stops in the assertion. In the
  configuration without the second pool the value returned is whatever \<open>rc\<close> held.
\<close>

theorem conn_init_outcome:
  assumes "conn_pool st = HNull"
  shows "\<exists>rc st'. lsp_conn_init env rc1 pool_ok egroups_ok c d st = Done (rc, st')
    \<and> (if pool_ok
       then conn_pool st' = HFreed \<and> lsp_conn_alloc env st' = Fault BadPtr
         \<and> lsp_conn_init env rc1 pool_ok egroups_ok c d st' = Hang
         \<and> (LSP_CONN_EGROUP_POOL env \<or> rc = rc1)
       else rc = - LSP_ERR_NOMEM \<and> conn_pool st' = HNull
         \<and> lsp_conn_alloc env st' = Fault NullDeref)"
proof -
  let ?n = "unat (conn_max (lsp_conf_of st))"
  let ?st = "new_pool ?n (st\<lparr>conn_mutex := False\<rparr>)"
  obtain rc2 st2 where e: "init_egroups env c d [0..<?n] rc1 ?st = (rc2, st2)" "\<not> conn_mutex st2"
    by (cases "init_egroups env c d [0..<?n] rc1 ?st") (auto simp: new_pool_def dest: init_egroups_frame)
  have "\<not> conn_mutex ?st"
    by (simp add: new_pool_def)
  then obtain rc st' where r: "lsp_conn_init env rc1 pool_ok egroups_ok c d st = Done (rc, st')"
    "conn_pool st' = (if pool_ok then HFreed else HNull)" "\<not> conn_mutex st'"
    "pool_ok \<longrightarrow> LSP_CONN_EGROUP_POOL env \<or> rc = rc1" "pool_ok \<or> rc = - LSP_ERR_NOMEM"
    using assms e by (cases pool_ok; cases "LSP_CONN_EGROUP_POOL env"; cases egroups_ok)
      (simp_all add: lsp_conn_init_def free_pool_def Let_def)
  have "[0..<nat LSP_DEFAULT_MAX_CONNECTIONS] = 0 # [1..<nat LSP_DEFAULT_MAX_CONNECTIONS]"
    by (simp add: lsp_consts upt_conv_Cons)
  then have "lsp_conn_alloc env st' = Fault (if pool_ok then BadPtr else NullDeref)"
    using r(2,3) by (simp add: lsp_conn_alloc_def conn_lock_def pool_read_def)
  with r show ?thesis
    by (auto simp: lsp_conn_init_def)
qed

theorem conn_init_outcome_witness:
  "\<exists>rc st'. lsp_conn_init env_example 5 True True (\<lambda>_. 0) (\<lambda>_. 0) sys_example = Done (rc, st')
     \<and> rc = 5 \<and> lsp_conn_alloc env_example st' = Fault BadPtr"
  using conn_init_outcome [of sys_example env_example 5 True True "\<lambda>_. 0" "\<lambda>_. 0"]
  by (auto simp: sys_example_def env_example_def)

lemma conn_alloc_search:
  assumes "live n st"
  shows "lsp_conn_alloc env st =
    (case find (\<lambda>i. n \<le> i \<or> c_state (conns st i) = CONN_FREE) [0..<32] of
       None \<Rightarrow> Done (None, st)
     | Some i \<Rightarrow> if n \<le> i then Fault OutOfBounds else setup_conn env i st)"
proof -
  have m: "nat LSP_DEFAULT_MAX_CONNECTIONS = 32"
    by (simp add: lsp_consts)
  have lk: "conn_lock st = Done (st\<lparr>conn_mutex := True\<rparr>)" "st\<lparr>conn_mutex := False\<rparr> = st"
    using assms by (simp_all add: conn_lock_def live_def)
  have ff: "find_free (st\<lparr>conn_mutex := True\<rparr>) is = find_free st is" for "is"
    by (induction "is") (simp_all add: pool_read_def cong: if_cong)
  show ?thesis
    using find_free_live [OF assms, of 0 32] lk
    by (simp add: lsp_conn_alloc_def m ff conn_unlock_def split: option.split)
qed

lemma setup_conn_ok:
  assumes "rx_queue (conns st i) \<noteq> HNull
      \<or> new_queue env (uint (conn_queuelen (lsp_conf_of st))) 8 = Done (Some q)"
    and "c_egroup (conns st i) \<noteq> HNull \<or> new_egroup env = Some eg"
  shows "\<exists>st' rx eg'. setup_conn env i st = Done (Some i, st') \<and> rx \<noteq> HNull
    \<and> conns st' = (conns st)(i := reset_conn ((conns st i)\<lparr>rx_queue := rx, c_egroup := eg'\<rparr>))
    \<and> plinks st' = plinks st \<and> (\<forall>n. live n st' = live n st)"
proof -
  obtain rx where rx: "rx \<noteq> HNull"
    "need_rx_queue env i st = Done (True, upd_conn i (\<lambda>c. c\<lparr>rx_queue := rx\<rparr>) st)"
    using need_rx_queue_ok [OF assms(1)] by blast
  let ?st = "upd_conn i (\<lambda>c. c\<lparr>rx_queue := rx\<rparr>) st"
  obtain e where "need_egroup env i ?st = (True, upd_conn i (\<lambda>c. c\<lparr>c_egroup := e\<rparr>) ?st)"
    using need_egroup_ok [of ?st i env eg] assms(2) by auto
  then have "setup_conn env i st =
      Done (Some i, upd_conn i reset_conn (upd_conn i (\<lambda>c. c\<lparr>c_egroup := e\<rparr>) ?st))"
    by (simp add: setup_conn_def rx(2))
  with rx(1) show ?thesis
    by (intro exI [of _ "upd_conn i reset_conn (upd_conn i (\<lambda>c. c\<lparr>c_egroup := e\<rparr>) ?st)"]
        exI [of _ rx] exI [of _ e]) simp
qed

text \<open>What is promised of an allocated struct, member by member; \<open>q\<close> and \<open>eg\<close> are what the two constructors return.\<close>

definition taken_struct :: "conn_env \<Rightarrow> lsp_queue \<Rightarrow> egroup \<Rightarrow> lsp_conn \<Rightarrow> lsp_conn" where
  "taken_struct env q eg c =
     \<lparr>c_type = c_type c, c_state = CONN_CLOSED,
      attr = \<lparr>priority = word_of_int LSP_CONN_PRIO_DEF, lport = 0xFF, laddr = 0xFFFF, rport = 0xFF, raddr = 0xFFFF,
              attr_flags = 0\<rparr>,
      c_egroup = (if c_egroup c = HNull \<and> \<not> LSP_CONN_EGROUP_POOL env then HLive eg else c_egroup c),
      c_union = UNull, rcv_timeout = LSP_TIMEOUT_MAX, snd_timeout = LSP_TIMEOUT_MAX, s_opt = 0,
      c_timestamp = c_timestamp c,
      rx_queue = (if rx_queue c = HNull then HLive q else rx_queue c)\<rparr>"

lemma setup_conn_exact:
  assumes "rx_queue (conns st i) \<noteq> HNull
      \<or> new_queue env (uint (conn_queuelen (lsp_conf_of st))) 8 = Done (Some q)"
    and "c_egroup (conns st i) \<noteq> HNull \<or> new_egroup env = Some eg"
  shows "setup_conn env i st = Done (Some i, st\<lparr>conns := (conns st)(i := taken_struct env q eg (conns st i))\<rparr>)"
proof -
  have t: "reset_conn (c\<lparr>rx_queue := if rx_queue c = HNull then HLive q else rx_queue c,
      c_egroup := if c_egroup c = HNull \<and> \<not> LSP_CONN_EGROUP_POOL env then HLive eg else c_egroup c\<rparr>)
    = taken_struct env q eg c" for c
    by (cases c) (simp add: reset_conn_def taken_struct_def def_conn_attr_def lsp_consts)
  let ?rx = "if rx_queue (conns st i) = HNull then HLive q else rx_queue (conns st i)"
  let ?st = "upd_conn i (\<lambda>c. c\<lparr>rx_queue := ?rx\<rparr>) st"
  let ?eg = "if c_egroup (conns st i) = HNull \<and> \<not> LSP_CONN_EGROUP_POOL env then HLive eg else c_egroup (conns st i)"
  let ?st2 = "upd_conn i (\<lambda>c. c\<lparr>c_egroup := ?eg\<rparr>) ?st"
  have 1: "need_rx_queue env i st = Done (True, ?st)"
    using assms(1) by (auto simp: need_rx_queue_def upd_conn_same)
  have 2: "need_egroup env i ?st = (True, ?st2)"
    using assms(2) by (auto simp: need_egroup_def upd_conn_same)
  have "upd_conn i reset_conn ?st2 = st\<lparr>conns := (conns st)(i := taken_struct env q eg (conns st i))\<rparr>"
    using t [of "conns st i"] by (simp add: upd_conn_def)
  with 1 2 show ?thesis
    by (simp add: setup_conn_def)
qed

lemma conn_alloc_exact:
  assumes "live n st"
    and "\<forall>i<n. rx_queue (conns st i) \<noteq> HNull
      \<or> new_queue env (uint (conn_queuelen (lsp_conf_of st))) 8 = Done (Some q)"
    and "\<forall>i<n. c_egroup (conns st i) \<noteq> HNull \<or> new_egroup env = Some eg"
  shows "case find (\<lambda>i. n \<le> i \<or> c_state (conns st i) = CONN_FREE) [0..<32] of
      None \<Rightarrow> lsp_conn_alloc env st = Done (None, st)
    | Some i \<Rightarrow>
        if n \<le> i then lsp_conn_alloc env st = Fault OutOfBounds
        else c_state (conns st i) = CONN_FREE \<and> (\<forall>j<i. c_state (conns st j) \<noteq> CONN_FREE)
          \<and> lsp_conn_alloc env st =
              Done (Some i, st\<lparr>conns := (conns st)(i := taken_struct env q eg (conns st i))\<rparr>)"
proof (cases "find (\<lambda>i. n \<le> i \<or> c_state (conns st i) = CONN_FREE) [0..<32]")
  case None
  then show ?thesis
    by (simp add: conn_alloc_search [OF assms(1)])
next
  case (Some i)
  then have i: "n \<le> i \<or> c_state (conns st i) = CONN_FREE" "\<forall>j<i. c_state (conns st j) \<noteq> CONN_FREE"
    by (simp_all add: find_upt_Some)
  show ?thesis
  proof (cases "n \<le> i")
    case False
    then have "i < n" by simp
    from setup_conn_exact [OF assms(2,3) [rule_format, OF this]] False Some i assms(1) show ?thesis
      by (auto simp: conn_alloc_search [OF assms(1)])
  qed (simp add: conn_alloc_search [OF assms(1)] Some)
qed

text \<open>
  C36. Allocating from a live pool of \<open>n\<close> structs, when queues and event groups can be had. The lowest free connection
  below 32 is taken: it becomes closed with the default attributes (ports and addresses \<open>ANY\<close>), no children or parent,
  unlimited timeouts and no options; it keeps the receive queue and the event group it has and gets new ones where
  it has none (no event group if they come from a pool); type and timestamp are left as they were, and nothing else
  changes. When the first 32 are taken the result is NULL.
  But the loop goes to 32 whatever the configured maximum: when the pool is smaller and full, it
  reads past the end of the pool.
\<close>

theorem conn_alloc_outcome:
  assumes "live n st"
    and "\<forall>i<n. rx_queue (conns st i) \<noteq> HNull
      \<or> new_queue env (uint (conn_queuelen (lsp_conf_of st))) 8 = Done (Some q)"
    and "\<forall>i<n. c_egroup (conns st i) \<noteq> HNull \<or> new_egroup env = Some eg"
  shows "case find (\<lambda>i. n \<le> i \<or> c_state (conns st i) = CONN_FREE) [0..<32] of
      None \<Rightarrow> lsp_conn_alloc env st = Done (None, st)
    | Some i \<Rightarrow>
        if n \<le> i then lsp_conn_alloc env st = Fault OutOfBounds
        else c_state (conns st i) = CONN_FREE \<and> (\<forall>j<i. c_state (conns st j) \<noteq> CONN_FREE)
          \<and> lsp_conn_alloc env st =
              Done (Some i, st\<lparr>conns := (conns st)(i := taken_struct env q eg (conns st i))\<rparr>)"
  using conn_alloc_exact [OF assms] .

definition pool_example :: "nat \<Rightarrow> conn_sys" where
  "pool_example n = new_pool n (sys_example\<lparr>conn_pool := HLive n\<rparr>)"

lemma pool_example_live: "live n (pool_example n)"
  by (simp add: live_def pool_example_def new_pool_def sys_example_def)

lemma pool_example_conn [simp]: "conns (pool_example n) i = conn_zero"
  by (simp add: pool_example_def new_pool_def)

lemma env_example_queue: "\<exists>q. new_queue env_example 4 8 = Done (Some q)"
proof -
  have "\<exists>q. lsp_queue_create 176 (\<lambda>_. True) 0 0 0 4 8 = Done (Some q) \<and> q_inv q
      \<and> q_items q = [] \<and> unat (queue_size q) = nat 4 \<and> itemsize q = 8
      \<and> waiting_full q = 0 \<and> waiting_empty q = 0"
    by (rule queue_create_inv) simp_all
  then show ?thesis
    by (auto simp: env_example_def)
qed

lemma env_example_simps [simp]:
  "LSP_CONN_EGROUP_POOL env_example = False" "LSP_CONN_PERSISTENT_RXQUEUE env_example = False" "rc0 env_example = (\<lambda>_. 0)" "buff0 env_example = None"
  "destroy_value env_example = 0" "buffer_free env_example None = Done ()"
  "new_egroup env_example = Some \<lparr>event_bits = 0\<rparr>"
  by (simp_all add: env_example_def lsp_egroup_create_def)

theorem conn_alloc_outcome_witness:
  "\<exists>st'. lsp_conn_alloc env_example (pool_example 2) = Done (Some 0, st')
     \<and> c_state (conns st' 0) = CONN_CLOSED \<and> lport (attr (conns st' 0)) = 255
     \<and> c_egroup (conns st' 0) = HLive \<lparr>event_bits = 0\<rparr> \<and> (\<exists>q. rx_queue (conns st' 0) = HLive q)"
proof -
  obtain q where q: "new_queue env_example 4 8 = Done (Some q)"
    using env_example_queue by blast
  have ql: "uint (conn_queuelen (lsp_conf_of (pool_example 2))) = 4"
    by (simp add: pool_example_def new_pool_def sys_example_def default_conf_def lsp_consts)
  have f: "find (\<lambda>i. 2 \<le> i \<or> c_state (conns (pool_example 2) i) = CONN_FREE) [0..<32] = Some 0"
    by (simp add: find_upt_Some conn_zero_def)
  have "\<exists>st'. lsp_conn_alloc env_example (pool_example 2) = Done (Some 0, st')
      \<and> conns st' = (conns (pool_example 2))(0 := taken_struct env_example q \<lparr>event_bits = 0\<rparr> conn_zero)"
    using conn_alloc_outcome [OF pool_example_live, of 2 env_example q "\<lparr>event_bits = 0\<rparr>"] q
    unfolding f ql by auto
  then show ?thesis
    by (auto simp: taken_struct_def conn_zero_def)
qed

subsection \<open>Properties: receive queue, closing, freeing\<close>

text \<open>
  C38. Flushing the receive queue does the opposite of its name: with buffers waiting it takes the
  first one off, releases nothing and reports success; on an empty queue it releases the unset
  pointer \<open>b\<close> and, if that comes back, does so for ever. Being refused the mutex of the queue first makes it release
  \<open>b\<close> as well.
\<close>

theorem rxq_flush_outcome:
  assumes "live n st" and "i < n" and "rx_queue (conns st i) = HLive q" and "q_inv q"
  shows "case q_items q of
      [] \<Rightarrow> lsp_conn_rxq_flush env (Some i) st =
              (case buffer_free env (buff0 env) of Fault e \<Rightarrow> Fault e | _ \<Rightarrow> Hang)
    | b # bs \<Rightarrow> \<exists>q'. q_inv q' \<and> q_items q' = bs \<and> lsp_conn_rxq_flush env (Some i) st =
              (if refused (refusals st) \<and> buffer_free env (buff0 env) \<noteq> Done ()
               then (case buffer_free env (buff0 env) of Fault e \<Rightarrow> Fault e | _ \<Rightarrow> Hang)
               else Done (LSP_ERR_NONE, upd_conn i (\<lambda>c. c\<lparr>rx_queue := HLive q'\<rparr>)
                      (st\<lparr>refusals := rest_refusals (refusals st)\<rparr>)))"
proof (cases "q_items q")
  case Nil
  then show ?thesis
    using rxq_flush_live [OF assms(1-3), of env]
      flush_loop_empty [OF assms(4) Nil, of "buffer_free env" "buff0 env" "refusals st"]
    by (cases "buffer_free env (buff0 env)") simp_all
next
  case (Cons b bs)
  from flush_loop_some [OF assms(4) Cons] show ?thesis
    using rxq_flush_live [OF assms(1-3), of env] Cons
    by (cases "buffer_free env (buff0 env)") auto
qed

definition rx_example :: conn_sys where
  "rx_example = upd_conn 0 (\<lambda>c. c\<lparr>rx_queue := HLive queue_example\<rparr>) (pool_example 1)"

theorem rxq_flush_outcome_witness:
  "lsp_conn_rxq_flush env_example (Some 0) rx_example = Hang"
proof -
  have "live 1 rx_example" "rx_queue (conns rx_example 0) = HLive queue_example"
    by (simp_all add: rx_example_def pool_example_live)
  moreover have "q_items queue_example = []"
    by (simp add: q_items_def queue_example_def)
  ultimately show ?thesis
    using rxq_flush_outcome [OF _ _ _ queue_example_inv, of 1 rx_example 0 env_example]
    by simp
qed

text \<open>What closing returns for the receive queue, and what is left of it.\<close>

definition rx_close_rc :: "conn_env \<Rightarrow> lsp_queue \<Rightarrow> int" where
  "rx_close_rc env q =
     (if \<not> LSP_CONN_PERSISTENT_RXQUEUE env then LSP_ERR_NONE
      else if waiting_empty q \<noteq> 0 \<or> waiting_full q \<noteq> 0 then LSP_ERR_RESOURCE_IN_USE
      else queue_destroy_rc env)"

definition rx_left :: "conn_env \<Rightarrow> lsp_queue \<Rightarrow> lsp_queue handle" where
  "rx_left env q =
     (if \<not> LSP_CONN_PERSISTENT_RXQUEUE env \<or> waiting_empty q \<noteq> 0 \<or> waiting_full q \<noteq> 0 then HLive q
      else if queue_destroy_rc env = LSP_ERR_NONE then HNull else HFreed)"

lemma close_rx_queue_live:
  assumes "rx_queue (conns st i) = HLive q"
  shows "\<exists>st'. close_rx_queue env i LSP_ERR_NONE st = Done (rx_close_rc env q, st')
    \<and> conns st' = (conns st)(i := (conns st i)\<lparr>rx_queue := rx_left env q\<rparr>) \<and> plinks st' = plinks st"
proof -
  have s: "conns st = (conns st)(i := (conns st i)\<lparr>rx_queue := HLive q\<rparr>)"
    using assms by (auto simp: fun_eq_iff)
  have e: "LSP_ERR_RESOURCE_IN_USE \<noteq> LSP_ERR_NONE"
    by (simp add: lsp_consts)
  show ?thesis
    using assms s e by (auto simp: close_rx_queue_def lsp_queue_destroy_def rx_close_rc_def rx_left_def Let_def)
qed

lemma close_egroup_live:
  assumes "c_egroup (conns st i) = HLive eg"
  shows "\<exists>e st'. close_egroup env i rc st =
      Done (if LSP_CONN_EGROUP_POOL env then rc else destroy_value env, st')
    \<and> conns st' = (conns st)(i := (conns st i)\<lparr>c_egroup := e\<rparr>) \<and> plinks st' = plinks st"
proof (cases "LSP_CONN_EGROUP_POOL env")
  case True
  then show ?thesis
    by (intro exI [of _ "c_egroup (conns st i)"] exI [of _ st]) (simp add: close_egroup_def)
next
  case False
  then show ?thesis
    using assms
    by (cases "destroy_value env = LSP_ERR_NONE")
       (auto simp: close_egroup_def lsp_egroup_destroy_def Let_def)
qed

text \<open>Closing an open connection: what comes before the flush, and the rest.\<close>

lemma close_open:
  assumes "live n st" "i < n" "\<not> c_state (conns st i) \<le> CONN_CLOSED"
    and "ring (plinks st) head (xs @ ConnNode i # ys)"
  obtains st1 where "lsp_conn_close env (Some i) st =
      xbind (lsp_conn_rxq_flush env (Some i) st1) (\<lambda>(rc, st).
        if rc \<noteq> LSP_ERR_NONE then Done (rc, st)
        else xbind (close_rx_queue env i rc st) (\<lambda>(rc, st). close_egroup env i rc st))"
    and "live n st1" and "conns st1 = (conns st)(i := (conns st i)\<lparr>c_state := CONN_CLOSED\<rparr>)"
    and "refusals st1 = refusals st" and "ring (plinks st1) head (xs @ ys)"
proof -
  obtain h where h: "lsp_list_del (Some (ConnNode i)) (plinks st) = Done h" "ring h head (xs @ ys)"
    using lsp_list_del_ring [OF assms(4)] by blast
  show thesis
    by (rule that [of "(upd_conn i (\<lambda>c. c\<lparr>c_state := CONN_CLOSED\<rparr>) st)\<lparr>plinks := h\<rparr>"])
       (use assms h in \<open>simp_all add: lsp_conn_close_def conn_deref_live live_def\<close>)
qed

text \<open>The rest of closing, with a buffer waiting.\<close>

lemma close_rest_some:
  assumes "live n st" "i < n" "rx_queue (conns st i) = HLive q" "q_inv q" "q_items q = b # bs"
    "c_egroup (conns st i) = HLive eg" "refusals st = []"
  shows "\<exists>st' q' e. xbind (lsp_conn_rxq_flush env (Some i) st) (\<lambda>(rc, st).
        if rc \<noteq> LSP_ERR_NONE then Done (rc, st)
        else xbind (close_rx_queue env i rc st) (\<lambda>(rc, st). close_egroup env i rc st))
      = Done (if LSP_CONN_EGROUP_POOL env then rx_close_rc env q' else destroy_value env, st')
    \<and> q_items q' = bs \<and> plinks st' = plinks st
    \<and> conns st' = (conns st)(i := (conns st i)\<lparr>rx_queue := rx_left env q', c_egroup := e\<rparr>)"
proof -
  obtain q' where q': "q_items q' = bs" "lsp_conn_rxq_flush env (Some i) st =
      Done (LSP_ERR_NONE, upd_conn i (\<lambda>c. c\<lparr>rx_queue := HLive q'\<rparr>) st)"
    using rxq_flush_live [OF assms(1-3), of env] flush_loop_some [OF assms(4,5)] assms(7)
    by auto
  let ?st2 = "upd_conn i (\<lambda>c. c\<lparr>rx_queue := HLive q'\<rparr>) st"
  obtain st3 where st3: "close_rx_queue env i LSP_ERR_NONE ?st2 = Done (rx_close_rc env q', st3)"
    "conns st3 = (conns ?st2)(i := (conns ?st2 i)\<lparr>rx_queue := rx_left env q'\<rparr>)" "plinks st3 = plinks ?st2"
    using close_rx_queue_live [of ?st2 i q' env] by auto
  then have "c_egroup (conns st3 i) = HLive eg"
    using assms(6) by simp
  from close_egroup_live [OF this, of env "rx_close_rc env q'"] obtain e st4 where
    "close_egroup env i (rx_close_rc env q') st3 =
       Done (if LSP_CONN_EGROUP_POOL env then rx_close_rc env q' else destroy_value env, st4)"
    "conns st4 = (conns st3)(i := (conns st3 i)\<lparr>c_egroup := e\<rparr>)" "plinks st4 = plinks st3"
    by blast
  with st3 q' show ?thesis
    by (intro exI [of _ st4] exI [of _ q'] exI [of _ e]) simp
qed

text \<open>
  Closing a connection. One that is free or closed is left alone. An open one on a port's list
  becomes closed and leaves the list, which stays well formed; the call then returns only if
  a buffer was waiting (the flush of an empty queue faults or hangs); here the queue's mutex is not refused. All the waiting buffers but the
  first stay in the queue; if closing destroys the queue, the connection keeps the pointer to
  the freed memory unless the value that \<open>lsp_queue_destroy\<close> fails to return happens to be 0. What
  the call returns without the event group pool is the "value" of a void function.
\<close>

theorem conn_close_outcome:
  assumes "live n st" and "i < n" and "rx_queue (conns st i) = HLive q" and "q_inv q"
    and "c_egroup (conns st i) = HLive eg" and "ring (plinks st) head (xs @ ConnNode i # ys)"
    and "refusals st = []"
  shows "if c_state (conns st i) \<le> CONN_CLOSED
    then lsp_conn_close env (Some i) st = Done (LSP_ERR_NONE, st)
    else if q_items q = [] then \<not> is_done (lsp_conn_close env (Some i) st)
    else \<exists>st' q'. lsp_conn_close env (Some i) st =
           Done (if LSP_CONN_EGROUP_POOL env then rx_close_rc env q' else destroy_value env, st')
         \<and> q_items q' = tl (q_items q) \<and> rx_queue (conns st' i) = rx_left env q'
         \<and> c_state (conns st' i) = CONN_CLOSED \<and> ring (plinks st') head (xs @ ys)
         \<and> (\<forall>j. j \<noteq> i \<longrightarrow> conns st' j = conns st j)"
proof (cases "c_state (conns st i) \<le> CONN_CLOSED")
  case True
  then show ?thesis
    using assms by (simp add: lsp_conn_close_def conn_deref_live)
next
  case False
  obtain st1 where close: "lsp_conn_close env (Some i) st =
      xbind (lsp_conn_rxq_flush env (Some i) st1) (\<lambda>(rc, st).
        if rc \<noteq> LSP_ERR_NONE then Done (rc, st)
        else xbind (close_rx_queue env i rc st) (\<lambda>(rc, st). close_egroup env i rc st))"
    and st1: "live n st1" "conns st1 = (conns st)(i := (conns st i)\<lparr>c_state := CONN_CLOSED\<rparr>)"
      "refusals st1 = refusals st" "ring (plinks st1) head (xs @ ys)"
    by (rule close_open [OF assms(1,2) False assms(6)])
  show ?thesis
  proof (cases "q_items q")
    case Nil
    have "\<not> is_done (lsp_conn_rxq_flush env (Some i) st1)"
      using rxq_flush_live [OF st1(1) assms(2), of q env] st1(2) assms(3)
        flush_loop_empty [OF assms(4) Nil, of "buffer_free env" "buff0 env" "refusals st1"]
      by (cases "buffer_free env (buff0 env)") simp_all
    with Nil False close show ?thesis
      by (cases "lsp_conn_rxq_flush env (Some i) st1") simp_all
  next
    case (Cons b bs)
    obtain st2 q' e where "lsp_conn_close env (Some i) st =
        Done (if LSP_CONN_EGROUP_POOL env then rx_close_rc env q' else destroy_value env, st2)"
      "q_items q' = bs" "plinks st2 = plinks st1"
      "conns st2 = (conns st1)(i := (conns st1 i)\<lparr>rx_queue := rx_left env q', c_egroup := e\<rparr>)"
      using close_rest_some [OF st1(1) assms(2), of q b bs eg env] st1(2,3) assms(3-5,7) Cons close by auto
    with False Cons st1(2,4) show ?thesis
      by (auto intro!: exI [of _ st2] exI [of _ q'])
  qed
qed

definition queue_one :: lsp_queue where
  "queue_one = queue_example\<lparr>q_length := 1, q_tail := 1\<rparr>"

lemma queue_one_items: "q_inv queue_one" "q_items queue_one = [[0]]"
  by (simp_all add: q_inv_def q_wf_def queue_one_def queue_example_def q_items_def entry_def)

definition open_example :: conn_sys where
  "open_example =
     (upd_conn 0 (\<lambda>c. c\<lparr>c_state := CONN_OPEN, rx_queue := HLive queue_one,
                        c_egroup := HLive \<lparr>event_bits = 0\<rparr>\<rparr>) (pool_example 1))
     \<lparr>plinks := \<lparr>lnext = (\<lambda>n. if n = PortHead 3 then Some (ConnNode 0) else Some (PortHead 3)),
               lprev = (\<lambda>n. if n = PortHead 3 then Some (ConnNode 0) else Some (PortHead 3)),
               lvalid = (\<lambda>_. True)\<rparr>\<rparr>"

lemma open_example_facts:
  "live 1 open_example" "ring (plinks open_example) (PortHead 3) [ConnNode 0]"
  "rx_queue (conns open_example 0) = HLive queue_one"
  "c_egroup (conns open_example 0) = HLive \<lparr>event_bits = 0\<rparr>"
  "c_state (conns open_example 0) = CONN_OPEN" "refusals open_example = []"
  using pool_example_live [of 1]
  by (simp_all add: open_example_def live_def ring_def pool_example_def new_pool_def sys_example_def)

theorem conn_close_outcome_witness:
  "\<exists>st'. lsp_conn_close env_example (Some 0) open_example = Done (0, st')
     \<and> c_state (conns st' 0) = CONN_CLOSED \<and> ring (plinks st') (PortHead 3) []"
  using conn_close_outcome [OF open_example_facts(1) _ open_example_facts(3) queue_one_items(1)
      open_example_facts(4), of "PortHead 3" "[]" "[]" env_example]
  by (auto simp: open_example_facts queue_one_items less_eq_conn_state_def)

subsection \<open>Freeing a connection and its children\<close>

lemma free_enter_closed:
  assumes "conn_pool st = HLive n" "i < n" "c_state (conns st i) = CONN_CLOSED"
  shows "free_enter env (Some i) st = Done (i, rc0 env i, st)"
  using assms by (simp add: free_enter_def conn_deref_pool)

lemma conn_free_leaf:
  assumes "conn_pool st = HLive n" "i < n" "c_state (conns st i) = CONN_CLOSED" "c_type (conns st i) \<noteq> CONN_SERVER"
  shows "conn_free_rec env None (Some i) st = Some (Done (rc0 env i,
    if rc0 env i = LSP_ERR_NONE then upd_conn i (\<lambda>c. c\<lparr>c_state := CONN_FREE\<rparr>) st else st))"
  using assms by (subst conn_free_rec.simps) (simp add: free_enter_closed)

lemma pop_child_some:
  assumes "c_union (conns st i) = UQueue q" "q_inv q" "q_items q = x # xs" "\<not> refused (refusals st)"
  shows "\<exists>q'. pop_child env i sock st = Done (True, conn_at env x,
        upd_conn i (\<lambda>c. c\<lparr>c_union := UQueue q'\<rparr>) (st\<lparr>refusals := tl (refusals st)\<rparr>))
    \<and> q_inv q' \<and> q_items q' = xs \<and> waiting_empty q' = waiting_empty q \<and> waiting_full q' = waiting_full q"
proof -
  obtain q' where "lsp_queue_pop LSP_ERR_NONE (\<lambda>q. (0, q)) 0 q = Done (LSP_ERR_NONE, Some x, q')"
    "q_inv q'" "q_items q' = xs"
    using ring_buffer.pop_some [OF assms(2,3), of "\<lambda>q. (0, q)"] by blast
  moreover from this have "waiting_empty q' = waiting_empty q \<and> waiting_full q' = waiting_full q"
    using pop_nowait [OF assms(2), of "\<lambda>q. (0, q)"] empty_not_none by (auto simp: taken_def split: if_splits)
  moreover have "next_lock (refusals st) = (LSP_ERR_NONE, tl (refusals st))"
    using assms(4) by (cases "refusals st") simp_all
  ultimately show ?thesis
    using assms(1) empty_not_none by (auto simp: pop_child_def)
qed

lemma pop_child_none:
  assumes "c_union (conns st i) = UQueue q" "q_inv q" "q_items q = []" "\<not> refused (refusals st)"
  shows "pop_child env i sock st =
    Done (False, sock, upd_conn i (\<lambda>c. c\<lparr>c_union := UQueue q\<rparr>) (st\<lparr>refusals := tl (refusals st)\<rparr>))"
proof -
  have "next_lock (refusals st) = (LSP_ERR_NONE, tl (refusals st))"
    using assms(4) by (cases "refusals st") simp_all
  then show ?thesis
    using assms flush_loop_pop_empty [OF assms(2,3)] by (simp add: pop_child_def)
qed

text \<open>A refused pop: the loop goes on with the \<open>sock\<close> it has.\<close>

lemma pop_child_refused:
  assumes "c_union (conns st i) = UQueue q" "refused (refusals st)"
  shows "pop_child env i sock st =
    Done (True, sock, upd_conn i (\<lambda>c. c\<lparr>c_union := UQueue q\<rparr>) (st\<lparr>refusals := tl (refusals st)\<rparr>))"
proof -
  have "next_lock (refusals st) = (LSP_ERR_MUTEX, tl (refusals st))"
    using assms(2) by (cases "refusals st") simp_all
  then show ?thesis
    using assms(1) by (simp add: pop_child_def pop_refused mutex_not_none)
qed

text \<open>The state a child is left in.\<close>

definition freed_state :: "conn_env \<Rightarrow> nat \<Rightarrow> conn_state" where
  "freed_state env c = (if rc0 env c = LSP_ERR_NONE then CONN_FREE else CONN_CLOSED)"

lemma free_loop_child:
  assumes "live n st" "c_union (conns st i) = UQueue q" "q_inv q" "q_items q = x # xs"
    and "conn_at env x = Some c" "c \<noteq> i" "c < n"
    and "c_state (conns st c) = CONN_CLOSED" "c_type (conns st c) \<noteq> CONN_SERVER" "refusals st = []"
  shows "\<exists>q1 st2. conn_free_rec env (Some (i, rc)) conn st = conn_free_rec env (Some (i, rc)) (Some c) st2
    \<and> live n st2 \<and> refusals st2 = [] \<and> q_inv q1 \<and> q_items q1 = xs
    \<and> waiting_empty q1 = waiting_empty q \<and> waiting_full q1 = waiting_full q
    \<and> conns st2 = (\<lambda>j. if j = i then (conns st i)\<lparr>c_union := UQueue q1\<rparr>
         else if j = c then (conns st c)\<lparr>c_state := freed_state env c\<rparr> else conns st j)"
proof -
  obtain q1 where q1: "q_inv q1" "q_items q1 = xs"
    "pop_child env i conn st = Done (True, Some c, upd_conn i (\<lambda>c. c\<lparr>c_union := UQueue q1\<rparr>) st)"
    "waiting_empty q1 = waiting_empty q" "waiting_full q1 = waiting_full q"
    using pop_child_some [OF assms(2-4), of env conn] assms(5,10) by auto
  define st1 where "st1 = upd_conn i (\<lambda>c. c\<lparr>c_union := UQueue q1\<rparr>) st"
  define st2 where "st2 = (if rc0 env c = LSP_ERR_NONE
    then upd_conn c (\<lambda>c. c\<lparr>c_state := CONN_FREE\<rparr>) st1 else st1)"
  have leaf: "conn_free_rec env None (Some c) st1 = Some (Done (rc0 env c, st2))"
    using assms live_pool [OF assms(1)] by (simp add: st1_def st2_def conn_free_leaf)
  have "conn_free_rec env (Some (i, rc)) conn st = conn_free_rec env (Some (i, rc)) (Some c) st2"
    by (subst conn_free_rec.simps) (simp add: q1(3) leaf flip: st1_def)
  moreover have "live n st2" "refusals st2 = []"
    "conns st2 = (\<lambda>j. if j = i then (conns st i)\<lparr>c_union := UQueue q1\<rparr>
                    else if j = c then (conns st c)\<lparr>c_state := freed_state env c\<rparr> else conns st j)"
    using assms by (auto simp: st1_def st2_def freed_state_def fun_eq_iff)
  ultimately show ?thesis
    using q1(1,2,4,5) by blast
qed

lemma free_loop_children:
  "live n st \<Longrightarrow> refusals st = [] \<Longrightarrow> c_union (conns st i) = UQueue q \<Longrightarrow> q_inv q \<Longrightarrow>
   map (conn_at env) (q_items q) = map Some cs \<Longrightarrow> distinct (i # cs) \<Longrightarrow>
   \<forall>c\<in>set cs. c < n \<and> c_state (conns st c) = CONN_CLOSED \<and> c_type (conns st c) \<noteq> CONN_SERVER \<Longrightarrow>
   \<exists>q' st'. conn_free_rec env (Some (i, rc)) conn st = Some (xbind (destroy_children i st') (\<lambda>st.
       Done (rc, upd_conn i (\<lambda>c. c\<lparr>c_state := CONN_FREE\<rparr>) st)))
     \<and> conns st' = (\<lambda>j. if j = i then (conns st i)\<lparr>c_union := UQueue q'\<rparr>
                      else if j \<in> set cs then (conns st j)\<lparr>c_state := freed_state env j\<rparr>
                      else conns st j)
     \<and> q_items q' = [] \<and> waiting_empty q' = waiting_empty q \<and> waiting_full q' = waiting_full q"
proof (induction cs arbitrary: st q conn)
  case Nil
  then have "q_items q = []"
    by simp
  moreover have "upd_conn i (\<lambda>c. c\<lparr>c_union := UQueue q\<rparr>) st = st"
    using Nil by (simp add: upd_conn_same)
  ultimately have "conn_free_rec env (Some (i, rc)) conn st = Some (xbind (destroy_children i st) (\<lambda>st.
       Done (rc, upd_conn i (\<lambda>c. c\<lparr>c_state := CONN_FREE\<rparr>) st)))"
    using Nil pop_child_none [of st i q env conn] by (subst conn_free_rec.simps) simp
  with Nil \<open>q_items q = []\<close> show ?case
    by (intro exI [of _ q] exI [of _ st]) (auto simp: fun_eq_iff)
next
  case (Cons c cs)
  then obtain x xs where x: "q_items q = x # xs" "conn_at env x = Some c"
    "map (conn_at env) xs = map Some cs"
    by (cases "q_items q") auto
  obtain q1 st2 where st2: "conn_free_rec env (Some (i, rc)) conn st = conn_free_rec env (Some (i, rc)) (Some c) st2"
    "live n st2" "q_inv q1" "q_items q1 = xs"
    "conns st2 = (\<lambda>j. if j = i then (conns st i)\<lparr>c_union := UQueue q1\<rparr>
                    else if j = c then (conns st c)\<lparr>c_state := freed_state env c\<rparr> else conns st j)"
    "refusals st2 = []" "waiting_empty q1 = waiting_empty q" "waiting_full q1 = waiting_full q"
    using free_loop_child [OF Cons.prems(1,3,4) x(1,2), of rc conn] Cons.prems(2,6,7) by auto
  have "\<forall>c\<in>set cs. c < n \<and> c_state (conns st2 c) = CONN_CLOSED \<and> c_type (conns st2 c) \<noteq> CONN_SERVER"
    using Cons.prems(6,7) by (auto simp: st2(5))
  from Cons.IH [OF st2(2,6) _ st2(3) _ _ this, of "Some c"] st2(4,5) x(3) Cons.prems(6)
  obtain q' st' where r: "conn_free_rec env (Some (i, rc)) (Some c) st2 = Some (xbind (destroy_children i st')
       (\<lambda>st. Done (rc, upd_conn i (\<lambda>c. c\<lparr>c_state := CONN_FREE\<rparr>) st)))"
    "conns st' = (\<lambda>j. if j = i then (conns st2 i)\<lparr>c_union := UQueue q'\<rparr>
                      else if j \<in> set cs then (conns st2 j)\<lparr>c_state := freed_state env j\<rparr>
                      else conns st2 j)" "q_items q' = []" "waiting_empty q' = waiting_empty q1"
    "waiting_full q' = waiting_full q1"
    by auto
  have "conns st' = (\<lambda>j. if j = i then (conns st i)\<lparr>c_union := UQueue q'\<rparr>
                      else if j \<in> set (c # cs) then (conns st j)\<lparr>c_state := freed_state env j\<rparr>
                      else conns st j)"
    using Cons.prems(6) by (auto simp: r(2) st2(5) fun_eq_iff)
  with r(1,3-5) st2(1,7,8) show ?case
    by auto
qed

lemma conn_free_value:
  assumes "conn_pool st = HLive n" and "i < n" and "c_type (conns st i) \<noteq> CONN_SERVER"
    and "c_state (conns st i) \<le> CONN_CLOSED"
  shows "lsp_conn_free env (Some i) st =
    (if c_state (conns st i) = CONN_FREE
     then Done (LSP_ERR_NONE, upd_conn i (\<lambda>c. c\<lparr>c_state := CONN_FREE\<rparr>) st)
     else Done (rc0 env i, if rc0 env i = LSP_ERR_NONE
                           then upd_conn i (\<lambda>c. c\<lparr>c_state := CONN_FREE\<rparr>) st else st))"
proof (cases "c_state (conns st i) = CONN_CLOSED")
  case True
  then show ?thesis
    using conn_free_leaf [OF assms(1,2) True assms(3)] by (simp add: lsp_conn_free_def)
next
  case False
  then have f: "c_state (conns st i) = CONN_FREE"
    using assms(4) by (cases "c_state (conns st i)") (simp_all add: less_eq_conn_state_def)
  then have "free_enter env (Some i) st = Done (i, LSP_ERR_NONE, st)"
    using assms by (simp add: free_enter_def conn_deref_pool lsp_conn_close_def)
  then show ?thesis
    using f assms(3) unfolding lsp_conn_free_def by (subst conn_free_rec.simps) simp
qed

text \<open>
  Freeing a connection that is not a server. A free one stays free and the call succeeds. For a
  closed one, the normal case, the function tests a result it never set: the caller gets whatever
  \<open>rc\<close> held, and the connection goes back to the pool only if that happens to be 0.
\<close>

theorem conn_free_outcome:
  assumes "live n st" and "i < n" and "c_type (conns st i) \<noteq> CONN_SERVER"
    and "c_state (conns st i) \<le> CONN_CLOSED"
  shows "lsp_conn_free env (Some i) st =
    (if c_state (conns st i) = CONN_FREE
     then Done (LSP_ERR_NONE, upd_conn i (\<lambda>c. c\<lparr>c_state := CONN_FREE\<rparr>) st)
     else Done (rc0 env i, if rc0 env i = LSP_ERR_NONE
                           then upd_conn i (\<lambda>c. c\<lparr>c_state := CONN_FREE\<rparr>) st else st))"
  using conn_free_value [OF live_pool [OF assms(1)] assms(2-4)] .

theorem conn_free_outcome_witness:
  "lsp_conn_free (env_example\<lparr>rc0 := \<lambda>_. 9\<rparr>) (Some 0)
      (upd_conn 0 (\<lambda>c. c\<lparr>c_state := CONN_CLOSED\<rparr>) (pool_example 1)) =
   Done (9, upd_conn 0 (\<lambda>c. c\<lparr>c_state := CONN_CLOSED\<rparr>) (pool_example 1))"
  using conn_free_outcome [of 1 "upd_conn 0 (\<lambda>c. c\<lparr>c_state := CONN_CLOSED\<rparr>) (pool_example 1)" 0
      "env_example\<lparr>rc0 := \<lambda>_. 9\<rparr>"]
  by (simp add: pool_example_live conn_zero_def lsp_consts)


definition server_example :: conn_sys where
  "server_example =
     upd_conn 0 (\<lambda>c. c\<lparr>c_state := CONN_CLOSED, c_type := CONN_SERVER,
                      c_union := UQueue (queue_one\<lparr>qdata := [1, 0]\<rparr>)\<rparr>)
       (upd_conn 1 (\<lambda>c. c\<lparr>c_state := CONN_CLOSED\<rparr>) (pool_example 2))"


end
