(* ===== verification/LspConnFree.thy ===== *)
theory LspConnFree imports LspConn begin

section \<open>Freeing connections whose children have children\<close>

text \<open>
  \<open>lsp_conn_free\<close> follows the children queue of a server, calls itself on each child and goes on
  until the queue is empty. Nothing bounds the depth: a child may be a server, the queues may name
  a connection twice, and they may form a cycle. This theory shows that the recursion ends all the
  same. Every round of a loop takes one item from a children queue and nothing puts one back, so
  the number of items in all children queues together is the measure; a round in which the mutex of the queue is
  refused takes a refusal instead, so the refusals to come are counted with them.

  \<open>returns P m\<close> says that \<open>m\<close> does not hang and that a result satisfies \<open>P\<close>; it may still be a
  fault, for instance when an item is not a connection.
\<close>

subsection \<open>Returning, piece by piece\<close>

definition returns :: "('a \<Rightarrow> bool) \<Rightarrow> 'a exec \<Rightarrow> bool" where
  "returns P m = (case m of Done a \<Rightarrow> P a | Fault _ \<Rightarrow> True | Hang \<Rightarrow> False)"

named_theorems returns_rules "what always returns, operation by operation"

lemma returns_simps [simp]: "returns P (Done a) = P a" "returns P (Fault e)" "\<not> returns P Hang"
  by (simp_all add: returns_def)

lemma returns_bind: "returns P m \<Longrightarrow> (\<And>a. P a \<Longrightarrow> returns Q (f a)) \<Longrightarrow> returns Q (xbind m f)"
  by (cases m) simp_all

lemma returns_bind_any:
  "returns (\<lambda>_. True) m \<Longrightarrow> (\<And>a. m = Done a \<Longrightarrow> returns Q (f a)) \<Longrightarrow> returns Q (xbind m f)"
  by (cases m) simp_all

lemma returns_mono: "returns P m \<Longrightarrow> (\<And>a. P a \<Longrightarrow> Q a) \<Longrightarrow> returns Q m"
  by (cases m) simp_all

lemma hget_returns [returns_rules]: "returns (\<lambda>_. True) (hget h)"
  by (cases h) simp_all

lemma deref_returns [returns_rules]: "returns (\<lambda>_. True) (deref h p)"
  by (cases p) simp_all

lemma link_returns [returns_rules]:
  "returns (\<lambda>_. True) (rd_next h p)" "returns (\<lambda>_. True) (rd_prev h p)"
  "returns (\<lambda>_. True) (wr_next p v h)" "returns (\<lambda>_. True) (wr_prev p v h)"
  unfolding link_defs by (intro returns_bind_any returns_rules; simp)+

lemma list_del_returns [returns_rules]: "returns (\<lambda>_. True) (lsp_list_del n h)"
  unfolding lsp_list_del_def by (intro returns_bind_any returns_rules)

subsection \<open>States from which a free ends\<close>

text \<open>
  The hypothesis on the states. A connection that is not closed yet is closed on the way, which
  flushes its receive queue; that does not come to an end on an empty queue (\<open>rxq_flush_outcome\<close>),
  so an open connection must have something to read, or no queue at all. Queues of children are
  well formed; what their items are does not matter.
\<close>

definition settled :: "lsp_conn \<Rightarrow> bool" where
  "settled c \<longleftrightarrow> c_state c \<le> CONN_CLOSED \<or> (\<forall>q. rx_queue c = HLive q \<longrightarrow> q_inv q \<and> q_items q \<noteq> [])"

definition children_sound :: "conn_union \<Rightarrow> bool" where
  "children_sound u \<longleftrightarrow> (\<forall>q. u = UQueue q \<longrightarrow> q_inv q)"

definition freeable :: "nat \<Rightarrow> 'z conn_sys_scheme \<Rightarrow> bool" where
  "freeable n st \<longleftrightarrow> conn_pool st = HLive n
     \<and> (\<forall>i. settled (conns st i) \<and> children_sound (c_union (conns st i)))"

text \<open>The measure: the items of all children queues of the pool, and the refusals to come.\<close>

definition pending :: "conn_union \<Rightarrow> nat" where
  "pending u = (case u of UQueue q \<Rightarrow> length (q_items q) | _ \<Rightarrow> 0)"

definition queued :: "nat \<Rightarrow> 'z conn_sys_scheme \<Rightarrow> nat" where
  "queued n st = (\<Sum>i<n. pending (c_union (conns st i))) + length (refusals st)"

lemma settled_simps [simp]:
  "settled (c\<lparr>c_union := u\<rparr>) = settled c" "settled (c\<lparr>c_egroup := e\<rparr>) = settled c"
  "settled (c\<lparr>c_state := CONN_FREE\<rparr>)" "settled (c\<lparr>c_state := CONN_CLOSED\<rparr>)"
  by (simp_all add: settled_def less_eq_conn_state_def)

lemma pending_simps [simp]:
  "pending UNull = 0" "pending UFreedQueue = 0" "pending (UQueue q) = length (q_items q)"
  "children_sound UNull" "children_sound UFreedQueue" "children_sound (UQueue q) = q_inv q"
  by (simp_all add: pending_def children_sound_def)

lemma freeable_upd:
  assumes "freeable n st" "settled (f (conns st i))" "children_sound (c_union (f (conns st i)))"
  shows "freeable n (upd_conn i f st)"
  using assms by (simp add: freeable_def)

lemma queued_upd:
  assumes "pending (c_union (f (conns st i))) \<le> pending (c_union (conns st i))"
  shows "queued n (upd_conn i f st) \<le> queued n st"
  unfolding queued_def using assms by (intro add_mono sum_mono) simp_all

lemma queued_upd_less:
  assumes "pending (c_union (f (conns st i))) < pending (c_union (conns st i))" "i < n"
  shows "queued n (upd_conn i f st) < queued n st"
  unfolding queued_def
  using assms by (intro add_less_le_mono sum_strict_mono_ex1) (auto intro: less_imp_le bexI [of _ i])

lemma freeable_links [simp]:
  "freeable n (st\<lparr>plinks := h\<rparr>) = freeable n st" "queued n (st\<lparr>plinks := h\<rparr>) = queued n st"
  by (simp_all add: freeable_def queued_def)

lemma freeable_refusals [simp]: "freeable n (st\<lparr>refusals := ls\<rparr>) = freeable n st"
  by (simp add: freeable_def)

lemma queued_refusals:
  "length ls \<le> length (refusals st) \<Longrightarrow> queued n (st\<lparr>refusals := ls\<rparr>) \<le> queued n st"
  "length ls < length (refusals st) \<Longrightarrow> queued n (st\<lparr>refusals := ls\<rparr>) < queued n st"
  by (simp_all add: queued_def)

text \<open>The results of the calls below: a state of the same kind with no more children than before.\<close>

abbreviation drains :: "nat \<Rightarrow> nat \<Rightarrow> ('a \<times> 'z conn_sys_scheme) exec \<Rightarrow> bool" where
  "drains n k \<equiv> returns (\<lambda>(_, st). freeable n st \<and> queued n st \<le> k)"

lemma upd_drains:
  assumes "\<And>c. c_union (f c) = c_union c"
  shows "freeable n st \<Longrightarrow> (\<And>c. settled c \<Longrightarrow> settled (f c)) \<Longrightarrow> freeable n (upd_conn i f st)"
    and "queued n st \<le> k \<Longrightarrow> queued n (upd_conn i f st) \<le> k"
  using assms queued_upd [of f st i n] freeable_upd [of n st f i]
  by (auto simp: freeable_def)

subsection \<open>Closing returns\<close>

lemma rx_freeable:
  "freeable n st \<Longrightarrow> c_state (conns st i) = CONN_CLOSED \<Longrightarrow>
     freeable n (upd_conn i (\<lambda>c. c\<lparr>rx_queue := x\<rparr>) st)"
  by (auto intro!: freeable_upd simp: settled_def less_eq_conn_state_def freeable_def)

lemma close_rest_drains:
  assumes "freeable n st" "queued n st \<le> k" "c_state (conns st i) = CONN_CLOSED"
  shows "drains n k (xbind (close_rx_queue env i rc st) (\<lambda>(rc, st). close_egroup env i rc st))"
proof -
  have egroup: "drains n k (close_egroup env i rc st)"
    if "freeable n st \<and> queued n st \<le> k" for rc and st :: "'a conn_sys_scheme"
    unfolding close_egroup_def Let_def
    using that by (auto intro!: returns_bind_any [of "hget _"] returns_rules upd_drains)
  have "returns (\<lambda>(_, st). freeable n st \<and> queued n st \<le> k \<and> c_state (conns st i) = CONN_CLOSED)
      (close_rx_queue env i rc st)"
    unfolding close_rx_queue_def Let_def
    using assms by (auto intro!: returns_bind_any [of "hget _"] returns_rules rx_freeable upd_drains(2) split: prod.split)
  then show ?thesis
    by (rule returns_bind) (auto intro: egroup)
qed

lemma flush_settled:
  assumes "freeable n st" "queued n st \<le> k" "c_state (conns st i) = CONN_CLOSED"
    and "\<forall>q. rx_queue (conns st i) = HLive q \<longrightarrow> q_inv q \<and> q_items q \<noteq> []"
    and "buffer_free env (buff0 env) \<noteq> Hang"
  shows "returns (\<lambda>(_, st). freeable n st \<and> queued n st \<le> k \<and> c_state (conns st i) = CONN_CLOSED)
    (lsp_conn_rxq_flush env (Some i) st)"
proof (cases "rx_queue (conns st i)")
  case (HLive q)
  then obtain x xs where "q_inv q" "q_items q = x # xs"
    using assms(4) by (cases "q_items q") auto
  from flush_loop_some [OF this] obtain q' where loop:
    "flush_loop (buffer_free env) (buff0 env) (refusals st) q =
      Some (if refused (refusals st)
            then (case buffer_free env (buff0 env) of
                Fault e \<Rightarrow> Fault e | Hang \<Rightarrow> Hang | Done _ \<Rightarrow> Done (rest_refusals (refusals st), q'))
            else Done (rest_refusals (refusals st), q'))"
    by blast
  let ?st = "st\<lparr>refusals := rest_refusals (refusals st)\<rparr>"
  have "freeable n ?st" "queued n ?st \<le> k"
    using assms(1,2) queued_refusals(1) [OF rest_refusals_length, where st = st and n = n] by simp_all
  then have "freeable n (upd_conn i (\<lambda>c. c\<lparr>rx_queue := HLive q'\<rparr>) ?st)
      \<and> queued n (upd_conn i (\<lambda>c. c\<lparr>rx_queue := HLive q'\<rparr>) ?st) \<le> k"
    using assms(3) queued_upd [of "\<lambda>c. c\<lparr>rx_queue := HLive q'\<rparr>" ?st i n]
    by (auto intro!: freeable_upd simp: settled_def less_eq_conn_state_def freeable_def)
  then show ?thesis
    using assms(3,5) HLive loop
    by (cases "conn_deref st (Some i)"; cases "buffer_free env (buff0 env)")
      (auto simp: lsp_conn_rxq_flush_def conn_deref_def split: handle.splits if_splits)
qed (use assms in \<open>auto simp: lsp_conn_rxq_flush_def conn_deref_def split: handle.splits if_splits\<close>)

lemma close_drains:
  assumes "freeable n st" "queued n st \<le> k" "i < n" "buffer_free env (buff0 env) \<noteq> Hang"
  shows "drains n k (lsp_conn_close env (Some i) st)"
proof -
  have pool: "conn_deref st (Some i) = Done i"
    using assms by (simp add: conn_deref_def freeable_def)
  show ?thesis
  proof (cases "c_state (conns st i) \<le> CONN_CLOSED")
    case True
    then show ?thesis
      using assms pool by (simp add: lsp_conn_close_def)
  next
    case False
    define st1 where "st1 = upd_conn i (\<lambda>c. c\<lparr>c_state := CONN_CLOSED\<rparr>) st"
    have "freeable n st1" "queued n st1 \<le> k"
      unfolding st1_def using assms by (auto intro: upd_drains)
    then have st1: "freeable n (st1\<lparr>plinks := h\<rparr>)" "queued n (st1\<lparr>plinks := h\<rparr>) \<le> k"
      "c_state (conns (st1\<lparr>plinks := h\<rparr>) i) = CONN_CLOSED"
      "\<forall>q. rx_queue (conns (st1\<lparr>plinks := h\<rparr>) i) = HLive q \<longrightarrow> q_inv q \<and> q_items q \<noteq> []" for h
      using assms(1) False by (auto simp: st1_def freeable_def settled_def)
    show ?thesis
      using pool False unfolding lsp_conn_close_def Let_def
      by (auto simp flip: st1_def intro!: returns_bind_any [of "lsp_list_del _ _"] returns_rules
          returns_bind [OF flush_settled [OF st1 assms(4)]] close_rest_drains)
  qed
qed

lemma free_enter_drains:
  assumes "freeable n st" "queued n st \<le> k" "buffer_free env (buff0 env) \<noteq> Hang"
  shows "returns (\<lambda>(i, _, st). i < n \<and> freeable n st \<and> queued n st \<le> k) (free_enter env conn st)"
proof -
  have pool: "conn_pool st = HLive n"
    using assms by (simp add: freeable_def)
  show ?thesis
  proof (cases "\<exists>i<n. conn = Some i")
    case True
    then obtain i where i: "conn = Some i" "i < n" by blast
    have "drains n k (if c_state (conns st i) \<noteq> CONN_CLOSED then lsp_conn_close env conn st
        else Done (rc0 env i, st))"
      using assms i close_drains [OF assms(1,2) i(2) assms(3)] by simp
    then show ?thesis
      using pool i unfolding free_enter_def by (auto simp: conn_deref_def elim!: returns_bind)
  next
    case False
    then show ?thesis
      using pool by (auto simp: free_enter_def conn_deref_def split: option.split)
  qed
qed

subsection \<open>The recursion ends\<close>

text \<open>A pop takes an item or a refusal, so that fewer are left, or ends the loop.\<close>

lemma pop_child_drains:
  assumes "freeable n st" "i < n"
  shows "returns (\<lambda>(again, _, st'). freeable n st'
      \<and> (if again then queued n st' < queued n st else queued n st' \<le> queued n st)) (pop_child env i sock st)"
proof (cases "c_union (conns st i)")
  case (UQueue q)
  have q: "q_inv q" "settled (conns st i)"
    using assms(1) UQueue by (auto simp: freeable_def children_sound_def)
  let ?st = "st\<lparr>refusals := tl (refusals st)\<rparr>"
  have st: "freeable n ?st" "queued n ?st \<le> queued n st"
    using assms(1) by (simp_all add: queued_refusals(1))
  have same: "freeable n (upd_conn i (\<lambda>c. c\<lparr>c_union := UQueue q\<rparr>) ?st)"
    "queued n (upd_conn i (\<lambda>c. c\<lparr>c_union := UQueue q\<rparr>) ?st) \<le> queued n ?st"
    using st(1) UQueue q by (auto intro!: freeable_upd queued_upd)
  show ?thesis
  proof (cases "refused (refusals st)")
    case True
    then have "queued n ?st < queued n st"
      by (intro queued_refusals(2)) (cases "refusals st"; simp)
    with same show ?thesis
      by (simp add: pop_child_refused [OF UQueue True])
  next
    case False
    show ?thesis
    proof (cases "q_items q")
      case Nil
      with same st show ?thesis
        by (simp add: pop_child_none [OF UQueue q(1) _ False])
    next
      case (Cons x xs)
      then obtain q' where q': "q_inv q'" "q_items q' = xs" "pop_child env i sock st =
          Done (True, conn_at env x, upd_conn i (\<lambda>c. c\<lparr>c_union := UQueue q'\<rparr>) ?st)"
        using pop_child_some [OF UQueue q(1) _ False] by blast
      have "queued n (upd_conn i (\<lambda>c. c\<lparr>c_union := UQueue q'\<rparr>) ?st) < queued n ?st"
        using UQueue Cons q'(2) assms(2) by (intro queued_upd_less) simp_all
      with q' st q(2) show ?thesis
        by (auto intro!: freeable_upd)
    qed
  qed
qed (auto simp: pop_child_def)

lemma destroy_children_drains:
  assumes "freeable n st" "queued n st \<le> k"
  shows "returns (\<lambda>st. freeable n st \<and> queued n st \<le> k) (destroy_children i st)"
proof (cases "c_union (conns st i)")
  case (UQueue q)
  have "q_inv q" "settled (conns st i)"
    using assms(1) UQueue by (auto simp: freeable_def children_sound_def)
  moreover have "queued n (upd_conn i (\<lambda>c. c\<lparr>c_union := u\<rparr>) st) \<le> k" if "pending u \<le> length (q_items q)" for u
    using queued_upd [of "\<lambda>c. c\<lparr>c_union := u\<rparr>" st i n] that UQueue assms(2) by simp
  ultimately show ?thesis
    using assms UQueue
    by (auto simp: destroy_children_def lsp_queue_destroy_def intro!: freeable_upd)
qed (auto simp: destroy_children_def)

definition ends_in :: "nat \<Rightarrow> nat \<Rightarrow> (int \<times> 'z conn_sys_scheme) exec option \<Rightarrow> bool" where
  "ends_in n k r \<longleftrightarrow> (\<exists>x. r = Some x \<and> drains n k x)"

lemma free_state_drains:
  assumes "freeable n st \<and> queued n st \<le> k"
  shows "drains n k (Done (rc, upd_conn i (\<lambda>c. c\<lparr>c_state := CONN_FREE\<rparr>) st))"
  using assms by (auto intro!: upd_drains)

text \<open>The call ends if the loop ends from every state with as many children.\<close>

lemma call_ends:
  assumes loop: "\<And>i rc conn st. freeable n st \<Longrightarrow> queued n st \<le> k \<Longrightarrow> i < n \<Longrightarrow>
      ends_in n k (conn_free_rec env (Some (i, rc)) conn (st :: 'z conn_sys_scheme))"
    and "freeable n st" "queued n st \<le> k" and bf: "buffer_free env (buff0 env) \<noteq> Hang"
  shows "ends_in n k (conn_free_rec env None conn (st :: 'z conn_sys_scheme))"
proof (cases "free_enter env conn st")
  case (Done x)
  then obtain i rc st1 where x: "free_enter env conn st = Done (i, rc, st1)"
    by (cases x) auto
  with free_enter_drains [OF assms(2,3) bf, of conn] have st1: "i < n" "freeable n st1" "queued n st1 \<le> k"
    by simp_all
  have "drains n k (Done (rc, upd_conn i (\<lambda>c. c\<lparr>c_state := CONN_FREE\<rparr>) st1))"
    using st1 by (intro free_state_drains) simp
  with loop [OF st1(2,3,1)] x st1 show ?thesis
    by (subst conn_free_rec.simps) (auto simp: ends_in_def)
next
  case (Fault e)
  then show ?thesis
    by (subst conn_free_rec.simps) (simp add: ends_in_def)
next
  case Hang
  then show ?thesis
    using free_enter_drains [OF assms(2,3) bf, of conn] by simp
qed

lemma loop_ends:
  assumes call: "\<And>conn st'. freeable n st' \<Longrightarrow> queued n st' < k \<Longrightarrow>
      ends_in n (queued n st') (conn_free_rec env None conn (st' :: 'z conn_sys_scheme))"
    and loop: "\<And>conn st'. freeable n st' \<Longrightarrow> queued n st' < k \<Longrightarrow>
      ends_in n (queued n st') (conn_free_rec env (Some (i, rc)) conn (st' :: 'z conn_sys_scheme))"
    and st: "freeable n st" "queued n st \<le> k" "i < n"
  shows "ends_in n k (conn_free_rec env (Some (i, rc)) conn (st :: 'z conn_sys_scheme))"
proof (cases "pop_child env i conn st")
  case (Done x)
  then obtain again sock st1 where x: "pop_child env i conn st = Done (again, sock, st1)"
    by (cases x) auto
  with pop_child_drains [OF st(1,3), of env conn] have st1: "freeable n st1"
    "if again then queued n st1 < k else queued n st1 \<le> k"
    using st(2) by (auto split: if_splits)
  show ?thesis
  proof (cases again)
    case False
    have "drains n k (xbind (destroy_children i st1) (\<lambda>st.
        Done (rc, upd_conn i (\<lambda>c. c\<lparr>c_state := CONN_FREE\<rparr>) st)))"
      using st1 False by (auto intro!: returns_bind [OF destroy_children_drains] free_state_drains)
    then show ?thesis
      using False x by (subst conn_free_rec.simps) (simp add: ends_in_def)
  next
    case True
    then obtain r where r: "conn_free_rec env None sock st1 = Some r" "drains n (queued n st1) r"
      using call [of st1 sock] st1 by (auto simp: ends_in_def)
    show ?thesis
    proof (cases r)
      case (Done y)
      then obtain rc2 st2 where y: "r = Done (rc2, st2)"
        by (cases y) auto
      with r(2) True st1(2) have st2: "freeable n st2" "queued n st2 < k"
        by simp_all
      obtain z where "conn_free_rec env (Some (i, rc)) sock st2 = Some z" "drains n (queued n st2) z"
        using loop [OF st2] by (auto simp: ends_in_def)
      then show ?thesis
        using x True r(1) y st2(2)
        by (subst conn_free_rec.simps) (cases z; auto simp: ends_in_def)
    next
      case (Fault e)
      then show ?thesis
        using x True r(1) by (subst conn_free_rec.simps) (simp add: ends_in_def)
    next
      case Hang
      then show ?thesis
        using r(2) by simp
    qed
  qed
next
  case (Fault e)
  then show ?thesis
    by (subst conn_free_rec.simps) (simp add: ends_in_def)
next
  case Hang
  then show ?thesis
    using pop_child_drains [OF st(1,3), of env conn] by simp
qed

lemma conn_free_rec_ends:
  "buffer_free env (buff0 env) \<noteq> Hang \<Longrightarrow> freeable n st \<Longrightarrow> i < n \<Longrightarrow>
     ends_in n (queued n st) (conn_free_rec env (Some (i, rc)) conn (st :: 'z conn_sys_scheme))"
proof (induction "queued n st" arbitrary: st i rc conn rule: less_induct)
  case less
  have call: "ends_in n (queued n st') (conn_free_rec env None conn' st')"
    if "freeable n st'" "queued n st' < queued n st" for conn' and st' :: "'z conn_sys_scheme"
  proof (rule call_ends [OF _ that(1) order_refl less.prems(1)])
    fix j rc' conn' and st'' :: "'z conn_sys_scheme"
    assume "freeable n st''" "queued n st'' \<le> queued n st'" "j < n"
    with less.hyps [OF _ less.prems(1), of st'' j rc' conn'] that(2)
    show "ends_in n (queued n st') (conn_free_rec env (Some (j, rc')) conn' st'')"
      by (auto simp: ends_in_def elim!: returns_mono)
  qed
  show ?case
    by (rule loop_ends [OF call _ less.prems(2) order_refl less.prems(3)])
       (use less.hyps less.prems in auto)
qed

subsection \<open>Properties\<close>

text \<open>
  C9. \<open>lsp_conn_free\<close> comes to an end however the children queues refer to each other, cycles included, and however
  often their mutexes are refused, from a state in which every open connection has something to read or no receive
  queue at all (a free that has to close an open connection with an empty one does not end, as the flush does not), the
  children queues are well formed, and freeing the unset buffer pointer comes to an end. It returns or faults, and a
  return leaves no more items and refusals than there were, and a state from which every further free ends as well.
\<close>

theorem conn_free_terminates:
  assumes "freeable n st" and "buffer_free env (buff0 env) \<noteq> Hang"
  shows "lsp_conn_free env conn st \<noteq> Hang
    \<and> (\<forall>rc st'. lsp_conn_free env conn st = Done (rc, st') \<longrightarrow>
        freeable n st' \<and> queued n st' \<le> queued n st)"
proof -
  have loop: "ends_in n (queued n st) (conn_free_rec env (Some (i, rc)) conn st')"
    if "freeable n st'" "queued n st' \<le> queued n st" "i < n" for i rc conn and st' :: "'a conn_sys_scheme"
    using conn_free_rec_ends [OF assms(2) that(1,3), of rc conn] that(2)
    by (auto simp: ends_in_def elim!: returns_mono)
  have "ends_in n (queued n st) (conn_free_rec env None conn st)"
    by (rule call_ends [OF loop assms(1) order_refl assms(2)])
  then show ?thesis
    by (auto simp: lsp_conn_free_def ends_in_def)
qed

text \<open>Two servers that are children of each other; the mutex of a queue is refused twice.\<close>

definition child_queue :: "u8 \<Rightarrow> lsp_queue" where
  "child_queue b = queue_example\<lparr>q_length := 1, q_tail := 1, qdata := [b, 0]\<rparr>"

definition cycle_example :: conn_sys where
  "cycle_example = (pool_example 2)
     \<lparr>conns := (\<lambda>i. conn_zero\<lparr>c_state := CONN_CLOSED, c_type := CONN_SERVER,
                              c_union := UQueue (child_queue (if i = 0 then 1 else 0))\<rparr>),
      refusals := [False, True, True]\<rparr>"

lemma cycle_example_freeable: "freeable 2 cycle_example"
  by (simp add: freeable_def cycle_example_def pool_example_def new_pool_def child_queue_def settled_def
      less_eq_conn_state_def q_inv_def q_wf_def queue_example_def children_sound_def)

theorem conn_free_terminates_witness:
  "lsp_conn_free env_example (Some 0) cycle_example \<noteq> Hang"
  using conn_free_terminates [OF cycle_example_freeable, of env_example] by simp

end
