(* ===== verification/LspConnConc.thy ===== *)
theory LspConnConc imports LspConn begin

section \<open>Threads on the pool of connections\<close>

text \<open>
  Any number of threads (numbered) allocate connections and free those they hold. \<open>lsp_conn_alloc\<close>
  holds the pool's mutex only for its search; what marks a connection as taken, the write of its
  state, comes after the mutex is released, and \<open>lsp_conn_free\<close> does not take the mutex. So a step
  is one access of the search, the release, the making of one object, or the writes at the end of
  the function (which no other code reads between them, but for the state); a call of
  \<open>lsp_conn_free\<close> is one step.
\<close>

datatype conn_pc =
    Outside
  | Acquire                       \<comment> \<open>waits for the mutex\<close>
  | Probe nat                     \<comment> \<open>the loop is at this index\<close>
  | Release "nat option"          \<comment> \<open>the loop has ended\<close>
  | MakeQueue nat
  | MakeEgroup nat
  | MarkTaken nat                 \<comment> \<open>the writes from \<open>conn->state = CONN_CLOSED\<close> on\<close>
  | Got "nat option"
  | Died fault

text \<open>\<open>cheld\<close> is what a thread has been given and has not freed.\<close>

record pool_sys =
  cpool :: conn_sys
  cpcs :: "nat \<Rightarrow> conn_pc"
  cheld :: "nat \<Rightarrow> nat set"

subsection \<open>One access of one thread\<close>

text \<open>No value: the thread is not in a call, waits for the mutex, or is in a call that does not
  return.\<close>

fun pool_access :: "conn_env \<Rightarrow> conn_pc \<Rightarrow> 'z conn_sys_scheme \<Rightarrow> (conn_pc \<times> 'z conn_sys_scheme) option" where
  "pool_access env Outside st = None"
| "pool_access env Acquire st = (if conn_mutex st then None else Some (Probe 0, st\<lparr>conn_mutex := True\<rparr>))"
| "pool_access env (Probe k) st =
     (if k < nat LSP_DEFAULT_MAX_CONNECTIONS
      then (case pool_read st k of
              Done c \<Rightarrow> Some (if c_state c = CONN_FREE then Release (Some k) else Probe (Suc k), st)
            | Fault e \<Rightarrow> Some (Died e, st)
            | Hang \<Rightarrow> None)
      else Some (Release None, st))"
| "pool_access env (Release r) st =
     Some (case r of None \<Rightarrow> Got None | Some i \<Rightarrow> MakeQueue i, st\<lparr>conn_mutex := False\<rparr>)"
| "pool_access env (MakeQueue i) st =
     (case need_rx_queue env i st of
        Done (ok, st) \<Rightarrow> Some (if ok then MakeEgroup i else Got None, st)
      | Fault e \<Rightarrow> Some (Died e, st)
      | Hang \<Rightarrow> None)"
| "pool_access env (MakeEgroup i) st =
     (case need_egroup env i st of (ok, st) \<Rightarrow> Some (if ok then MarkTaken i else Got None, st))"
| "pool_access env (MarkTaken i) st = Some (Got (Some i), upd_conn i reset_conn st)"
| "pool_access env (Got r) st = None"
| "pool_access env (Died e) st = None"

text \<open>A step of thread \<open>t\<close>; the environment may be another one at every step.\<close>

inductive pool_thread :: "nat \<Rightarrow> pool_sys \<Rightarrow> pool_sys \<Rightarrow> bool" where
  pool_call: "cpcs s t = Outside \<Longrightarrow> pool_thread t s (s\<lparr>cpcs := (cpcs s)(t := Acquire)\<rparr>)"
| pool_access: "pool_access env (cpcs s t) (cpool s) = Some (pc, st) \<Longrightarrow>
     pool_thread t s (s\<lparr>cpool := st, cpcs := (cpcs s)(t := pc)\<rparr>)"
| pool_return: "cpcs s t = Got r \<Longrightarrow>
     pool_thread t s (s\<lparr>cpcs := (cpcs s)(t := Outside), cheld := (cheld s)(t := cheld s t \<union> set_option r)\<rparr>)"
| pool_free: "cpcs s t = Outside \<Longrightarrow> i \<in> cheld s t \<Longrightarrow>
     lsp_conn_free env (Some i) (cpool s) = Done (rc, st) \<Longrightarrow>
     pool_thread t s (s\<lparr>cpool := st, cheld := (cheld s)(t := cheld s t - {i})\<rparr>)"

definition pool_step :: "pool_sys \<Rightarrow> pool_sys \<Rightarrow> bool" where
  "pool_step s s' \<longleftrightarrow> (\<exists>t. pool_thread t s s')"

text \<open>The connection a thread has chosen and not yet marked as taken or been given.\<close>

fun chosen :: "conn_pc \<Rightarrow> nat option" where
  "chosen (Release r) = r"
| "chosen (MakeQueue i) = Some i"
| "chosen (MakeEgroup i) = Some i"
| "chosen (MarkTaken i) = Some i"
| "chosen _ = None"

text \<open>Serialised runs: a thread takes the mutex only when no other one is between its choice and the
  mark, as if the mutex were held to the end of \<open>lsp_conn_alloc\<close>.\<close>

definition serial_step :: "pool_sys \<Rightarrow> pool_sys \<Rightarrow> bool" where
  "serial_step s s' \<longleftrightarrow> (\<exists>t. pool_thread t s s'
     \<and> (cpcs s t = Acquire \<longrightarrow> (\<forall>u. chosen (cpcs s u) = None)))"

definition pool_start :: "nat \<Rightarrow> pool_sys \<Rightarrow> bool" where
  "pool_start n s \<longleftrightarrow> live n (cpool s) \<and> cpcs s = (\<lambda>_. Outside) \<and> cheld s = (\<lambda>_. {})
     \<and> (\<forall>i. c_type (conns (cpool s) i) = CONN_CLIENT \<and> c_state (conns (cpool s) i) \<le> CONN_CLOSED)"

subsection \<open>What the accesses leave alone\<close>

text \<open>The making of the objects changes neither the type nor the state of a connection.\<close>

definition same_marks :: "'z conn_sys_scheme \<Rightarrow> 'z conn_sys_scheme \<Rightarrow> bool" where
  "same_marks st st' \<longleftrightarrow> conn_pool st' = conn_pool st \<and> conn_mutex st' = conn_mutex st
     \<and> (\<forall>j. c_type (conns st' j) = c_type (conns st j) \<and> c_state (conns st' j) = c_state (conns st j))"

lemma same_marks_refl [simp]: "same_marks st st"
  by (simp add: same_marks_def)

lemma same_marks_upd:
  "(\<And>c. c_type (f c) = c_type c \<and> c_state (f c) = c_state c) \<Longrightarrow> same_marks st (upd_conn i f st)"
  by (simp add: same_marks_def)

lemma need_rx_queue_marks: "need_rx_queue env i st = Done (ok, st') \<Longrightarrow> same_marks st st'"
  by (auto simp: need_rx_queue_def exec_simps intro!: same_marks_upd split: if_splits option.splits)

lemma need_egroup_marks: "need_egroup env i st = (ok, st') \<Longrightarrow> same_marks st st'"
  by (auto simp: need_egroup_def intro!: same_marks_upd split: if_splits option.splits)

fun in_search :: "conn_pc \<Rightarrow> bool" where
  "in_search (Probe k) = True"
| "in_search (Release r) = True"
| "in_search _ = False"

text \<open>What a call is about to return.\<close>

fun given :: "conn_pc \<Rightarrow> nat set" where
  "given (Got r) = set_option r"
| "given _ = {}"

text \<open>The kinds of access.\<close>

lemma pool_access_cases:
  assumes "pool_access env pc st = Some (pc', st')"
  obtains (acquire) "pc = Acquire" "\<not> conn_mutex st" "pc' = Probe 0" "st' = st\<lparr>conn_mutex := True\<rparr>"
  | (advance) k where "pc = Probe k" "pc' = Probe (Suc k)" "st' = st"
  | (found) k n where "pc = Probe k" "pc' = Release (Some k)" "st' = st"
      "c_state (conns st k) = CONN_FREE" "conn_pool st = HLive n" "k < n"
  | (full) k where "pc = Probe k" "pc' = Release None" "st' = st"
  | (release) r where "pc = Release r" "st' = st\<lparr>conn_mutex := False\<rparr>"
      "pc' = (case r of None \<Rightarrow> Got None | Some i \<Rightarrow> MakeQueue i)"
  | (make) i where "chosen pc = Some i" "\<not> in_search pc" "same_marks st st'"
      "pc' = MakeEgroup i \<or> pc' = MarkTaken i \<or> pc' = Got None"
  | (mark) i where "pc = MarkTaken i" "pc' = Got (Some i)" "st' = upd_conn i reset_conn st"
  | (died) e where "pc' = Died e" "st' = st"
proof (cases pc)
  case Acquire
  with assms show ?thesis
    using that(1) by (simp split: if_splits)
next
  case (Probe k)
  show ?thesis
  proof (cases "k < nat LSP_DEFAULT_MAX_CONNECTIONS")
    case True
    show ?thesis
    proof (cases "pool_read st k")
      case (Done c)
      then obtain n where "conn_pool st = HLive n" "k < n" "c = conns st k"
        by (cases "conn_pool st") (auto simp: pool_read_def xguard_def split: if_splits)
      then show ?thesis
        using assms Probe True Done that(2) [of k] that(3) [of k n] by (simp split: if_splits)
    qed (use assms Probe True that(8) in auto)
  qed (use assms Probe that(4) [of k] in simp)
next
  case (Release r)
  with assms show ?thesis
    using that(5) [of r] by simp
next
  case (MakeQueue i)
  show ?thesis
  proof (cases "need_rx_queue env i st")
    case (Done x)
    then obtain ok st1 where "need_rx_queue env i st = Done (ok, st1)"
      by (cases x) simp
    with need_rx_queue_marks [OF this] show ?thesis
      using assms MakeQueue that(6) [of i] by (simp split: if_splits)
  qed (use assms MakeQueue that(8) in auto)
next
  case (MakeEgroup i)
  obtain ok st1 where "need_egroup env i st = (ok, st1)"
    by (cases "need_egroup env i st")
  with need_egroup_marks [OF this] show ?thesis
    using assms MakeEgroup that(6) [of i] by (simp split: if_splits)
next
  case (MarkTaken i)
  with assms show ?thesis
    using that(7) by simp
qed (use assms in simp_all)

text \<open>Freeing a client that is free or closed changes nothing but its own state.\<close>

lemma free_client:
  assumes "conn_pool st = HLive n" "i < n" "c_type (conns st i) = CONN_CLIENT" "c_state (conns st i) \<le> CONN_CLOSED"
    "lsp_conn_free env (Some i) st = Done (rc, st')"
  shows "st' = st \<or> st' = upd_conn i (\<lambda>c. c\<lparr>c_state := CONN_FREE\<rparr>) st"
proof -
  have "c_type (conns st i) \<noteq> CONN_SERVER"
    using assms(3) by (simp add: lsp_consts)
  from conn_free_value [OF assms(1,2) this assms(4), of env] assms(5) show ?thesis
    by (auto split: if_splits)
qed

subsection \<open>Serialised allocations\<close>

definition busy :: "conn_pc \<Rightarrow> bool" where
  "busy pc \<longleftrightarrow> in_search pc \<or> chosen pc \<noteq> None"

text \<open>What a thread owns: what it holds and what its call is about to return.\<close>

definition owns :: "pool_sys \<Rightarrow> nat \<Rightarrow> nat set" where
  "owns s t = cheld s t \<union> given (cpcs s t)"

definition clients :: "'z conn_sys_scheme \<Rightarrow> bool" where
  "clients st \<longleftrightarrow> (\<forall>i. c_type (conns st i) = CONN_CLIENT \<and> c_state (conns st i) \<le> CONN_CLOSED)"

definition serial_inv :: "nat \<Rightarrow> pool_sys \<Rightarrow> bool" where
  "serial_inv n s \<longleftrightarrow> conn_pool (cpool s) = HLive n \<and> clients (cpool s)
     \<and> (\<forall>t. in_search (cpcs s t) \<longrightarrow> conn_mutex (cpool s))
     \<and> (\<forall>t u. busy (cpcs s t) \<and> busy (cpcs s u) \<longrightarrow> t = u)
     \<and> (\<forall>t i. chosen (cpcs s t) = Some i \<longrightarrow> i < n \<and> (\<forall>u. i \<notin> owns s u))
     \<and> (\<forall>t i. i \<in> owns s t \<longrightarrow> i < n \<and> c_state (conns (cpool s) i) \<noteq> CONN_FREE)
     \<and> (\<forall>t u i. i \<in> owns s t \<and> i \<in> owns s u \<longrightarrow> t = u)"

lemma clients_marks: "same_marks st st' \<Longrightarrow> clients st' = clients st"
  by (simp add: clients_def same_marks_def)

lemma clients_mark:
  "clients st \<Longrightarrow> clients (upd_conn i reset_conn st)"
  "clients st \<Longrightarrow> clients (upd_conn i (\<lambda>c. c\<lparr>c_state := CONN_FREE\<rparr>) st)"
  by (simp_all add: clients_def reset_conn_def less_eq_conn_state_def)

lemma clients_mutex [simp]: "clients (st\<lparr>conn_mutex := b\<rparr>) = clients st"
  by (simp add: clients_def)

lemma serial_start: "pool_start n s \<Longrightarrow> serial_inv n s"
  by (auto simp: pool_start_def serial_inv_def clients_def live_def busy_def owns_def)

lemma serial_invD:
  assumes "serial_inv n s"
  shows "conn_pool (cpool s) = HLive n" "clients (cpool s)"
    "in_search (cpcs s t) \<Longrightarrow> conn_mutex (cpool s)"
    "busy (cpcs s t) \<Longrightarrow> busy (cpcs s u) \<Longrightarrow> t = u"
    "chosen (cpcs s t) = Some i \<Longrightarrow> i < n" "chosen (cpcs s t) = Some i \<Longrightarrow> i \<notin> owns s u"
    "i \<in> owns s t \<Longrightarrow> i < n" "i \<in> owns s t \<Longrightarrow> c_state (conns (cpool s) i) \<noteq> CONN_FREE"
    "i \<in> owns s t \<Longrightarrow> i \<in> owns s u \<Longrightarrow> t = u"
  using assms unfolding serial_inv_def by blast+

lemma serial_invI:
  assumes "conn_pool (cpool s) = HLive n" "clients (cpool s)"
    and "\<And>t. in_search (cpcs s t) \<Longrightarrow> conn_mutex (cpool s)"
    and "\<And>t u. busy (cpcs s t) \<Longrightarrow> busy (cpcs s u) \<Longrightarrow> t = u"
    and "\<And>t i. chosen (cpcs s t) = Some i \<Longrightarrow> i < n"
    and "\<And>t u i. chosen (cpcs s t) = Some i \<Longrightarrow> i \<in> owns s u \<Longrightarrow> False"
    and "\<And>t i. i \<in> owns s t \<Longrightarrow> i < n"
    and "\<And>t i. i \<in> owns s t \<Longrightarrow> c_state (conns (cpool s) i) \<noteq> CONN_FREE"
    and "\<And>t u i. i \<in> owns s t \<Longrightarrow> i \<in> owns s u \<Longrightarrow> t = u"
  shows "serial_inv n s"
  using assms unfolding serial_inv_def by blast

text \<open>Nothing is lost if no thread owns more, chooses anew or enters the search, and no connection
  that is owned becomes free.\<close>

lemma serial_shrink:
  assumes "serial_inv n s" "conn_pool (cpool s') = HLive n" "clients (cpool s')"
    and "\<And>u. owns s' u \<subseteq> owns s u"
    and "\<And>u i. i \<in> owns s' u \<Longrightarrow> c_state (conns (cpool s') i) \<noteq> CONN_FREE"
    and "\<And>u. chosen (cpcs s' u) = None \<or> chosen (cpcs s' u) = chosen (cpcs s u)"
    and "\<And>u. busy (cpcs s' u) \<Longrightarrow> busy (cpcs s u)"
    and "\<And>u. in_search (cpcs s' u) \<Longrightarrow> conn_mutex (cpool s')"
  shows "serial_inv n s'"
proof (rule serial_invI)
  note D = serial_invD [OF assms(1)]
  have c: "chosen (cpcs s' u) = Some i \<Longrightarrow> chosen (cpcs s u) = Some i" for u i
    using assms(6) [of u] by auto
  show "t = u" if "busy (cpcs s' t)" "busy (cpcs s' u)" for t u
    using that D(4) assms(7) by blast
  show "i < n" if "chosen (cpcs s' t) = Some i" for t i
    using D(5) [OF c [OF that]] .
  show False if "chosen (cpcs s' t) = Some i" "i \<in> owns s' u" for t u i
    using D(6) [OF c [OF that(1)]] that(2) assms(4) by blast
  show "i < n" if "i \<in> owns s' t" for t i
    using that D(7) assms(4) by blast
  show "t = u" if "i \<in> owns s' t" "i \<in> owns s' u" for t u i
    using that D(9) assms(4) by blast
qed (use assms(2,3,5,8) in simp_all)

text \<open>A thread moves on and owns what it owned.\<close>

lemma serial_move:
  assumes "serial_inv n s" "conn_pool st = HLive n" "clients st"
    and "\<And>i. c_state (conns (cpool s) i) \<noteq> CONN_FREE \<Longrightarrow> c_state (conns st i) \<noteq> CONN_FREE"
    and "given pc = {}" "chosen pc = None \<or> chosen pc = chosen (cpcs s t)"
    and "busy pc \<Longrightarrow> busy (cpcs s t)" "in_search pc \<Longrightarrow> conn_mutex st"
    and "\<And>u. u \<noteq> t \<Longrightarrow> in_search (cpcs s u) \<Longrightarrow> conn_mutex st"
  shows "serial_inv n (s\<lparr>cpool := st, cpcs := (cpcs s)(t := pc)\<rparr>)" (is "serial_inv n ?s")
proof (rule serial_shrink [OF assms(1)])
  show o: "owns ?s u \<subseteq> owns s u" for u
    using assms(5) by (auto simp: owns_def)
  show "c_state (conns (cpool ?s) i) \<noteq> CONN_FREE" if "i \<in> owns ?s u" for u i
    using serial_invD(8) [OF assms(1) subsetD [OF o that]] assms(4) by simp
qed (use assms(2,3,6-9) in \<open>simp_all split: if_splits\<close>)

lemma chosen_given: "chosen pc = Some i \<Longrightarrow> given pc = {}"
  by (cases pc) simp_all

lemma serial_acquire:
  assumes "serial_inv n s" "cpcs s t = Acquire" "\<not> conn_mutex (cpool s)" "\<forall>u. chosen (cpcs s u) = None"
  shows "serial_inv n (s\<lparr>cpool := (cpool s)\<lparr>conn_mutex := True\<rparr>, cpcs := (cpcs s)(t := Probe 0)\<rparr>)"
proof -
  let ?s = "s\<lparr>cpool := (cpool s)\<lparr>conn_mutex := True\<rparr>, cpcs := (cpcs s)(t := Probe 0)\<rparr>"
  note D = serial_invD [OF assms(1)]
  have idle: "\<not> busy (cpcs s u)" for u
    using assms(3,4) D(3) [of u] by (auto simp: busy_def)
  have o: "owns ?s u = owns s u" for u
    using assms(2) by (auto simp: owns_def)
  have b: "busy (cpcs ?s u) \<longleftrightarrow> u = t" "chosen (cpcs ?s u) = None" for u
    using idle [of u] assms(4) by (auto simp: busy_def)
  show ?thesis
    by (rule serial_invI; (simp only: o b)?)
      (use D(1,2) in \<open>simp; fail\<close> | use D(7-9) in \<open>simp; blast\<close>)+
qed

lemma serial_found:
  assumes "serial_inv n s" "cpcs s t = Probe k" "k < n" "c_state (conns (cpool s) k) = CONN_FREE"
  shows "serial_inv n (s\<lparr>cpcs := (cpcs s)(t := Release (Some k))\<rparr>)"
proof -
  let ?s = "s\<lparr>cpcs := (cpcs s)(t := Release (Some k))\<rparr>"
  note D = serial_invD [OF assms(1)]
  have o: "owns ?s u = owns s u" for u
    using assms(2) by (auto simp: owns_def)
  have k: "k \<notin> owns s u" for u
    using D(8) [of k u] assms(4) by auto
  have t: "busy (cpcs s t)" "in_search (cpcs s t)"
    by (simp_all add: busy_def assms(2))
  have n: "u \<noteq> t \<Longrightarrow> chosen (cpcs s u) = None \<and> \<not> in_search (cpcs s u)" for u
    using D(4) [OF t(1), of u] unfolding busy_def by blast
  have b: "busy (cpcs ?s u) \<longleftrightarrow> u = t" "in_search (cpcs ?s u) \<longleftrightarrow> u = t"
    "chosen (cpcs ?s u) = Some i \<longleftrightarrow> u = t \<and> i = k" for u i
    by (cases "u = t"; simp add: busy_def n eq_commute)+
  show ?thesis
    by (rule serial_invI; (simp only: o b)?)
      (use D(1,2) D(3) [OF t(2)] k assms(3) in \<open>simp; fail\<close> | use D(7-9) in \<open>simp; blast\<close>)+
qed

lemma serial_mark:
  assumes "serial_inv n s" "cpcs s t = MarkTaken i"
  shows "serial_inv n (s\<lparr>cpool := upd_conn i reset_conn (cpool s), cpcs := (cpcs s)(t := Got (Some i))\<rparr>)"
proof -
  let ?s = "s\<lparr>cpool := upd_conn i reset_conn (cpool s), cpcs := (cpcs s)(t := Got (Some i))\<rparr>"
  note D = serial_invD [OF assms(1)]
  have i: "i < n" "i \<notin> owns s u" for u
    using D(5,6) [of t i] assms(2) by simp_all
  have o: "j \<in> owns ?s u \<longleftrightarrow> j \<in> owns s u \<or> (u = t \<and> j = i)" for j u
    using assms(2) by (auto simp: owns_def)
  have b: "busy (cpcs ?s u) \<Longrightarrow> busy (cpcs s u)" "in_search (cpcs ?s u) \<Longrightarrow> in_search (cpcs s u)"
    "chosen (cpcs ?s u) = Some j \<Longrightarrow> chosen (cpcs s u) = Some j \<and> u \<noteq> t" for u j
    by (cases "u = t"; simp add: busy_def)+
  have t: "busy (cpcs s t)"
    by (simp add: assms(2) busy_def)
  have c: "chosen (cpcs ?s u) \<noteq> Some j" for u j
    using b(3) [of u j] D(4) [OF t, of u] unfolding busy_def by blast
  have p: "conn_pool (cpool ?s) = HLive n" "clients (cpool ?s)" "conn_mutex (cpool ?s) = conn_mutex (cpool s)"
    using D(1,2) clients_mark(1) by simp_all
  show ?thesis
  proof (rule serial_invI; (simp only: p)?)
    show "c_state (conns (cpool ?s) j) \<noteq> CONN_FREE" if "j \<in> owns ?s u" for j u
      using that D(8) [of j u] by (auto simp: o reset_conn_def)
    show "u = v" if "j \<in> owns ?s u" "j \<in> owns ?s v" for j u v
      using that i(2) D(9) unfolding o by blast
    show "u = v" if "busy (cpcs ?s u)" "busy (cpcs ?s v)" for u v
      using D(4) [OF b(1) [OF that(1)] b(1) [OF that(2)]] .
    show "conn_mutex (cpool s)" if "in_search (cpcs ?s u)" for u
      using D(3) [OF b(2) [OF that]] .
    show "j < n" if "j \<in> owns ?s u" for j u
      using that D(7) i(1) unfolding o by blast
  qed (use c in simp_all)
qed

lemma serial_return:
  assumes "serial_inv n s" "cpcs s t = Got r"
  shows "serial_inv n (s\<lparr>cpcs := (cpcs s)(t := Outside), cheld := (cheld s)(t := cheld s t \<union> set_option r)\<rparr>)"
    (is "serial_inv n ?s")
proof (rule serial_shrink [OF assms(1)])
  show o: "owns ?s u \<subseteq> owns s u" for u
    using assms(2) by (auto simp: owns_def)
  show "c_state (conns (cpool ?s) i) \<noteq> CONN_FREE" if "i \<in> owns ?s u" for u i
    using serial_invD(8) [OF assms(1) subsetD [OF o that]] by simp
qed (use serial_invD(1-3) [OF assms(1)] in \<open>auto simp: busy_def split: if_splits\<close>)

lemma serial_free:
  assumes "serial_inv n s" "cpcs s t = Outside" "i \<in> cheld s t"
    "lsp_conn_free env (Some i) (cpool s) = Done (rc, st)"
  shows "serial_inv n (s\<lparr>cpool := st, cheld := (cheld s)(t := cheld s t - {i})\<rparr>)"
proof -
  let ?s = "s\<lparr>cpool := st, cheld := (cheld s)(t := cheld s t - {i})\<rparr>"
  note D = serial_invD [OF assms(1)]
  have i: "i \<in> owns s t" "i < n"
    using assms(3) D(7) [of i t] by (simp_all add: owns_def)
  have "c_type (conns (cpool s) i) = CONN_CLIENT" "c_state (conns (cpool s) i) \<le> CONN_CLOSED"
    using D(2) by (simp_all add: clients_def)
  from free_client [OF D(1) i(2) this assms(4)]
  have st: "conn_pool st = HLive n" "clients st" "conn_mutex st = conn_mutex (cpool s)"
    "\<And>j. j \<noteq> i \<Longrightarrow> conns st j = conns (cpool s) j"
    using D(1,2) clients_mark(2) by auto
  have o: "j \<in> owns ?s u \<longleftrightarrow> j \<in> owns s u \<and> \<not> (u = t \<and> j = i)" for j u
    using assms(2) by (auto simp: owns_def)
  have ne: "j \<in> owns s u \<Longrightarrow> \<not> (u = t \<and> j = i) \<Longrightarrow> j \<noteq> i" for j u
    using D(9) [OF i(1), of u] by blast
  show ?thesis
  proof (rule serial_shrink [OF assms(1)])
    show "owns ?s u \<subseteq> owns s u" for u
      using o by blast
    show "c_state (conns (cpool ?s) j) \<noteq> CONN_FREE" if "j \<in> owns ?s u" for j u
      using that D(8) [of j u] st(4) [of j] ne [of j u] unfolding o by simp
  qed (use st(1-3) D(3) in simp_all)
qed

lemma serial_access:
  assumes "serial_inv n s" "pool_access env (cpcs s t) (cpool s) = Some (pc, st)"
    and "cpcs s t = Acquire \<longrightarrow> (\<forall>u. chosen (cpcs s u) = None)"
  shows "serial_inv n (s\<lparr>cpool := st, cpcs := (cpcs s)(t := pc)\<rparr>)"
proof -
  note D = serial_invD [OF assms(1)]
  have alone: "in_search (cpcs s u) \<Longrightarrow> busy (cpcs s t) \<Longrightarrow> u = t" for u
    using D(4) unfolding busy_def by blast
  have stay: ?thesis if "given pc = {}" "same_marks (cpool s) st"
    "chosen pc = None \<or> chosen pc = chosen (cpcs s t)" "busy pc \<Longrightarrow> busy (cpcs s t)"
    "in_search pc \<Longrightarrow> in_search (cpcs s t)"
    using that D(1,2,3) clients_marks [OF that(2)] by (intro serial_move [OF assms(1)]) (auto simp: same_marks_def)
  from assms(2) show ?thesis
  proof (cases rule: pool_access_cases)
    case acquire
    then show ?thesis
      using serial_acquire [OF assms(1)] assms(3) by simp
  next
    case (advance k)
    then show ?thesis
      by (intro stay) (simp_all add: busy_def)
  next
    case (found k m)
    then show ?thesis
      using serial_found [OF assms(1), of t k] D(1) by simp
  next
    case (full k)
    then show ?thesis
      by (intro stay) (simp_all add: busy_def)
  next
    case (release r)
    then have "busy (cpcs s t)"
      by (simp add: busy_def)
    then show ?thesis
      using release D(1,2) alone
      by (intro serial_move [OF assms(1)]) (auto simp: busy_def split: option.splits)
  next
    case (make i)
    then show ?thesis
      using chosen_given [OF make(1)] by (intro stay) (auto simp: busy_def)
  next
    case (mark i)
    then show ?thesis
      using serial_mark [OF assms(1)] by simp
  next
    case (died e)
    then show ?thesis
      by (intro stay) (simp_all add: busy_def)
  qed
qed

lemma serial_kept:
  assumes "serial_step s s'" "serial_inv n s"
  shows "serial_inv n s'"
proof -
  obtain t where t: "pool_thread t s s'" "cpcs s t = Acquire \<longrightarrow> (\<forall>u. chosen (cpcs s u) = None)"
    using assms(1) by (auto simp: serial_step_def)
  from t(1) show ?thesis
  proof (cases rule: pool_thread.cases)
    case pool_call
    have "serial_inv n (s\<lparr>cpool := cpool s, cpcs := (cpcs s)(t := Acquire)\<rparr>)"
      using serial_invD(1-3) [OF assms(2)] by (intro serial_move [OF assms(2)]) (auto simp: busy_def)
    with pool_call show ?thesis
      by simp
  next
    case pool_access
    then show ?thesis
      using serial_access [OF assms(2)] t(2) by blast
  next
    case pool_return
    then show ?thesis
      using serial_return [OF assms(2)] by blast
  next
    case pool_free
    then show ?thesis
      using serial_free [OF assms(2)] by blast
  qed
qed

interpretation serial_pool: step_invariant "pool_start n" serial_step "serial_inv n" for n
  by unfold_locales (blast intro: serial_start serial_kept)+

subsection \<open>One thread alone\<close>

fun pool_drive :: "nat \<Rightarrow> conn_env \<Rightarrow> conn_pc \<times> 'z conn_sys_scheme \<Rightarrow> conn_pc \<times> 'z conn_sys_scheme" where
  "pool_drive 0 env x = x"
| "pool_drive (Suc k) env x =
     (case pool_access env (fst x) (snd x) of None \<Rightarrow> x | Some y \<Rightarrow> pool_drive k env y)"

fun call_outcome :: "conn_pc \<times> 'z conn_sys_scheme \<Rightarrow> (nat option \<times> 'z conn_sys_scheme) exec" where
  "call_outcome (Got r, st) = Done (r, st)"
| "call_outcome (Died e, st) = Fault e"
| "call_outcome _ = Hang"

lemma drive_stuck: "pool_access env (fst x) (snd x) = None \<Longrightarrow> pool_drive k env x = x"
  by (cases k) simp_all

lemma pool_drive_add: "pool_drive (a + b) env x = pool_drive b env (pool_drive a env x)"
  by (induction a arbitrary: x) (auto simp: drive_stuck split: option.splits)

lemma drive_more:
  assumes "pool_drive a env x = y" "pool_access env (fst y) (snd y) = None" "a \<le> b"
  shows "pool_drive b env x = y"
  using assms pool_drive_add [of a "b - a" env x] by (simp add: drive_stuck)

lemma find_free_cases: "(\<exists>r. find_free st is = Done r) \<or> (\<exists>e. find_free st is = Fault e)"
  by (induction "is"; cases "conn_pool st") (auto simp: pool_read_def xguard_def)

lemma find_free_mutex [simp]: "find_free (st\<lparr>conn_mutex := b\<rparr>) is = find_free st is"
  by (induction "is") (simp_all add: pool_read_def cong: if_cong)

lemma pool_drive_search:
  assumes "k \<le> 32"
  shows "\<exists>m\<le>33 - k. pool_drive m env (Probe k, st) =
    (case find_free st [k..<32] of Done r \<Rightarrow> Release r | Fault e \<Rightarrow> Died e | Hang \<Rightarrow> Outside, st)"
  using assms
proof (induction "32 - k" arbitrary: k)
  case 0
  then show ?case
    by (intro exI [of _ 1]) (simp add: lsp_consts)
next
  case (Suc d)
  then have k: "k < 32" "[k..<32] = k # [Suc k..<32]"
    by (simp_all add: upt_conv_Cons)
  have d: "d = 32 - Suc k"
    using Suc.hyps(2) by simp
  have lim: "k < nat LSP_DEFAULT_MAX_CONNECTIONS"
    using k by (simp add: lsp_consts)
  show ?case
  proof (cases "pool_read st k")
    case (Done c)
    show ?thesis
    proof (cases "c_state c = CONN_FREE")
      case True
      with Done k lim show ?thesis
        by (intro exI [of _ 1]) simp
    next
      case False
      obtain m where "m \<le> 33 - Suc k" "pool_drive m env (Probe (Suc k), st) =
          (case find_free st [Suc k..<32] of Done r \<Rightarrow> Release r | Fault e \<Rightarrow> Died e | Hang \<Rightarrow> Outside, st)"
        using Suc.hyps(1) [OF d] k(1) by auto
      with Done False k lim show ?thesis
        by (intro exI [of _ "Suc m"]) simp
    qed
  next
    case (Fault e)
    with k lim show ?thesis
      by (intro exI [of _ 1]) simp
  next
    case Hang
    then show ?thesis
      by (cases "conn_pool st") (auto simp: pool_read_def xguard_def split: if_splits)
  qed
qed

lemma drive_setup:
  assumes "3 \<le> k"
  shows "call_outcome (pool_drive k env (MakeQueue i, st)) = setup_conn env i st"
proof -
  obtain j where k: "k = Suc (Suc (Suc j))"
    using le_Suc_ex [OF assms] by (auto simp: numeral_3_eq_3)
  show ?thesis
  proof (cases "need_rx_queue env i st")
    case (Done x)
    obtain ok st1 where x: "x = (ok, st1)"
      by (cases x)
    obtain ok' st2 where "need_egroup env i st1 = (ok', st2)"
      by (cases "need_egroup env i st1")
    with Done x show ?thesis
      by (simp add: setup_conn_def k drive_stuck)
  qed (simp_all add: setup_conn_def k drive_stuck)
qed

lemma drive_choice:
  assumes "\<not> conn_mutex st" "find_free st [0..<32] = Done r"
  shows "\<exists>m\<le>35. pool_drive m env (Acquire, st) = (case r of None \<Rightarrow> Got None | Some i \<Rightarrow> MakeQueue i, st)"
proof -
  obtain m where m: "m \<le> 33" "pool_drive m env (Probe 0, st\<lparr>conn_mutex := True\<rparr>) = (Release r, st\<lparr>conn_mutex := True\<rparr>)"
    using pool_drive_search [of 0 env "st\<lparr>conn_mutex := True\<rparr>"] assms(2) by auto
  have "st\<lparr>conn_mutex := False\<rparr> = st"
    using assms(1) by simp
  with m assms(1) pool_drive_add [of "Suc m" 1 env "(Acquire, st)"] show ?thesis
    by (intro exI [of _ "Suc m + 1"]) simp
qed

lemma drive_alloc:
  assumes "\<not> conn_mutex st"
  shows "call_outcome (pool_drive 38 env (Acquire, st)) = lsp_conn_alloc env st"
proof -
  have n: "nat LSP_DEFAULT_MAX_CONNECTIONS = 32"
    by (simp add: lsp_consts)
  have u: "st\<lparr>conn_mutex := False\<rparr> = st"
    using assms by simp
  note d = lsp_conn_alloc_def conn_lock_def conn_unlock_def n u assms
  consider r where "find_free st [0..<32] = Done r" | e where "find_free st [0..<32] = Fault e"
    using find_free_cases by blast
  then show ?thesis
  proof cases
    case 1
    obtain m where m: "m \<le> 35" "pool_drive m env (Acquire, st) =
        (case r of None \<Rightarrow> Got None | Some i \<Rightarrow> MakeQueue i, st)"
      using drive_choice [OF assms 1] by blast
    show ?thesis
    proof (cases r)
      case None
      then show ?thesis
        using m drive_more [OF m(2), of 38] 1 by (simp add: d)
    next
      case (Some i)
      have "pool_drive 38 env (Acquire, st) = pool_drive (38 - m) env (MakeQueue i, st)"
        using pool_drive_add [of m "38 - m" env "(Acquire, st)"] m Some by simp
      then show ?thesis
        using drive_setup [of "38 - m" env i st] m(1) 1 Some by (simp add: d)
    qed
  next
    case 2
    obtain m where m: "m \<le> 33" "pool_drive m env (Probe 0, st\<lparr>conn_mutex := True\<rparr>) = (Died e, st\<lparr>conn_mutex := True\<rparr>)"
      using pool_drive_search [of 0 env "st\<lparr>conn_mutex := True\<rparr>"] 2 by auto
    have "pool_drive (Suc m) env (Acquire, st) = (Died e, st\<lparr>conn_mutex := True\<rparr>)"
      using m(2) assms by simp
    then show ?thesis
      using drive_more [of "Suc m" env "(Acquire, st)" _ 38] m(1) 2 by (simp add: d)
  qed
qed

text \<open>The accesses of one thread as steps of the system.\<close>

lemma thread_drives:
  assumes "cpcs s t = pc" "pool_drive k env (pc, cpool s) = (pc', st)"
  shows "rtranclp (pool_thread t) s (s\<lparr>cpool := st, cpcs := (cpcs s)(t := pc')\<rparr>)"
  using assms
proof (induction k arbitrary: s pc)
  case 0
  then have "s\<lparr>cpool := st, cpcs := (cpcs s)(t := pc')\<rparr> = s"
    by (auto simp: fun_upd_idem)
  then show ?case
    by (simp only: rtranclp.rtrancl_refl)
next
  case (Suc k)
  show ?case
  proof (cases "pool_access env pc (cpool s)")
    case None
    with Suc.prems have "s\<lparr>cpool := st, cpcs := (cpcs s)(t := pc')\<rparr> = s"
      by (auto simp: fun_upd_idem)
    then show ?thesis
      by (simp only: rtranclp.rtrancl_refl)
  next
    case (Some y)
    obtain pc1 st1 where y: "y = (pc1, st1)"
      by (cases y)
    let ?s = "s\<lparr>cpool := st1, cpcs := (cpcs s)(t := pc1)\<rparr>"
    have "pool_thread t s ?s"
      using pool_thread.pool_access [of env s t pc1 st1] Some Suc.prems(1) y by auto
    moreover have "rtranclp (pool_thread t) ?s (?s\<lparr>cpool := st, cpcs := (cpcs ?s)(t := pc')\<rparr>)"
      by (rule Suc.IH) (use Suc.prems(2) Some y in simp_all)
    moreover have "?s\<lparr>cpool := st, cpcs := (cpcs ?s)(t := pc')\<rparr> = s\<lparr>cpool := st, cpcs := (cpcs s)(t := pc')\<rparr>"
      by simp
    ultimately show ?thesis
      using converse_rtranclp_into_rtranclp by metis
  qed
qed

text \<open>The call and the search of a thread, up to its choice.\<close>

lemma thread_chooses:
  assumes "cpcs s t = Outside" "\<not> conn_mutex (cpool s)" "find_free (cpool s) [0..<32] = Done (Some i)"
  shows "rtranclp (pool_thread t) s (s\<lparr>cpcs := (cpcs s)(t := MakeQueue i)\<rparr>)"
proof -
  let ?s = "s\<lparr>cpcs := (cpcs s)(t := Acquire)\<rparr>"
  obtain m where "pool_drive m undefined (Acquire, cpool s) = (MakeQueue i, cpool s)"
    using drive_choice [OF assms(2,3)] by auto
  then have "rtranclp (pool_thread t) ?s (?s\<lparr>cpool := cpool s, cpcs := (cpcs ?s)(t := MakeQueue i)\<rparr>)"
    by (intro thread_drives) simp_all
  moreover have "?s\<lparr>cpool := cpool s, cpcs := (cpcs ?s)(t := MakeQueue i)\<rparr> = s\<lparr>cpcs := (cpcs s)(t := MakeQueue i)\<rparr>"
    by simp
  moreover have "pool_thread t s ?s"
    using pool_thread.pool_call [of s t] assms(1) by auto
  ultimately show ?thesis
    using converse_rtranclp_into_rtranclp by metis
qed

text \<open>The rest of the call, and its return.\<close>

lemma thread_sets_up:
  assumes "cpcs s t = MakeQueue i" "setup_conn env i (cpool s) = Done (r, st)"
  shows "rtranclp (pool_thread t) s (s\<lparr>cpool := st, cpcs := (cpcs s)(t := Outside),
    cheld := (cheld s)(t := cheld s t \<union> set_option r)\<rparr>)"
proof -
  let ?s = "s\<lparr>cpool := st, cpcs := (cpcs s)(t := Got r)\<rparr>"
  have "call_outcome (pool_drive 3 env (MakeQueue i, cpool s)) = Done (r, st)"
    using drive_setup [of 3 env i "cpool s"] assms(2) by simp
  then have "pool_drive 3 env (MakeQueue i, cpool s) = (Got r, st)"
    by (cases "(pool_drive 3 env (MakeQueue i, cpool s))" rule: call_outcome.cases) simp_all
  then have "rtranclp (pool_thread t) s ?s"
    by (rule thread_drives [OF assms(1)])
  moreover have "pool_thread t ?s (?s\<lparr>cpcs := (cpcs ?s)(t := Outside), cheld := (cheld ?s)(t := cheld ?s t \<union> set_option r)\<rparr>)"
    by (rule pool_thread.pool_return) simp
  ultimately show ?thesis
    using rtranclp.rtrancl_into_rtrancl by fastforce
qed

lemma thread_runs: "rtranclp (pool_thread t) s s' \<Longrightarrow> rtranclp pool_step s s'"
  by (rule rtranclp_mono [THEN predicate2D]) (auto simp: pool_step_def)

lemma thread_others: "pool_thread t s s' \<Longrightarrow> u \<noteq> t \<Longrightarrow> cpcs s' u = cpcs s u"
  by (cases rule: pool_thread.cases) auto

lemma thread_serial:
  assumes "rtranclp (pool_thread t) s s'" "\<forall>u. u \<noteq> t \<longrightarrow> cpcs s u = Outside"
  shows "rtranclp serial_step s s' \<and> (\<forall>u. u \<noteq> t \<longrightarrow> cpcs s' u = Outside)"
  using assms
proof (induction rule: rtranclp_induct)
  case (step s1 s2)
  have "chosen (cpcs s1 u) = None" if "cpcs s1 t = Acquire" for u
    using step that by (cases "u = t") auto
  with step.hyps(2) have "serial_step s1 s2"
    by (auto simp: serial_step_def)
  with step show ?case
    using thread_others by (auto intro: rtranclp.rtrancl_into_rtrancl)
qed simp

subsection \<open>Properties\<close>

lemma alone_outcome:
  assumes "live n st"
    and "\<forall>i<n. rx_queue (conns st i) \<noteq> HNull
      \<or> new_queue env (uint (conn_queuelen (lsp_conf_of st))) 8 = Done (Some q)"
    and "\<forall>i<n. c_egroup (conns st i) \<noteq> HNull \<or> new_egroup env = Some eg"
  shows "case find (\<lambda>i. n \<le> i \<or> c_state (conns st i) = CONN_FREE) [0..<32] of
      None \<Rightarrow> pool_drive 38 env (Acquire, st) = (Got None, st)
    | Some i \<Rightarrow>
        if n \<le> i then fst (pool_drive 38 env (Acquire, st)) = Died OutOfBounds
        else pool_drive 38 env (Acquire, st) =
          (Got (Some i), st\<lparr>conns := (conns st)(i := taken_struct env q eg (conns st i))\<rparr>)"
proof -
  have "\<not> conn_mutex st"
    using assms(1) by (simp add: live_def)
  note o = drive_alloc [OF this, of env]
  have got: "call_outcome x = Done (r, st') \<Longrightarrow> x = (Got r, st')"
    "call_outcome x = Fault e \<Longrightarrow> fst x = Died e" for x :: "conn_pc \<times> 'a conn_sys_scheme" and r st' e
    by (cases x rule: call_outcome.cases; simp)+
  show ?thesis
    using conn_alloc_exact [OF assms] got [of "pool_drive 38 env (Acquire, st)"] unfolding o
    by (auto split: option.splits if_splits)
qed

text \<open>
  C29. The accesses of one thread that is not disturbed, from a live pool of \<open>n\<close> structs: after at most 38 of them
  (the mutex, 32 structs and the end of the loop, the release, two objects, the writes) the call is over, with
  the outcome of the sequential \<open>lsp_conn_alloc\<close>. When queues and event groups can be had, that is: the lowest free
  connection below 32, closed, with the default attributes, no children or parent, unlimited timeouts, no options, and
  with the queue and the event group it had or new ones (no event group if they come from a pool), all else as it was; NULL when 32 are taken; and an access past the
  pool when the pool is smaller and full.
\<close>

theorem pool_alone:
  assumes "live n st"
    and "\<forall>i<n. rx_queue (conns st i) \<noteq> HNull
      \<or> new_queue env (uint (conn_queuelen (lsp_conf_of st))) 8 = Done (Some q)"
    and "\<forall>i<n. c_egroup (conns st i) \<noteq> HNull \<or> new_egroup env = Some eg"
  shows "call_outcome (pool_drive 38 env' (Acquire, st)) = lsp_conn_alloc env' st
    \<and> (case find (\<lambda>i. n \<le> i \<or> c_state (conns st i) = CONN_FREE) [0..<32] of
      None \<Rightarrow> pool_drive 38 env (Acquire, st) = (Got None, st)
    | Some i \<Rightarrow>
        if n \<le> i then fst (pool_drive 38 env (Acquire, st)) = Died OutOfBounds
        else pool_drive 38 env (Acquire, st) =
          (Got (Some i), st\<lparr>conns := (conns st)(i := taken_struct env q eg (conns st i))\<rparr>))"
  using drive_alloc [of st env'] assms(1) alone_outcome [OF assms] by (simp add: live_def)

definition pool_sys_example :: pool_sys where
  "pool_sys_example = \<lparr>cpool = pool_example 2, cpcs = (\<lambda>_. Outside), cheld = (\<lambda>_. {})\<rparr>"

lemma pool_sys_example_simps [simp]:
  "cpool pool_sys_example = pool_example 2" "cpcs pool_sys_example = (\<lambda>_. Outside)"
  "cheld pool_sys_example = (\<lambda>_. {})"
  by (simp_all add: pool_sys_example_def)

lemma pool_example_find:
  "find (\<lambda>i. 2 \<le> i \<or> c_state (conns (pool_example 2) i) = CONN_FREE) [0..<32] = Some 0"
  by (simp add: find_upt_Some conn_zero_def)

lemma pool_example_queue: "\<exists>q. new_queue env_example (uint (conn_queuelen (lsp_conf_of (pool_example 2)))) 8 = Done (Some q)"
  using env_example_queue
  by (simp add: pool_example_def new_pool_def sys_example_def default_conf_def lsp_consts)

theorem pool_alone_witness:
  "\<exists>st'. pool_drive 38 env_example (Acquire, pool_example 2) = (Got (Some 0), st')
     \<and> c_state (conns st' 0) = CONN_CLOSED \<and> lport (attr (conns st' 0)) = 255"
proof -
  obtain q where "new_queue env_example (uint (conn_queuelen (lsp_conf_of (pool_example 2)))) 8 = Done (Some q)"
    using pool_example_queue by blast
  then show ?thesis
    using pool_alone [OF pool_example_live, where n = 2 and env = env_example and q = q
        and eg = "\<lparr>event_bits = 0\<rparr>" and env' = env_example]
    unfolding pool_example_find by (auto simp: taken_struct_def)
qed

text \<open>
  C14. What callers get that serialise their allocations, so that no thread begins its search between the choice and
  the mark of another. The code itself does not see to that: it gives the mutex up before it marks the connection
  (\<open>double_allocation\<close>). Then no connection is ever in two hands, and every connection that is held is one of the
  pool and is closed, so no search can choose it, whatever the order of the allocations and the frees.
\<close>

theorem serial_holders:
  assumes "pool_start n s" and "rtranclp serial_step s s'"
  shows "(\<forall>t u. t \<noteq> u \<longrightarrow> cheld s' t \<inter> cheld s' u = {})
    \<and> (\<forall>t. \<forall>i\<in>cheld s' t. i < n \<and> c_state (conns (cpool s') i) = CONN_CLOSED)"
proof -
  have inv: "serial_inv n s'"
    using serial_pool.inv_reachable [OF assms] .
  have own: "i \<in> owns s' t" if "i \<in> cheld s' t" for i t
    using that by (simp add: owns_def)
  have le: "c_state (conns (cpool s') i) \<le> CONN_CLOSED" for i
    using serial_invD(2) [OF inv] by (simp add: clients_def)
  have "c_state (conns (cpool s') i) = CONN_CLOSED" if "i \<in> cheld s' t" for i t
    using serial_invD(8) [OF inv own [OF that]] le [of i]
    by (cases "c_state (conns (cpool s') i)") (simp_all add: less_eq_conn_state_def)
  moreover have "t = u" if "i \<in> cheld s' t" "i \<in> cheld s' u" for i t u
    using serial_invD(9) [OF inv] own that by blast
  ultimately show ?thesis
    using serial_invD(7) [OF inv own] by blast
qed

theorem serial_holders_witness:
  "\<exists>s'. pool_start 2 pool_sys_example \<and> rtranclp serial_step pool_sys_example s'
     \<and> 0 \<in> cheld s' 7 \<and> 0 \<notin> cheld s' 8 \<and> c_state (conns (cpool s') 0) = CONN_CLOSED"
proof -
  let ?s = "pool_sys_example"
  have start: "pool_start 2 ?s"
    by (simp add: pool_start_def pool_example_live conn_zero_def lsp_consts less_eq_conn_state_def)
  obtain q where "new_queue env_example (uint (conn_queuelen (lsp_conf_of (pool_example 2)))) 8 = Done (Some q)"
    using pool_example_queue by blast
  from setup_conn_ok [where st = "pool_example 2" and i = 0, OF disjI2 [OF this]]
  obtain st where st: "setup_conn env_example 0 (pool_example 2) = Done (Some 0, st)"
    by auto
  have ff: "find_free (pool_example 2) [0..<32] = Done (Some 0)"
    by (simp only: find_free_live [OF pool_example_live] pool_example_find) simp
  let ?s1 = "?s\<lparr>cpcs := (cpcs ?s)(7 := MakeQueue 0)\<rparr>"
  let ?s2 = "?s1\<lparr>cpool := st, cpcs := (cpcs ?s1)(7 := Outside), cheld := (cheld ?s1)(7 := cheld ?s1 7 \<union> set_option (Some 0))\<rparr>"
  have "rtranclp (pool_thread 7) ?s ?s1"
    by (rule thread_chooses) (use ff pool_example_live [of 2] in \<open>simp_all add: live_def\<close>)
  moreover have "rtranclp (pool_thread 7) ?s1 ?s2"
    by (rule thread_sets_up) (use st in simp_all)
  ultimately have "rtranclp (pool_thread 7) ?s ?s2"
    by (rule rtranclp_trans)
  then have "rtranclp serial_step ?s ?s2"
    using thread_serial [of 7 ?s ?s2] by simp
  note run = this
  from serial_holders [OF start run] have "c_state (conns (cpool ?s2) 0) = CONN_CLOSED"
    by (auto dest: spec [of _ 7])
  then show ?thesis
    using start run by (intro exI [of _ ?s2] conjI) simp_all
qed

text \<open>
  C30. The code as it is does hand out a connection twice. From any pool whose mutex is free, two threads
  that call \<open>lsp_conn_alloc\<close> can both be given the lowest free connection, since the
  state that marks it as taken is written after the mutex has been released.
\<close>

theorem double_allocation:
  fixes s :: pool_sys and env :: conn_env
  assumes "live n (cpool s)" and "cpcs s t = Outside" and "cpcs s u = Outside" and "t \<noteq> u"
    and "find (\<lambda>i. n \<le> i \<or> c_state (conns (cpool s) i) = CONN_FREE) [0..<32] = Some i" and "i < n"
    and "new_queue env (uint (conn_queuelen (lsp_conf_of (cpool s)))) 8 = Done (Some q)"
    and "new_egroup env = Some eg"
  shows "\<exists>s'. rtranclp pool_step s s' \<and> i \<in> cheld s' t \<and> i \<in> cheld s' u"
proof -
  have ff: "find_free (cpool s) [0..<32] = Done (Some i)" and m: "\<not> conn_mutex (cpool s)"
    using find_free_live [OF assms(1), of 0 32] assms(1,5,6) by (simp_all add: live_def)
  define s1 where "s1 = s\<lparr>cpcs := (cpcs s)(t := MakeQueue i)\<rparr>"
  define s2 where "s2 = s1\<lparr>cpcs := (cpcs s1)(u := MakeQueue i)\<rparr>"
  have 1: "rtranclp (pool_thread t) s s1" "rtranclp (pool_thread u) s1 s2"
    unfolding s1_def s2_def
    by (rule thread_chooses; use assms(2-4) m ff in simp)+
  obtain st rx e where st: "setup_conn env i (cpool s2) = Done (Some i, st)" "rx \<noteq> HNull"
    "conns st = (conns (cpool s2))(i := reset_conn ((conns (cpool s2) i)\<lparr>rx_queue := rx, c_egroup := e\<rparr>))"
    using setup_conn_ok [of "cpool s2" i env q eg] assms(7,8) by (auto simp: s1_def s2_def)
  define s3 where "s3 = s2\<lparr>cpool := st, cpcs := (cpcs s2)(t := Outside), cheld := (cheld s2)(t := cheld s2 t \<union> set_option (Some i))\<rparr>"
  have "rx_queue (conns st i) \<noteq> HNull"
    using st(2,3) by (simp add: reset_conn_def)
  then obtain st' where st': "setup_conn env i (cpool s3) = Done (Some i, st')"
    using setup_conn_ok [of "cpool s3" i env q eg] assms(8) by (auto simp: s3_def)
  define s4 where "s4 = s3\<lparr>cpool := st', cpcs := (cpcs s3)(u := Outside), cheld := (cheld s3)(u := cheld s3 u \<union> set_option (Some i))\<rparr>"
  have "rtranclp (pool_thread t) s2 s3" "rtranclp (pool_thread u) s3 s4"
    unfolding s3_def s4_def
    by (rule thread_sets_up; use assms(4) st(1) st' in \<open>simp add: s1_def s2_def s3_def\<close>)+
  with 1 have "rtranclp pool_step s s4"
    by (meson rtranclp_trans thread_runs)
  then show ?thesis
    by (intro exI [of _ s4]) (use assms(4) in \<open>simp add: s3_def s4_def\<close>)
qed

theorem double_allocation_witness:
  "\<exists>s'. rtranclp pool_step pool_sys_example s' \<and> 0 \<in> cheld s' 7 \<and> 0 \<in> cheld s' 8"
proof -
  obtain q where "new_queue env_example (uint (conn_queuelen (lsp_conf_of (pool_example 2)))) 8 = Done (Some q)"
    using pool_example_queue by blast
  then show ?thesis
    using double_allocation [of 2 pool_sys_example 7 8 0 env_example q "\<lparr>event_bits = 0\<rparr>"]
      pool_example_find pool_example_live [of 2] by simp
qed

end
