(* ===== verification/LspPort.thy ===== *)
theory LspPort imports LspConn begin

section \<open>The port table (lsp_port.c)\<close>

text \<open>
  The static \<open>ports\<close> of \<open>lsp_port.c\<close>: 33 entries (the ports 0 to 31 and one more), each with a
  state and the head of the list of its sockets. The list nodes are those of the connections, so
  the table extends the state of \<open>lsp_conn.c\<close>. A socket is a connection.
\<close>

datatype lsp_port_state = PORT_CLOSED | PORT_OPEN

record port_sys = conn_sys +
  ports :: bool                           \<comment> \<open>the pointer is not NULL\<close>
  port_state :: "nat \<Rightarrow> lsp_port_state"

definition NUM_PORTS :: nat where "NUM_PORTS = nat (LSP_PACKET_PORT_MAX + 2)"

lemma NUM_PORTS_eq: "NUM_PORTS = 33"
  by (simp add: NUM_PORTS_def LSP_PACKET_PORT_MAX_eq)

text \<open>\<open>ports[p]\<close>.\<close>

definition port_entry :: "'z port_sys_scheme \<Rightarrow> nat \<Rightarrow> nat exec" where
  "port_entry st p =
     xbind (xguard (ports st) NullDeref) (\<lambda>_.
     xbind (xguard (p < NUM_PORTS) OutOfBounds) (\<lambda>_. Done p))"

subsection \<open>The operations\<close>

fun init_heads :: "nat list \<Rightarrow> pnode lheap \<Rightarrow> pnode lheap exec" where
  "init_heads [] h = Done h"
| "init_heads (p # ps) h = xbind (lsp_list_head_init (Some (PortHead p)) h) (init_heads ps)"

definition new_ports :: "'z port_sys_scheme \<Rightarrow> 'z port_sys_scheme" where
  "new_ports st =
     st\<lparr>ports := True, port_state := (\<lambda>_. PORT_CLOSED),
        plinks := (plinks st)
          \<lparr>lnext := (\<lambda>a. case a of PortHead _ \<Rightarrow> None | _ \<Rightarrow> lnext (plinks st) a),
           lprev := (\<lambda>a. case a of PortHead _ \<Rightarrow> None | _ \<Rightarrow> lprev (plinks st) a),
           lvalid := (\<lambda>a. case a of PortHead p \<Rightarrow> p < NUM_PORTS | _ \<Rightarrow> lvalid (plinks st) a)\<rparr>\<rparr>"

definition lsp_port_init :: "bool \<Rightarrow> 'z port_sys_scheme \<Rightarrow> (int \<times> 'z port_sys_scheme) exec" where
  "lsp_port_init malloc_ok st =
     xbind (LSP_ASSERT (\<not> ports st)) (\<lambda>_.
     if \<not> malloc_ok then Done (LSP_ERR_NOMEM, st)
     else (let st = new_ports st in
           xbind (init_heads [0..<NUM_PORTS] (plinks st)) (\<lambda>h.
           Done (LSP_ERR_NONE, st\<lparr>plinks := h\<rparr>))))"

definition lsp_port_free :: "'z port_sys_scheme \<Rightarrow> int \<times> 'z port_sys_scheme" where
  "lsp_port_free st =
     (LSP_ERR_NONE,
      st\<lparr>ports := False,
         plinks := (plinks st)\<lparr>lvalid := (\<lambda>a. case a of PortHead _ \<Rightarrow> False
                                                | _ \<Rightarrow> lvalid (plinks st) a)\<rparr>\<rparr>)"

definition lsp_port_get :: "u8 \<Rightarrow> 'z port_sys_scheme \<Rightarrow> nat option exec" where
  "lsp_port_get port st =
     (if uint port > LSP_PACKET_PORT_MAX then Done None
      else xbind (port_entry st (unat port)) (\<lambda>p. Done (Some p)))"

fun on_conn :: "(nat \<Rightarrow> bool) \<Rightarrow> pnode \<Rightarrow> bool" where
  "on_conn P (ConnNode i) = P i"
| "on_conn P (PortHead _) = False"

text \<open>Where \<open>lsp_listen\<close> puts the socket \<open>i\<close> in the list of the port.\<close>

definition listen_insert :: "nat \<Rightarrow> nat \<Rightarrow> 'z conn_sys_scheme \<Rightarrow> pnode lheap exec" where
  "listen_insert i p st =
     xbind (lsp_list_is_empty (Some (PortHead p)) (plinks st)) (\<lambda>empty.
     if empty then lsp_list_add (Some (ConnNode i)) (Some (PortHead p)) (plinks st)
     else
       xbind (lsp_list_for
               (on_conn (\<lambda>sk. priority (attr (conns st sk)) < priority (attr (conns st i))))
               (PortHead p) (plinks st)) (\<lambda>sk.
       case sk of
         None \<Rightarrow> Done (plinks st)
       | Some n \<Rightarrow> lsp_list_insert_before (Some (ConnNode i)) (Some n) (plinks st)))"

definition lsp_listen ::
  "conn_env \<Rightarrow> nat option \<Rightarrow> int \<Rightarrow> 'z port_sys_scheme \<Rightarrow> (int \<times> 'z port_sys_scheme) exec" where
  "lsp_listen env sock backlog st =
     xbind (conn_deref st sock) (\<lambda>i.
     let port = lport (attr (conns st i)) in
     if uint port > LSP_PACKET_PORT_MAX then Done (LSP_ERR_INVALID, st)
     else if sock = None then Done (LSP_ERR_INVALID, st)
     else
       (let st = upd_conn i (\<lambda>c. c\<lparr>c_type := CONN_SERVER\<rparr>) st;
            st = upd_conn i (\<lambda>c. c\<lparr>c_type := int (state_code CONN_LISTEN)\<rparr>) st in
        xbind (new_queue env backlog 8) (\<lambda>r.
        case r of
          None \<Rightarrow> Done (LSP_ERR_NOMEM, upd_conn i (\<lambda>c. c\<lparr>c_union := UNull\<rparr>) st)
        | Some q \<Rightarrow>
            (let st = upd_conn i (\<lambda>c. c\<lparr>c_union := UQueue q\<rparr>) st in
             xbind (port_entry st (unat port)) (\<lambda>p.
             xbind (listen_insert i p st) (\<lambda>h.
             Done (LSP_ERR_NONE,
                   st\<lparr>plinks := h, port_state := (port_state st)(p := PORT_OPEN)\<rparr>)))))))"

text \<open>A socket address: port and address.\<close>

record lsp_sockaddr =
  sa_port :: u8
  sa_addr :: u16

definition lsp_bind ::
  "nat option \<Rightarrow> lsp_sockaddr option \<Rightarrow> 'z port_sys_scheme \<Rightarrow> (int \<times> 'z port_sys_scheme) exec" where
  "lsp_bind sock sockaddr st =
     (if sock = None then Done (LSP_ERR_INVALID, st)
      else xbind (case sockaddr of None \<Rightarrow> Fault NullDeref | Some a \<Rightarrow> Done (sa_port a)) (\<lambda>port.
        xbind (conn_deref st sock) (\<lambda>i.
        if uint port \<noteq> LSP_PORT_ANY \<and> uint port > LSP_PACKET_PORT_MAX
        then Done (LSP_ERR_PORT_INVALID, st)
        else
          (let st = (if uint port = LSP_PORT_ANY
                     then upd_conn i (\<lambda>c. c\<lparr>attr := (attr c)
                            \<lparr>lport := word_of_int (LSP_PACKET_PORT_MAX + 1)\<rparr>\<rparr>) st
                     else st) in
           xbind (port_entry st (unat (lport (attr (conns st i))))) (\<lambda>p.
           if port_state st p \<noteq> PORT_CLOSED then Done (LSP_ERR_PORT_IN_USE, st)
           else Done (LSP_ERR_NONE, st))))))"

subsection \<open>The list of a port\<close>

text \<open>What the code makes of a port's sockets \<open>is\<close> when \<open>i\<close> listens: \<open>lower\<close> tests a priority.\<close>

definition listen_place :: "(nat \<Rightarrow> bool) \<Rightarrow> nat \<Rightarrow> nat list \<Rightarrow> nat list" where
  "listen_place lower i is =
     (if length is \<le> 1 then i # is
      else if \<exists>k\<in>set is. lower k
      then takeWhile (\<lambda>k. \<not> lower k) is @ i # dropWhile (\<lambda>k. \<not> lower k) is
      else is)"

lemma map_ConnNode_mem [simp]: "ConnNode i \<in> ConnNode ` set is \<longleftrightarrow> i \<in> set is"
  by auto

lemma find_on_conn:
  "find (on_conn P) (map ConnNode is) =
     (if \<exists>k\<in>set is. P k then Some (ConnNode (hd (dropWhile (\<lambda>k. \<not> P k) is))) else None)"
  by (induction "is") auto

lemma split_at_lower:
  assumes "\<exists>k\<in>set is. P k"
  shows "is = takeWhile (\<lambda>k. \<not> P k) is @ hd (dropWhile (\<lambda>k. \<not> P k) is) # tl (dropWhile (\<lambda>k. \<not> P k) is)"
proof -
  have "dropWhile (\<lambda>k. \<not> P k) is \<noteq> []"
    using assms by auto
  then show ?thesis by simp
qed

lemma listen_insert_ring:
  assumes r: "ring (plinks st) (PortHead p) (map ConnNode is)" and i: "i \<notin> set is"
    and v: "lvalid (plinks st) (ConnNode i)"
  shows "\<exists>h. listen_insert i p st = Done h \<and> ring h (PortHead p) (map ConnNode
    (listen_place (\<lambda>sk. priority (attr (conns st sk)) < priority (attr (conns st i))) i is))
    \<and> same_outside (set (PortHead p # ConnNode i # map ConnNode is)) (plinks st) h"
proof -
  let ?P = "\<lambda>sk. priority (attr (conns st sk)) < priority (attr (conns st i))"
  have n: "ConnNode i \<notin> set (PortHead p # map ConnNode is)"
    using i by auto
  consider "length is \<le> 1" | "\<not> length is \<le> 1" "\<exists>k\<in>set is. ?P k" | "\<not> length is \<le> 1" "\<not> (\<exists>k\<in>set is. ?P k)"
    by blast
  then show ?thesis
  proof cases
    case 1
    then show ?thesis
      using lsp_list_is_empty_ring [OF r] lsp_list_add_inserts [OF r n v]
      by (fastforce simp: listen_insert_def listen_place_def inserts_def insert_commute)
  next
    case 2
    let ?xs = "takeWhile (\<lambda>k. \<not> ?P k) is" and ?k = "hd (dropWhile (\<lambda>k. \<not> ?P k) is)"
      and ?ys = "tl (dropWhile (\<lambda>k. \<not> ?P k) is)"
    note s = split_at_lower [of "is" ?P, OF 2(2)]
    have e: "map ConnNode is = map ConnNode ?xs @ ConnNode ?k # map ConnNode ?ys"
      by (subst s) simp
    have d: "dropWhile (\<lambda>k. \<not> ?P k) is = ?k # ?ys"
      using 2(2) by (intro hd_Cons_tl [symmetric]) auto
    have "inserts (lsp_list_insert_before (Some (ConnNode i)) (Some (ConnNode ?k))) (plinks st)
        (PortHead p) (ConnNode i) (map ConnNode ?xs) (ConnNode ?k # map ConnNode ?ys)"
      by (rule lsp_list_insert_before_inserts) (use r n v e in simp_all)
    then obtain h where h: "lsp_list_insert_before (Some (ConnNode i)) (Some (ConnNode ?k)) (plinks st) = Done h"
      "ring h (PortHead p) (map ConnNode (?xs @ i # ?k # ?ys))"
      "same_outside (set (ConnNode i # PortHead p # map ConnNode ?xs @ ConnNode ?k # map ConnNode ?ys)) (plinks st) h"
      by (auto simp: inserts_def)
    have "listen_insert i p st = Done h"
      using 2 h(1) lsp_list_is_empty_ring [OF r] lsp_list_for_ring [OF r, of "on_conn ?P"]
      by (simp add: listen_insert_def find_on_conn)
    moreover have "listen_place ?P i is = ?xs @ i # ?k # ?ys"
      using 2 d by (simp add: listen_place_def)
    moreover have "set (ConnNode i # PortHead p # map ConnNode ?xs @ ConnNode ?k # map ConnNode ?ys)
        = set (PortHead p # ConnNode i # map ConnNode is)"
      by (subst e) auto
    ultimately show ?thesis
      using h(2,3) by auto
  next
    case 3
    then show ?thesis
      using r lsp_list_is_empty_ring [OF r] lsp_list_for_ring [OF r, of "on_conn ?P"]
      by (auto simp: listen_insert_def listen_place_def find_on_conn same_outside_def)
  qed
qed

lemma init_heads_rings:
  "\<forall>p\<in>set ps. lvalid h (PortHead p) \<Longrightarrow> distinct ps \<Longrightarrow>
   \<exists>h'. init_heads ps h = Done h' \<and> (\<forall>p\<in>set ps. ring h' (PortHead p) [])
     \<and> same_outside (PortHead ` set ps) h h'"
proof (induction ps arbitrary: h)
  case (Cons p ps)
  then obtain h1 where h1: "lsp_list_head_init (Some (PortHead p)) h = Done h1"
    "ring h1 (PortHead p) []" "same_outside {PortHead p} h h1"
    using lsp_list_head_init_ring [of h "PortHead p"] by auto
  with Cons obtain h2 where h2: "init_heads ps h1 = Done h2" "\<forall>p\<in>set ps. ring h2 (PortHead p) []"
    "same_outside (PortHead ` set ps) h1 h2"
    using Cons.IH [of h1] by (auto simp: same_outside_def)
  have "ring h2 (PortHead p) []"
    using h1(2) h2(3) Cons.prems(2) by (auto simp: ring_def same_outside_def)
  then show ?case
    using h1 h2 by (auto simp: same_outside_def)
qed (simp add: same_outside_def)

subsection \<open>Properties\<close>

definition ports_example :: port_sys where
  "ports_example =
     conn_sys.extend (pool_example 8) \<lparr>ports = False, port_state = (\<lambda>_. PORT_CLOSED)\<rparr>"

lemma ports_example_facts [simp]:
  "\<not> ports ports_example" "live 8 ports_example" "conns ports_example i = conn_zero"
  "lvalid (plinks ports_example) (ConnNode i) \<longleftrightarrow> i < 8"
  using pool_example_live [of 8]
  by (simp_all add: ports_example_def conn_sys.defs live_def pool_example_def new_pool_def)

text \<open>
  Initialising the port table: when memory can be had, all 33 ports are closed and have a
  well-formed empty list, no connection changes, and a second initialisation stops in the
  assertion; without memory nothing changes. Freeing the table makes it possible to initialise it
  again.
\<close>

theorem port_init_outcome:
  assumes "\<not> ports st"
  shows "\<exists>st'. lsp_port_init True st = Done (LSP_ERR_NONE, st')
    \<and> ports st' \<and> conns st' = conns st
    \<and> (\<forall>p<33. port_state st' p = PORT_CLOSED \<and> ring (plinks st') (PortHead p) [])
    \<and> (\<forall>i. lvalid (plinks st') (ConnNode i) = lvalid (plinks st) (ConnNode i))
    \<and> lsp_port_init True st' = Hang
    \<and> lsp_port_init False st = Done (LSP_ERR_NOMEM, st)
    \<and> is_done (lsp_port_init True (snd (lsp_port_free st')))"
proof -
  have init: "\<exists>st'. lsp_port_init True st = Done (LSP_ERR_NONE, st')
    \<and> ports st' \<and> conns st' = conns st
    \<and> (\<forall>p<33. port_state st' p = PORT_CLOSED \<and> ring (plinks st') (PortHead p) [])
    \<and> (\<forall>i. lvalid (plinks st') (ConnNode i) = lvalid (plinks st) (ConnNode i))"
    if "\<not> ports st" for st :: "'a port_sys_scheme"
  proof -
    have "\<forall>p\<in>set [0..<NUM_PORTS]. lvalid (plinks (new_ports st)) (PortHead p)"
      by (simp add: new_ports_def)
    from init_heads_rings [OF this] obtain h where
      "init_heads [0..<NUM_PORTS] (plinks (new_ports st)) = Done h"
      "\<forall>p<33. ring h (PortHead p) []" "\<forall>a. lvalid h a = lvalid (plinks (new_ports st)) a"
      by (auto simp: NUM_PORTS_eq same_outside_def)
    with that show ?thesis
      by (auto simp: lsp_port_init_def new_ports_def Let_def)
  qed
  obtain st' where st': "lsp_port_init True st = Done (LSP_ERR_NONE, st')"
    "ports st'" "conns st' = conns st"
    "\<forall>p<33. port_state st' p = PORT_CLOSED \<and> ring (plinks st') (PortHead p) []"
    "\<forall>i. lvalid (plinks st') (ConnNode i) = lvalid (plinks st) (ConnNode i)"
    using init [OF assms] by blast
  have "\<not> ports (snd (lsp_port_free st'))"
    by (simp add: lsp_port_free_def)
  from init [OF this] have "is_done (lsp_port_init True (snd (lsp_port_free st')))"
    by auto
  with st' assms show ?thesis
    by (intro exI [of _ st']) (simp add: lsp_port_init_def)
qed

theorem port_init_outcome_witness:
  "\<exists>st'. lsp_port_init True ports_example = Done (LSP_ERR_NONE, st')
     \<and> ring (plinks st') (PortHead 32) []"
  using port_init_outcome [of ports_example] by auto

text \<open>The priority test of \<open>lsp_listen\<close>.\<close>

definition lower_than :: "'z conn_sys_scheme \<Rightarrow> nat \<Rightarrow> nat \<Rightarrow> bool" where
  "lower_than st i sk \<longleftrightarrow> priority (attr (conns st sk)) < priority (attr (conns st i))"

text \<open>
  C39. Listening on a valid port with a socket that is not on its list, when the queue can be had: the socket gets a children queue, the port opens, and the socket
  goes into the port's list in front of the first socket of lower priority. But what is written
  to the type is the number of the listening state, and the state is not changed; the list is
  taken for empty when it holds one socket; and a socket with no lower one behind it is not put
  on the list at all.
\<close>

theorem listen_outcome:
  assumes "live n st" and "i < n" and "ports st" and "lport (attr (conns st i)) \<le> 31"
    and "ring (plinks st) (PortHead (unat (lport (attr (conns st i))))) (map ConnNode is)"
    and "i \<notin> set is" and "lvalid (plinks st) (ConnNode i)"
    and "new_queue env backlog 8 = Done (Some q)"
  shows "\<exists>st'. lsp_listen env (Some i) backlog st = Done (LSP_ERR_NONE, st')
    \<and> conns st' = (conns st)(i := (conns st i)\<lparr>c_type := 3, c_union := UQueue q\<rparr>)
    \<and> ring (plinks st') (PortHead (unat (lport (attr (conns st i)))))
        (map ConnNode (listen_place (lower_than st i) i is))
    \<and> port_state st' = (port_state st)(unat (lport (attr (conns st i))) := PORT_OPEN)"
proof -
  let ?p = "unat (lport (attr (conns st i)))"
  define st1 where "st1 = upd_conn i (\<lambda>c. c\<lparr>c_union := UQueue q\<rparr>)
    (upd_conn i (\<lambda>c. c\<lparr>c_type := 3\<rparr>) (upd_conn i (\<lambda>c. c\<lparr>c_type := CONN_SERVER\<rparr>) st))"
  have st1: "plinks st1 = plinks st" "ports st1" "port_state st1 = port_state st"
    "conns st1 = (conns st)(i := (conns st i)\<lparr>c_type := 3, c_union := UQueue q\<rparr>)"
    using assms(3) by (simp_all add: st1_def upd_conn_def)
  have lower: "(\<lambda>sk. priority (attr (conns st1 sk)) < priority (attr (conns st1 i))) = lower_than st i"
    by (simp add: lower_than_def st1(4) fun_eq_iff)
  obtain h where h: "listen_insert i ?p st1 = Done h"
    "ring h (PortHead ?p) (map ConnNode (listen_place (lower_than st i) i is))"
    using listen_insert_ring [of st1 ?p "is" i] assms(5-7) st1(1) unfolding lower by auto
  have u: "\<not> 31 < uint (lport (attr (conns st i)))"
    using assms(4) by (simp add: word_le_def not_less)
  have "?p \<le> 31"
    using assms(4) by (simp add: word_le_nat_alt)
  then have p: "port_entry st1 ?p = Done ?p"
    using st1(2) by (simp add: port_entry_def NUM_PORTS_eq)
  show ?thesis
    using assms(1,2,8) u p h st1
    by (auto simp: lsp_listen_def conn_deref_live LSP_PACKET_PORT_MAX_eq Let_def simp flip: st1_def)
qed

definition listen_example :: "port_sys" where
  "listen_example =
     (upd_conn 0 (\<lambda>c. c\<lparr>attr := (attr c)\<lparr>lport := 3, priority := 4\<rparr>\<rparr>)
       (conn_sys.extend (pool_example 8) \<lparr>ports = True, port_state = (\<lambda>_. PORT_CLOSED)\<rparr>))
     \<lparr>plinks := \<lparr>lnext = Some, lprev = Some, lvalid = (\<lambda>_. True)\<rparr>\<rparr>"

theorem listen_outcome_witness:
  "\<exists>st'. lsp_listen env_example (Some 0) 4 listen_example = Done (0, st')
     \<and> c_type (conns st' 0) = 3 \<and> c_state (conns st' 0) = CONN_FREE
     \<and> ring (plinks st') (PortHead 3) [ConnNode 0]"
proof -
  have "live 8 listen_example" "ports listen_example" "lport (attr (conns listen_example 0)) = 3"
    "ring (plinks listen_example) (PortHead 3) (map ConnNode [])"
    "lvalid (plinks listen_example) (ConnNode 0)" "c_state (conns listen_example 0) = CONN_FREE"
    using pool_example_live [of 8]
    by (simp_all add: listen_example_def conn_sys.defs live_def ring_def conn_zero_def upd_conn_def
        pool_example_def new_pool_def)
  moreover obtain q where "new_queue env_example 4 8 = Done (Some q)"
    using env_example_queue by blast
  ultimately show ?thesis
    using listen_outcome [of 8 listen_example 0 "[]" env_example 4 q]
    by (auto simp: listen_place_def lsp_consts)
qed

text \<open>
  The order of the sockets of a port, highest priority first, is kept by a listening socket
  that finds two or more sockets; when it finds exactly one, of higher priority, the order is
  lost.
\<close>

theorem listen_order:
  assumes "sorted_wrt (\<lambda>j k. priority (attr (conns st k)) \<le> priority (attr (conns st j))) is"
  shows "(length is \<noteq> 1 \<longrightarrow> sorted_wrt (\<lambda>j k. priority (attr (conns st k)) \<le> priority (attr (conns st j)))
      (listen_place (lower_than st i) i is))
    \<and> (\<forall>k. is = [k] \<and> priority (attr (conns st i)) < priority (attr (conns st k)) \<longrightarrow>
      \<not> sorted_wrt (\<lambda>j k. priority (attr (conns st k)) \<le> priority (attr (conns st j)))
          (listen_place (lower_than st i) i is))"
proof -
  let ?pr = "\<lambda>k. priority (attr (conns st k))" and ?L = "lower_than st i"
  let ?R = "\<lambda>j k. ?pr k \<le> ?pr j"
  let ?t = "takeWhile (\<lambda>k. \<not> ?L k) is" and ?d = "dropWhile (\<lambda>k. \<not> ?L k) is"
  have s: "sorted_wrt ?R (?t @ ?d)"
    using assms by simp
  have t: "?pr i \<le> ?pr k" if "k \<in> set ?t" for k
    using set_takeWhileD [OF that] by (simp add: lower_than_def not_less)
  have d: "?pr k \<le> ?pr i" if k: "k \<in> set ?d" for k
  proof -
    obtain a ys where a: "?d = a # ys"
      using k by (cases ?d) auto
    then have "?L a"
      by (metis dropWhile_eq_Cons_conv)
    moreover have "?pr k \<le> ?pr a"
      using s k by (auto simp: a sorted_wrt_append)
    ultimately show ?thesis
      by (simp add: lower_than_def)
  qed
  have "sorted_wrt ?R (?t @ i # ?d)" if "\<exists>k\<in>set is. ?L k"
    using s t d by (auto simp: sorted_wrt_append intro: order_trans)
  then show ?thesis
    using assms by (cases "length is") (auto simp: listen_place_def)
qed

definition three_sockets :: conn_sys where
  "three_sockets = upd_conn 2 (\<lambda>c. c\<lparr>attr := (attr c)\<lparr>priority := 5\<rparr>\<rparr>)
     (upd_conn 1 (\<lambda>c. c\<lparr>attr := (attr c)\<lparr>priority := 7\<rparr>\<rparr>) (pool_example 8))"

theorem listen_order_witness:
  "sorted_wrt (\<lambda>j k. priority (attr (conns three_sockets k)) \<le> priority (attr (conns three_sockets j)))
     (listen_place (lower_than three_sockets 2) 2 [1, 0])
   \<and> \<not> sorted_wrt (\<lambda>j k. priority (attr (conns three_sockets k)) \<le> priority (attr (conns three_sockets j)))
     (listen_place (lower_than three_sockets 0) 0 [1])"
  using listen_order [of three_sockets "[1, 0]" 2] listen_order [of three_sockets "[1]" 0]
  by (simp add: three_sockets_def conn_zero_def)

lemma bind_live:
  assumes "live n st" and "i < n" and "ports st"
  shows "lsp_bind (Some i) (Some a) st =
    (if sa_port a = 255
     then Done (if port_state st 32 = PORT_CLOSED then LSP_ERR_NONE else LSP_ERR_PORT_IN_USE,
                upd_conn i (\<lambda>c. c\<lparr>attr := (attr c)\<lparr>lport := 32\<rparr>\<rparr>) st)
     else if 31 < sa_port a then Done (LSP_ERR_PORT_INVALID, st)
     else if 32 < lport (attr (conns st i)) then Fault OutOfBounds
     else Done (if port_state st (unat (lport (attr (conns st i)))) = PORT_CLOSED then LSP_ERR_NONE
                else LSP_ERR_PORT_IN_USE, st))"
proof -
  have k: "LSP_PORT_ANY = 255" "LSP_PACKET_PORT_MAX = 31"
    by (simp_all add: lsp_consts push_bit_eq_mult)
  have l: "unat (lport (attr (conns st i))) < 33 \<longleftrightarrow> \<not> 32 < lport (attr (conns st i))"
    by (auto simp: word_less_nat_alt)
  have p: "ports (upd_conn i f st) = ports st" "port_state (upd_conn i f st) = port_state st" for f
    by (simp_all add: upd_conn_def)
  note d = lsp_bind_def conn_deref_live [OF assms(1,2)] port_entry_def NUM_PORTS_eq p k
  show ?thesis
  proof (cases "sa_port a = 255")
    case True
    then show ?thesis
      using assms by (simp add: d)
  next
    case False
    then have "uint (sa_port a) \<noteq> 255"
      by (simp add: word_uint_eq_iff)
    moreover have "31 < uint (sa_port a) \<longleftrightarrow> 31 < sa_port a"
      by (simp add: word_less_def)
    ultimately show ?thesis
      using False assms by (simp add: d l xguard_def)
  qed
qed

text \<open>
  Binding. \<open>LSP_PORT_ANY\<close> stores port 32 and looks at the state of that entry; a number from 32
  to 254 is refused; a normal port is not stored, and the state that is looked at is that of the
  port the socket had before, which for a socket fresh from the pool (255) is past the end of
  the table.
\<close>

theorem bind_outcome:
  assumes "live n st" and "i < n" and "ports st"
  shows "lsp_bind (Some i) (Some a) st =
    (if sa_port a = 255
     then Done (if port_state st 32 = PORT_CLOSED then LSP_ERR_NONE else LSP_ERR_PORT_IN_USE,
                upd_conn i (\<lambda>c. c\<lparr>attr := (attr c)\<lparr>lport := 32\<rparr>\<rparr>) st)
     else if 31 < sa_port a then Done (LSP_ERR_PORT_INVALID, st)
     else if 32 < lport (attr (conns st i)) then Fault OutOfBounds
     else Done (if port_state st (unat (lport (attr (conns st i)))) = PORT_CLOSED then LSP_ERR_NONE
                else LSP_ERR_PORT_IN_USE, st))"
  using bind_live [OF assms] .

theorem bind_outcome_witness:
  "lsp_bind (Some 0) (Some \<lparr>sa_port = 5, sa_addr = 1\<rparr>)
     (upd_conn 0 reset_conn listen_example) = Fault OutOfBounds"
proof -
  have "live 8 (upd_conn 0 reset_conn listen_example)" "ports (upd_conn 0 reset_conn listen_example)"
    using pool_example_live [of 8]
    by (simp_all add: listen_example_def conn_sys.defs live_def upd_conn_def pool_example_def
        new_pool_def)
  moreover have "lport (attr (conns (upd_conn 0 reset_conn listen_example) 0)) = 255"
    by (simp add: reset_conn_def def_conn_attr_def lsp_consts)
  ultimately show ?thesis
    using bind_outcome [of 8 "upd_conn 0 reset_conn listen_example" 0] by simp
qed

end
