(* ===== verification/LspSocket.thy ===== *)
theory LspSocket imports LspPort begin

section \<open>The socket interface (lsp_socket.c) and what a program can reach through it\<close>

text \<open>
  The four functions of \<open>lsp_socket.c\<close>, and the step relation of a program that calls the public
  functions on the sockets it was given, in any order and with any arguments.
\<close>

subsection \<open>The operations\<close>

definition lsp_socket ::
  "conn_env \<Rightarrow> int \<Rightarrow> int \<Rightarrow> int \<Rightarrow> 'z conn_sys_scheme \<Rightarrow> (nat option \<times> 'z conn_sys_scheme) exec" where
  "lsp_socket env domain stype protocol st =
     (if domain \<noteq> AF_LSP then Done (None, st)
      else if stype \<noteq> LSP_SOCK_RAW \<and> stype \<noteq> LSP_SOCK_STREAM then Done (None, st)
      else if protocol \<noteq> LSPPROTO_LSP then Done (None, st)
      else lsp_conn_alloc env st)"

definition lsp_closesocket :: "conn_env \<Rightarrow> nat option \<Rightarrow> int \<Rightarrow> 'z conn_sys_scheme \<Rightarrow> 'z conn_sys_scheme exec"
  where
  "lsp_closesocket env sock how st = xbind (lsp_conn_free env sock st) (\<lambda>(_, st). Done st)"

text \<open>\<open>child\<close> is NULL until a pop writes it; \<open>lock_rc\<close> and \<open>wait\<close> are those of the pop.\<close>

definition lsp_accept ::
  "conn_env \<Rightarrow> int \<Rightarrow> (lsp_queue \<Rightarrow> int \<times> lsp_queue) \<Rightarrow> nat option \<Rightarrow> u32 \<Rightarrow> 'z conn_sys_scheme \<Rightarrow>
     (nat option \<times> 'z conn_sys_scheme) exec" where
  "lsp_accept env lock_rc wait sock timeout st =
     xbind (conn_deref st sock) (\<lambda>i.
     if c_type (conns st i) \<noteq> CONN_SERVER then Done (None, st)
     else if c_state (conns st i) \<noteq> CONN_LISTEN then Done (None, st)
     else
       xbind (children_of (c_union (conns st i))) (\<lambda>q.
       xbind (lsp_queue_pop lock_rc wait timeout q) (\<lambda>(rc, item, q').
       let st = upd_conn i (\<lambda>c. c\<lparr>c_union := UQueue q'\<rparr>) st;
           child = Option.bind item (conn_at env) in
       xbind (conn_deref st child) (\<lambda>k.
       Done (child, upd_conn k (\<lambda>c. c\<lparr>c_type := CONN_CHILD, c_union := UParent i\<rparr>) st)))))"

definition lsp_connect ::
  "nat option \<Rightarrow> lsp_sockaddr option \<Rightarrow> 'z conn_sys_scheme \<Rightarrow> (int \<times> 'z conn_sys_scheme) exec" where
  "lsp_connect sock sockaddr st =
     xbind (case sockaddr of None \<Rightarrow> Fault NullDeref | Some a \<Rightarrow> Done a) (\<lambda>a.
     if uint (sa_port a) = LSP_PORT_ANY
     then xbind (conn_deref st sock) (\<lambda>i.
       Done (LSP_ERR_NONE, upd_conn i (\<lambda>c. c\<lparr>attr := (attr c)
         \<lparr>rport := word_of_int (LSP_PACKET_PORT_MAX + 1), raddr := sa_addr a\<rparr>\<rparr>) st))
     else if uint (sa_port a) > LSP_PACKET_PORT_MAX then Done (LSP_ERR_PORT_INVALID, st)
     else xbind (conn_deref st sock) (\<lambda>i.
       Done (LSP_ERR_NONE, upd_conn i (\<lambda>c. c\<lparr>attr := (attr c)\<lparr>raddr := sa_addr a\<rparr>\<rparr>) st)))"

subsection \<open>What one call does\<close>

text \<open>
  Connecting stores the remote address, and the port only for \<open>LSP_PORT_ANY\<close> (as 32): the
  remote port of a connection to a normal port is never stored, the state never becomes
  connected, and an invalid port changes nothing.
\<close>

theorem connect_outcome:
  assumes "live n st" and "i < n"
  shows "\<exists>rc st'. lsp_connect (Some i) (Some a) st = Done (rc, st')
    \<and> rc = (if 31 < sa_port a \<and> sa_port a \<noteq> 255 then LSP_ERR_PORT_INVALID else LSP_ERR_NONE)
    \<and> (if rc = LSP_ERR_NONE
       then conns st' = (conns st)(i := (conns st i)\<lparr>attr := (attr (conns st i))
              \<lparr>rport := if sa_port a = 255 then 32 else rport (attr (conns st i)),
               raddr := sa_addr a\<rparr>\<rparr>)
       else st' = st)"
proof -
  have k: "LSP_PORT_ANY = 255" "LSP_PACKET_PORT_MAX = 31"
    by (simp_all add: lsp_consts push_bit_eq_mult)
  have e: "LSP_ERR_PORT_INVALID \<noteq> LSP_ERR_NONE"
    by (simp add: lsp_consts)
  have any: "uint (sa_port a) = 255 \<longleftrightarrow> sa_port a = 255"
    by (simp add: word_uint_eq_iff)
  have big: "31 < uint (sa_port a) \<longleftrightarrow> 31 < sa_port a"
    by (simp add: word_less_def)
  show ?thesis
    using e conn_deref_live [OF assms] by (simp add: lsp_connect_def k any big)
qed

theorem connect_outcome_witness:
  "\<exists>st'. lsp_connect (Some 0) (Some \<lparr>sa_port = 9, sa_addr = 77\<rparr>)
      (upd_conn 0 reset_conn (pool_example 1)) = Done (0, st')
     \<and> rport (attr (conns st' 0)) = 255 \<and> raddr (attr (conns st' 0)) = 77"
  using connect_outcome [of 1 "upd_conn 0 reset_conn (pool_example 1)" 0 "\<lparr>sa_port = 9, sa_addr = 77\<rparr>"]
  by (auto simp: pool_example_live reset_conn_def def_conn_attr_def lsp_consts)

text \<open>
  Accepting, on a server in the listening state, without waiting: a waiting child is taken from
  the front of the queue, becomes a child and gets the server as its parent; with none waiting
  the function writes through the NULL pointer. On a socket of any other type or state it returns
  NULL.
\<close>

theorem accept_outcome:
  assumes "live n st" and "i < n" and "q_inv q" and "c_union (conns st i) = UQueue q"
    and "map (conn_at env) (q_items q) = map Some cs" and "\<forall>c\<in>set cs. c < n"
  shows "if c_type (conns st i) = CONN_SERVER \<and> c_state (conns st i) = CONN_LISTEN
    then (case cs of
        [] \<Rightarrow> lsp_accept env LSP_ERR_NONE w (Some i) 0 st = Fault NullDeref
      | c # ds \<Rightarrow> \<exists>st'. lsp_accept env LSP_ERR_NONE w (Some i) 0 st = Done (Some c, st')
          \<and> c_type (conns st' c) = CONN_CHILD \<and> c_union (conns st' c) = UParent i
          \<and> (c \<noteq> i \<longrightarrow> (\<exists>q'. c_union (conns st' i) = UQueue q' \<and> q_inv q'
                \<and> map (conn_at env) (q_items q') = map Some ds)))
    else lsp_accept env LSP_ERR_NONE w (Some i) 0 st = Done (None, st)"
proof -
  note d = lsp_accept_def conn_deref_live [OF assms(1,2)]
  consider "\<not> (c_type (conns st i) = CONN_SERVER \<and> c_state (conns st i) = CONN_LISTEN)"
    | "c_type (conns st i) = CONN_SERVER" "c_state (conns st i) = CONN_LISTEN" "q_items q = []" "cs = []"
    | c ds x xs where "c_type (conns st i) = CONN_SERVER" "c_state (conns st i) = CONN_LISTEN"
        "q_items q = x # xs" "cs = c # ds"
    using assms(5) by (cases cs; cases "q_items q") auto
  then show ?thesis
  proof cases
    case 1
    then show ?thesis by (auto simp: d)
  next
    case 2
    then show ?thesis
      using assms(4) ring_buffer.pop_none [OF assms(3) 2(3), of w]
      by (simp add: d) (simp add: conn_deref_def)
  next
    case 3
    obtain q' where q': "lsp_queue_pop LSP_ERR_NONE w 0 q = Done (LSP_ERR_NONE, Some x, q')"
      "q_inv q'" "q_items q' = xs"
      using ring_buffer.pop_some [OF assms(3) 3(3), of w] by blast
    have "conn_deref (upd_conn i (\<lambda>c. c\<lparr>c_union := UQueue q'\<rparr>) st) (Some c) = Done c"
      using assms(1,6) 3(4) by (intro conn_deref_live) auto
    then show ?thesis
      using 3 q' assms(4,5) by (auto simp: d)
  qed
qed

definition accept_example :: conn_sys where
  "accept_example = upd_conn 0 (\<lambda>c. c\<lparr>c_state := CONN_LISTEN\<rparr>) server_example"

theorem accept_outcome_witness:
  "\<exists>st'. lsp_accept env_example LSP_ERR_NONE (\<lambda>q. (0, q)) (Some 0) 0 accept_example = Done (Some 1, st')
     \<and> c_union (conns st' 1) = UParent 0"
proof -
  let ?q = "queue_one\<lparr>qdata := [1, 0]\<rparr>"
  have q: "q_inv ?q" "q_items ?q = [[1]]"
    by (simp_all add: q_inv_def q_wf_def queue_one_def queue_example_def q_items_def entry_def)
  have "live 2 accept_example"
    by (simp add: accept_example_def server_example_def pool_example_live)
  then show ?thesis
    using accept_outcome [of 2 accept_example 0 ?q env_example "[1]" "\<lambda>q. (0, q)"] q
    by (auto simp: accept_example_def server_example_def env_example_def)
qed

subsection \<open>Programs over the public functions\<close>

text \<open>
  \<open>handles\<close> are the sockets the program has been given; it never makes one up. A step is one call
  that returns, with any environment and any arguments. \<open>lsp_conn_init\<close> is not among them: on
  a live pool it stops in its assertion.
\<close>

record api = port_sys +
  handles :: "nat set"

inductive api_step :: "api \<Rightarrow> api \<Rightarrow> bool" where
  socket: "lsp_socket env domain stype protocol st = Done (r, st') \<Longrightarrow>
     api_step st (st'\<lparr>handles := handles st' \<union> set_option r\<rparr>)"
| closesocket: "i \<in> handles st \<Longrightarrow> lsp_closesocket env (Some i) how st = Done st' \<Longrightarrow> api_step st st'"
| accept: "i \<in> handles st \<Longrightarrow> lsp_accept env lock_rc wait (Some i) timeout st = Done (r, st') \<Longrightarrow>
     api_step st (st'\<lparr>handles := handles st' \<union> set_option r\<rparr>)"
| connect: "i \<in> handles st \<Longrightarrow> lsp_connect (Some i) sockaddr st = Done (rc, st') \<Longrightarrow> api_step st st'"
| bind: "i \<in> handles st \<Longrightarrow> lsp_bind (Some i) sockaddr st = Done (rc, st') \<Longrightarrow> api_step st st'"
| listen: "i \<in> handles st \<Longrightarrow> lsp_listen env (Some i) backlog st = Done (rc, st') \<Longrightarrow> api_step st st'"
| conn_close: "i \<in> handles st \<Longrightarrow> lsp_conn_close env (Some i) st = Done (rc, st') \<Longrightarrow> api_step st st'"
| rxq_push: "i \<in> handles st \<Longrightarrow> lsp_conn_rxq_push lock_rc wait b (Some i) st = Done (rc, st') \<Longrightarrow>
     api_step st st'"
| rxq_flush: "i \<in> handles st \<Longrightarrow> lsp_conn_rxq_flush env (Some i) st = Done (rc, st') \<Longrightarrow>
     api_step st st'"
| port_init: "lsp_port_init malloc_ok st = Done (rc, st') \<Longrightarrow> api_step st st'"
| port_free: "lsp_port_free st = (rc, st') \<Longrightarrow> api_step st st'"

text \<open>A pool of \<open>n\<close> structs as the \<open>memset\<close> of \<open>lsp_conn_init\<close> leaves it, and no socket given out.\<close>

definition api_start :: "nat \<Rightarrow> api \<Rightarrow> bool" where
  "api_start n st \<longleftrightarrow> live n st \<and> conns st = (\<lambda>_. conn_zero) \<and> handles st = {}
     \<and> (\<forall>p. port_state st p = PORT_CLOSED)"

definition api_inv :: "nat \<Rightarrow> api \<Rightarrow> bool" where
  "api_inv n st \<longleftrightarrow> live n st
     \<and> (\<forall>i. c_type (conns st i) = CONN_CLIENT \<and> c_state (conns st i) \<le> CONN_CLOSED)
     \<and> (\<forall>i\<in>handles st. i < n \<and> (lport (attr (conns st i)) = 255 \<or> lport (attr (conns st i)) = 32))
     \<and> (\<forall>p. port_state st p = PORT_CLOSED)"

text \<open>Changes that the invariant does not see.\<close>

definition soft :: "api \<Rightarrow> api \<Rightarrow> bool" where
  "soft st st' \<longleftrightarrow> conn_pool st' = conn_pool st \<and> conn_mutex st' = conn_mutex st
     \<and> handles st' = handles st \<and> port_state st' = port_state st \<and> ports st' = ports st
     \<and> (\<forall>j. c_type (conns st' j) = c_type (conns st j) \<and> c_state (conns st' j) = c_state (conns st j)
            \<and> lport (attr (conns st' j)) = lport (attr (conns st j)))"

lemma soft_inv: "soft st st' \<Longrightarrow> api_inv n st \<Longrightarrow> api_inv n st'"
  by (auto simp: soft_def api_inv_def live_def)

lemma soft_refl [simp]: "soft st st"
  by (simp add: soft_def)

lemma soft_trans: "soft st st' \<Longrightarrow> soft st' st'' \<Longrightarrow> soft st st''"
  by (simp add: soft_def)

lemma upd_conn_api [simp]:
  fixes st :: api
  shows "handles (upd_conn i f st) = handles st" "port_state (upd_conn i f st) = port_state st"
    "ports (upd_conn i f st) = ports st"
  by (simp_all add: upd_conn_def)

lemma soft_upd:
  assumes "\<And>c. c_type (f c) = c_type c \<and> c_state (f c) = c_state c
    \<and> lport (attr (f c)) = lport (attr c)"
  shows "soft st (upd_conn i f st)"
  using assms by (auto simp: soft_def)

lemma soft_refusals [simp]: "soft st (st\<lparr>refusals := ls\<rparr>)"
  by (simp add: soft_def)

lemma need_rx_queue_soft:
  fixes st :: api
  assumes "need_rx_queue env i st = Done (ok, st')"
  shows "soft st st'"
  using assms
  by (auto simp: need_rx_queue_def exec_simps intro!: soft_upd split: if_splits option.splits)

lemma need_egroup_soft: "need_egroup env i st = (ok, st') \<Longrightarrow> soft st st'"
  by (auto simp: need_egroup_def intro!: soft_upd split: if_splits option.splits)

lemma alloc_cases:
  fixes st :: api
  assumes "api_inv n st" "lsp_conn_alloc env st = Done (r, st')"
  shows "case r of None \<Rightarrow> soft st st'
    | Some i \<Rightarrow> i < n \<and> (\<exists>st1. soft st st1 \<and> st' = upd_conn i reset_conn st1)"
proof -
  have "live n st"
    using assms(1) by (simp add: api_inv_def)
  with assms(2) consider "r = None" "st' = st" | i where "i < n" "setup_conn env i st = Done (r, st')"
    by (auto simp: conn_alloc_search simp flip: not_le split: option.splits if_splits)
  then show ?thesis
  proof cases
    case 2
    obtain ok st1 where st1: "need_rx_queue env i st = Done (ok, st1)"
      using 2(2) by (auto simp: setup_conn_def xbind_Done_iff)
    obtain ok' st2 where st2: "need_egroup env i st1 = (ok', st2)"
      by (cases "need_egroup env i st1")
    have "soft st st1" "soft st st2"
      using need_rx_queue_soft [OF st1] need_egroup_soft [OF st2] by (auto intro: soft_trans)
    then show ?thesis
      using 2 st1 st2 by (auto simp: setup_conn_def split: if_splits)
  qed simp
qed

lemma reset_inv:
  "api_inv n st \<Longrightarrow> i < n \<Longrightarrow>
     api_inv n ((upd_conn i reset_conn st)\<lparr>handles := handles (upd_conn i reset_conn st) \<union> {i}\<rparr>)"
  by (auto simp: api_inv_def live_def reset_conn_def def_conn_attr_def lsp_consts)

text \<open>What the invariant makes of the calls on a socket the program holds.\<close>

lemma held_socket:
  assumes "api_inv n st" "i \<in> handles st"
  shows "live n st" "i < n" "conn_deref st (Some i) = Done i" "c_type (conns st i) = CONN_CLIENT"
    "c_state (conns st i) \<le> CONN_CLOSED" "31 < uint (lport (attr (conns st i)))"
  using assms conn_deref_live [of n st i] by (auto simp: api_inv_def)

lemma listen_held:
  "api_inv n st \<Longrightarrow> i \<in> handles st \<Longrightarrow> lsp_listen env (Some i) backlog st = Done (LSP_ERR_INVALID, st)"
  using held_socket [of n st i] by (simp add: lsp_listen_def LSP_PACKET_PORT_MAX_eq)

lemma accept_held:
  "api_inv n st \<Longrightarrow> i \<in> handles st \<Longrightarrow> lsp_accept env lock_rc wait (Some i) timeout st = Done (None, st)"
  using held_socket [of n st i] by (simp add: lsp_accept_def lsp_consts)

lemma close_held:
  "api_inv n st \<Longrightarrow> i \<in> handles st \<Longrightarrow> lsp_conn_close env (Some i) st = Done (LSP_ERR_NONE, st)"
  using held_socket [of n st i] by (simp add: lsp_conn_close_def)

lemma free_held:
  assumes "api_inv n st" "i \<in> handles st" "lsp_conn_free env (Some i) st = Done (rc, st')"
  shows "st' = st \<or> st' = upd_conn i (\<lambda>c. c\<lparr>c_state := CONN_FREE\<rparr>) st"
  using assms(3) held_socket [OF assms(1,2)] conn_free_outcome [of n st i env]
  by (auto simp: lsp_consts split: if_splits)

lemma bind_held:
  assumes "api_inv n st" "i \<in> handles st" "lsp_bind (Some i) a st = Done (rc, st')"
  shows "st' = st \<or> st' = upd_conn i (\<lambda>c. c\<lparr>attr := (attr c)\<lparr>lport := 32\<rparr>\<rparr>) st"
  using assms(3) held_socket [OF assms(1,2)]
  by (auto simp: lsp_bind_def exec_simps LSP_PACKET_PORT_MAX_eq Let_def split: option.splits if_splits)

lemma connect_held:
  assumes "api_inv n st" "i \<in> handles st" "lsp_connect (Some i) a st = Done (rc, st')"
  shows "soft st st'"
  using assms(3) held_socket [OF assms(1,2)]
  by (auto simp: lsp_connect_def exec_simps intro!: soft_upd split: option.splits if_splits)

lemma push_held:
  fixes st :: api
  assumes "lsp_conn_rxq_push lock_rc wait b (Some i) st = Done (rc, st')"
  shows "soft st st'"
  using assms by (auto simp: lsp_conn_rxq_push_def exec_simps intro!: soft_upd)

lemma flush_held:
  fixes st :: api
  assumes "lsp_conn_rxq_flush env (Some i) st = Done (rc, st')"
  shows "soft st st'"
  using assms
  by (auto simp: lsp_conn_rxq_flush_def exec_simps intro!: soft_trans [OF soft_refusals soft_upd] split: if_splits)

lemma port_init_inv:
  assumes "api_inv n st" "lsp_port_init malloc_ok st = Done (rc, st')"
  shows "api_inv n st'"
  using assms
  by (auto simp: lsp_port_init_def new_ports_def LSP_ASSERT_def lsp_abort_def exec_simps api_inv_def
      live_def Let_def split: if_splits)

lemma free_inv:
  assumes "api_inv n st"
  shows "api_inv n (upd_conn i (\<lambda>c. c\<lparr>c_state := CONN_FREE\<rparr>) st)"
  using assms by (simp add: api_inv_def less_eq_conn_state_def)

lemma bind_inv:
  assumes "api_inv n st"
  shows "api_inv n (upd_conn i (\<lambda>c. c\<lparr>attr := (attr c)\<lparr>lport := 32\<rparr>\<rparr>) st)"
  using assms by (simp add: api_inv_def)

lemma start_inv: "api_start n st \<Longrightarrow> api_inv n st"
  by (simp add: api_start_def api_inv_def conn_zero_def lsp_consts less_eq_conn_state_def)

lemma api_inv_step:
  assumes "api_step st st'" "api_inv n st"
  shows "api_inv n st'"
  using assms(1)
proof (cases rule: api_step.cases)
  case (socket env domain stype protocol r st1)
  then have "r = None \<and> st1 = st \<or> lsp_conn_alloc env st = Done (r, st1)"
    by (auto simp: lsp_socket_def split: if_splits)
  then show ?thesis
  proof
    assume "lsp_conn_alloc env st = Done (r, st1)"
    from alloc_cases [OF assms(2) this] show ?thesis
      using assms(2) socket(1) soft_inv reset_inv by (cases r) auto
  qed (use assms(2) socket(1) in simp)
next
  case (closesocket i env how)
  then obtain rc where "lsp_conn_free env (Some i) st = Done (rc, st')"
    by (auto simp: lsp_closesocket_def xbind_Done_iff)
  from free_held [OF assms(2) closesocket(1) this] show ?thesis
    using assms(2) free_inv by auto
next
  case (accept i env lock_rc wait timeout r st1)
  then show ?thesis
    using accept_held [OF assms(2)] assms(2) by auto
next
  case (bind i a rc)
  from bind_held [OF assms(2) this] show ?thesis
    using assms(2) bind_inv by auto
next
  case (listen i env backlog rc)
  then show ?thesis
    using listen_held [OF assms(2)] assms(2) by auto
next
  case (conn_close i env rc)
  then show ?thesis
    using close_held [OF assms(2)] assms(2) by auto
next
  case port_free
  then show ?thesis
    using assms(2) by (auto simp: lsp_port_free_def api_inv_def live_def)
next
  case (connect i a rc)
  then show ?thesis
    using soft_inv [OF connect_held [OF assms(2) connect] assms(2)] by simp
next
  case (rxq_push i lock_rc wait b rc)
  then show ?thesis
    using soft_inv [OF push_held [OF rxq_push(2)] assms(2)] by simp
next
  case (rxq_flush i env rc)
  then show ?thesis
    using soft_inv [OF flush_held [OF rxq_flush(2)] assms(2)] by simp
next
  case (port_init malloc_ok rc)
  then show ?thesis
    by (rule port_init_inv [OF assms(2)])
qed

interpretation socket_api: step_invariant "api_start n" api_step "api_inv n" for n
  by unfold_locales (erule start_inv, erule (1) api_inv_step)

subsection \<open>Properties of every reachable state\<close>

text \<open>
  C15. No program can open a connection. In every state reachable from a fresh pool by the public
  functions, every socket is free or closed and of type client, no port is open, every socket
  the program holds has the local port 255 or 32, and on each of them \<open>lsp_listen\<close> refuses with
  \<open>LSP_ERR_INVALID\<close> and \<open>lsp_accept\<close> returns NULL, whatever was called before.
\<close>

theorem no_connection_opens:
  assumes "api_start n st" and "rtranclp api_step st st'"
  shows "(\<forall>i. c_type (conns st' i) = CONN_CLIENT \<and> c_state (conns st' i) \<le> CONN_CLOSED)
    \<and> (\<forall>p. port_state st' p = PORT_CLOSED)
    \<and> (\<forall>i\<in>handles st'. lport (attr (conns st' i)) \<in> {255, 32}
        \<and> lsp_listen env (Some i) backlog st' = Done (LSP_ERR_INVALID, st')
        \<and> lsp_accept env lock_rc wait (Some i) timeout st' = Done (None, st'))"
proof -
  have inv: "api_inv n st'"
    by (rule socket_api.inv_reachable [OF assms])
  then have "(\<forall>i. c_type (conns st' i) = CONN_CLIENT \<and> c_state (conns st' i) \<le> CONN_CLOSED)
    \<and> (\<forall>p. port_state st' p = PORT_CLOSED) \<and> (\<forall>i\<in>handles st'. lport (attr (conns st' i)) \<in> {255, 32})"
    by (simp add: api_inv_def)
  with listen_held [OF inv] accept_held [OF inv] show ?thesis
    by blast
qed

definition api_example :: api where
  "api_example =
     port_sys.extend
       (conn_sys.extend (pool_example 32) \<lparr>ports = True, port_state = (\<lambda>_. PORT_CLOSED)\<rparr>)
       \<lparr>handles = {}\<rparr>"

lemma api_example_start: "api_start 32 api_example"
  using pool_example_live [of 32]
  by (simp add: api_start_def api_example_def conn_sys.defs port_sys.defs live_def pool_example_def
      new_pool_def)

definition socket_example :: api where
  "socket_example =
     (case lsp_socket env_example AF_LSP LSP_SOCK_STREAM LSPPROTO_LSP api_example of
        Done (r, st) \<Rightarrow> st\<lparr>handles := handles st \<union> set_option r\<rparr> | _ \<Rightarrow> api_example)"

lemma socket_example_step:
  "api_step api_example socket_example \<and> 0 \<in> handles socket_example \<and> ports socket_example
   \<and> lport (attr (conns socket_example 0)) = 255"
proof -
  obtain q where q: "new_queue env_example 4 8 = Done (Some q)"
    using env_example_queue by blast
  have conf: "uint (conn_queuelen (lsp_conf_of api_example)) = 4"
    by (simp add: api_example_def conn_sys.defs port_sys.defs pool_example_def new_pool_def
        sys_example_def default_conf_def lsp_consts)
  have z: "conns api_example i = conn_zero" for i
    using api_example_start by (simp add: api_start_def)
  have f: "find (\<lambda>i. 32 \<le> i \<or> c_state (conns api_example i) = CONN_FREE) [0..<32] = Some 0"
    by (simp add: find_upt_Some z conn_zero_def)
  have "live 32 api_example"
    using api_example_start by (simp add: api_start_def)
  from conn_alloc_exact [OF this, of env_example q "\<lparr>event_bits = 0\<rparr>"] obtain st where
    a: "lsp_conn_alloc env_example api_example = Done (Some 0, st)"
    unfolding f conf using q by auto
  have "ports st" "lport (attr (conns st 0)) = 255"
    using alloc_cases [OF start_inv [OF api_example_start] a]
    by (auto simp: soft_def api_example_def conn_sys.defs port_sys.defs reset_conn_def
        def_conn_attr_def lsp_consts)
  moreover from a have s: "lsp_socket env_example AF_LSP LSP_SOCK_STREAM LSPPROTO_LSP api_example = Done (Some 0, st)"
    by (simp add: lsp_socket_def)
  ultimately show ?thesis
    using api_step.socket [OF s] by (simp add: socket_example_def)
qed

theorem no_connection_opens_witness:
  "0 \<in> handles socket_example
   \<and> lsp_listen env_example (Some 0) 4 socket_example = Done (5, socket_example)
   \<and> lsp_accept env_example 0 (\<lambda>q. (0, q)) (Some 0) 7 socket_example = Done (None, socket_example)"
  using no_connection_opens [OF api_example_start, of socket_example env_example 4 0 "\<lambda>q. (0, q)" 7]
    socket_example_step
  by (auto simp: lsp_consts)

text \<open>
  Binding a socket of a reachable state to a normal port never works. With the port table
  initialised, a socket that was not bound to \<open>LSP_PORT_ANY\<close> before makes the call read past the
  end of the table; one that was gets the answer \<open>LSP_ERR_NONE\<close> and is not bound to the port.
\<close>

theorem bind_never_binds:
  assumes "api_start n st" and "rtranclp api_step st st'" and "i \<in> handles st'" and "ports st'"
    and "sa_port a \<le> 31"
  shows "lsp_bind (Some i) (Some a) st' =
    (if lport (attr (conns st' i)) = 255 then Fault OutOfBounds else Done (LSP_ERR_NONE, st'))"
proof -
  have inv: "api_inv n st'"
    by (rule socket_api.inv_reachable [OF assms(1,2)])
  have port: "sa_port a \<noteq> 255" "\<not> 31 < sa_port a"
    using assms(5) by auto
  have l: "lport (attr (conns st' i)) = 255 \<or> lport (attr (conns st' i)) = 32"
    and c: "\<forall>p. port_state st' p = PORT_CLOSED"
    using inv assms(3) by (auto simp: api_inv_def)
  show ?thesis
    using bind_live [OF held_socket(1,2) [OF inv assms(3)] assms(4), of a] port l c by auto
qed

theorem bind_never_binds_witness:
  "lsp_bind (Some 0) (Some \<lparr>sa_port = 5, sa_addr = 1\<rparr>) socket_example = Fault OutOfBounds"
  using bind_never_binds [OF api_example_start, of socket_example 0 "\<lparr>sa_port = 5, sa_addr = 1\<rparr>"]
    socket_example_step
  by (auto simp: word_le_nat_alt)

end
