(* ===== verification/LspPortLists.thy ===== *)
theory LspPortLists imports LspSocket begin

section \<open>The lists of all ports together\<close>

text \<open>
  The node that puts a socket on the list of a port is part of the socket, and all 33 lists share
  the memory of these nodes. This theory is about the whole of it: the lists of all ports are
  well formed, no socket is on two of them, and a connection that is open is on one. Every
  function that uses connections keeps this, as long as no socket listens that is on a list. The
  code does not see to that: it neither refuses such a socket nor takes a socket off the
  list when it is freed, and the theorems at the end show what follows.
\<close>

subsection \<open>The invariant\<close>

definition lists_ok :: "(nat \<Rightarrow> nat list) \<Rightarrow> 'z conn_sys_scheme \<Rightarrow> bool" where
  "lists_ok ls st \<longleftrightarrow>
     (\<exists>n. conn_pool st = HLive n \<and> (\<forall>i<n. lvalid (plinks st) (ConnNode i)))
     \<and> (\<forall>p<NUM_PORTS. ring (plinks st) (PortHead p) (map ConnNode (ls p)))
     \<and> (\<forall>p<NUM_PORTS. \<forall>q<NUM_PORTS. p \<noteq> q \<longrightarrow> set (ls p) \<inter> set (ls q) = {})
     \<and> (\<forall>i. CONN_CLOSED < c_state (conns st i) \<longrightarrow> (\<exists>p<NUM_PORTS. i \<in> set (ls p)))"

abbreviation lists_sound :: "'z conn_sys_scheme \<Rightarrow> bool" where
  "lists_sound st \<equiv> \<exists>ls. lists_ok ls st"

lemma lists_okD:
  assumes "lists_ok ls st"
  shows "p < NUM_PORTS \<Longrightarrow> ring (plinks st) (PortHead p) (map ConnNode (ls p))"
    and "p < NUM_PORTS \<Longrightarrow> q < NUM_PORTS \<Longrightarrow> x \<in> set (ls p) \<Longrightarrow> x \<in> set (ls q) \<Longrightarrow> p = q"
    and "CONN_CLOSED < c_state (conns st i) \<Longrightarrow> \<exists>p<NUM_PORTS. i \<in> set (ls p)"
    and "conn_deref st sock = Done i \<Longrightarrow> lvalid (plinks st) (ConnNode i)"
proof -
  show "p = q" if "p < NUM_PORTS" "q < NUM_PORTS" "x \<in> set (ls p)" "x \<in> set (ls q)"
    using assms that unfolding lists_ok_def by blast
qed (use assms in \<open>auto simp: lists_ok_def conn_deref_def split: option.splits handle.splits if_splits\<close>)

text \<open>The lists after a change to the one of port \<open>p\<close>.\<close>

lemma lists_ok_change:
  assumes "lists_ok ls st" "conn_pool st' = conn_pool st" "lvalid (plinks st') = lvalid (plinks st)"
    and "ring (plinks st') (PortHead p) (map ConnNode xs)"
    and "\<And>q. q < NUM_PORTS \<Longrightarrow> q \<noteq> p \<Longrightarrow> ring (plinks st') (PortHead q) (map ConnNode (ls q))"
    and "\<And>q. q < NUM_PORTS \<Longrightarrow> q \<noteq> p \<Longrightarrow> set xs \<inter> set (ls q) = {}"
    and "\<And>i. CONN_CLOSED < c_state (conns st' i) \<Longrightarrow> \<exists>q<NUM_PORTS. i \<in> set (if q = p then xs else ls q)"
  shows "lists_ok (ls(p := xs)) st'"
  unfolding lists_ok_def
proof (intro conjI)
  show "\<exists>n. conn_pool st' = HLive n \<and> (\<forall>i<n. lvalid (plinks st') (ConnNode i))"
    using assms(1-3) by (simp add: lists_ok_def)
  show "\<forall>q<NUM_PORTS. ring (plinks st') (PortHead q) (map ConnNode ((ls(p := xs)) q))"
    using assms(4,5) by simp
  show "\<forall>q<NUM_PORTS. \<forall>r<NUM_PORTS. q \<noteq> r \<longrightarrow> set ((ls(p := xs)) q) \<inter> set ((ls(p := xs)) r) = {}"
    using assms(1,6) by (auto simp: lists_ok_def)
  show "\<forall>i. CONN_CLOSED < c_state (conns st' i) \<longrightarrow> (\<exists>q<NUM_PORTS. i \<in> set ((ls(p := xs)) q))"
    using assms(7) by simp
qed

text \<open>A call that leaves the links alone and opens no connection.\<close>

definition calm :: "'z conn_sys_scheme \<Rightarrow> 'z conn_sys_scheme \<Rightarrow> bool" where
  "calm st st' \<longleftrightarrow> conn_pool st' = conn_pool st \<and> plinks st' = plinks st
     \<and> (\<forall>i. CONN_CLOSED < c_state (conns st' i) \<longrightarrow> CONN_CLOSED < c_state (conns st i))"

lemma calm_refl [simp]: "calm st st"
  by (simp add: calm_def)

lemma calm_trans: "calm st st' \<Longrightarrow> calm st' st'' \<Longrightarrow> calm st st''"
  by (auto simp: calm_def)

lemma calm_lists: "calm st st' \<Longrightarrow> lists_ok ls st \<Longrightarrow> lists_ok ls st'"
  by (auto simp: calm_def lists_ok_def)

lemma calm_upd: "(\<And>c. CONN_CLOSED < c_state (f c) \<Longrightarrow> CONN_CLOSED < c_state c) \<Longrightarrow> calm st (upd_conn i f st)"
  by (auto simp: calm_def)

lemma calm_upd_after:
  "calm st st1 \<Longrightarrow> (\<And>c. CONN_CLOSED < c_state (f c) \<Longrightarrow> CONN_CLOSED < c_state c) \<Longrightarrow> calm st (upd_conn i f st1)"
  by (rule calm_trans [OF _ calm_upd])

lemma not_open [simp]: "\<not> CONN_CLOSED < CONN_CLOSED" "\<not> CONN_CLOSED < CONN_FREE"
  by (simp_all add: less_conn_state_def)

lemma calm_mutex [simp]: "calm st (st\<lparr>conn_mutex := b\<rparr>)"
  by (simp add: calm_def)

lemma calm_refusals [simp]: "calm st (st\<lparr>refusals := ls\<rparr>)"
  by (simp add: calm_def)

subsection \<open>Calls that leave the links alone\<close>

lemma setup_calm:
  assumes "setup_conn env i st = Done (r, st')"
  shows "calm st st'"
proof -
  obtain ok st1 where 1: "need_rx_queue env i st = Done (ok, st1)"
    using assms by (auto simp: setup_conn_def xbind_Done_iff)
  obtain ok2 st2 where 2: "need_egroup env i st1 = (ok2, st2)"
    by (cases "need_egroup env i st1")
  have "calm st st1"
    using 1 by (auto simp: need_rx_queue_def exec_simps intro!: calm_upd split: if_splits option.splits)
  moreover have "calm st1 st2"
    using 2 by (auto simp: need_egroup_def intro!: calm_upd split: if_splits option.splits)
  moreover have "st' = st1 \<or> st' = st2 \<or> st' = upd_conn i reset_conn st2"
    using assms 1 2 by (auto simp: setup_conn_def split: if_splits)
  moreover have "calm st2 (upd_conn i reset_conn st2)"
    by (rule calm_upd) (simp add: reset_conn_def)
  ultimately show ?thesis
    by (blast intro: calm_trans)
qed

lemma alloc_calm:
  assumes "lsp_conn_alloc env st = Done (r, st')"
  shows "calm st st'"
proof -
  have "st' = st\<lparr>conn_mutex := False\<rparr> \<or> (\<exists>i. setup_conn env i (st\<lparr>conn_mutex := False\<rparr>) = Done (r, st'))"
    using assms by (auto simp: lsp_conn_alloc_def conn_lock_def conn_unlock_def exec_simps
        split: if_splits option.splits)
  then show ?thesis
    using setup_calm calm_trans [OF calm_mutex] calm_mutex by blast
qed

lemma push_calm: "lsp_conn_rxq_push lock_rc wait b sock st = Done (rc, st') \<Longrightarrow> calm st st'"
  by (auto simp: lsp_conn_rxq_push_def exec_simps intro!: calm_upd)

lemma flush_calm: "lsp_conn_rxq_flush env sock st = Done (rc, st') \<Longrightarrow> calm st st'"
  by (auto simp: lsp_conn_rxq_flush_def exec_simps intro!: calm_upd_after split: if_splits)

lemma accept_calm: "lsp_accept env lock_rc wait sock timeout st = Done (r, st') \<Longrightarrow> calm st st'"
  by (auto simp: lsp_accept_def exec_simps Let_def intro!: calm_upd_after calm_refl split: if_splits)

lemma connect_calm: "lsp_connect sock sockaddr st = Done (rc, st') \<Longrightarrow> calm st st'"
  by (auto simp: lsp_connect_def exec_simps intro!: calm_upd split: if_splits option.splits)

lemma bind_calm: "lsp_bind sock sockaddr st = Done (rc, st') \<Longrightarrow> calm st st'"
  by (auto simp: lsp_bind_def exec_simps Let_def intro!: calm_upd split: if_splits option.splits)

lemma close_rest_calm:
  "close_rx_queue env i rc st = Done (rc', st') \<Longrightarrow> calm st st'"
  "close_egroup env i rc st = Done (rc', st') \<Longrightarrow> calm st st'"
  by (auto simp: close_rx_queue_def close_egroup_def exec_simps Let_def
      split_beta intro!: calm_upd_after calm_refl split: if_splits)

subsection \<open>Closing and freeing\<close>

text \<open>An open connection is on exactly one list; taking it off leaves the others alone.\<close>

lemma other_rings:
  assumes "lists_ok ls st" "p < NUM_PORTS" "q < NUM_PORTS" "p \<noteq> q"
    and "same_outside S (plinks st) h" "S \<subseteq> insert (PortHead p) (ConnNode ` A)" "A \<inter> set (ls q) = {}"
  shows "ring h (PortHead q) (map ConnNode (ls q))"
proof (rule ring_same_outside [OF _ assms(5)])
  show "ring (plinks st) (PortHead q) (map ConnNode (ls q))"
    using assms(1,3) by (simp add: lists_ok_def)
  show "S \<inter> set (PortHead q # map ConnNode (ls q)) = {}"
    using assms(4,6,7) by auto
qed

lemma unlist:
  assumes "lists_ok ls st" "p < NUM_PORTS" "i \<in> set (ls p)"
  shows "\<exists>h. lsp_list_del (Some (ConnNode i)) (plinks st) = Done h
    \<and> lists_ok (ls(p := remove1 i (ls p))) (upd_conn i (\<lambda>c. c\<lparr>c_state := CONN_CLOSED\<rparr>) st\<lparr>plinks := h\<rparr>)"
proof -
  obtain xs ys where xy: "ls p = xs @ i # ys" "i \<notin> set xs"
    using split_list_first [OF assms(3)] by blast
  have r: "ring (plinks st) (PortHead p) (map ConnNode xs @ ConnNode i # map ConnNode ys)"
    using assms(1,2) xy by (auto simp: lists_ok_def)
  obtain h where h: "lsp_list_del (Some (ConnNode i)) (plinks st) = Done h"
    "ring h (PortHead p) (map ConnNode (remove1 i (ls p)))"
    "same_outside (set (PortHead p # map ConnNode xs @ map ConnNode ys)) (plinks st) h"
    using lsp_list_del_ring [OF r] xy by (auto simp: remove1_append)
  have d: "distinct (ls p)"
    using r xy by (auto simp: ring_def distinct_map)
  have "lists_ok (ls(p := remove1 i (ls p))) (upd_conn i (\<lambda>c. c\<lparr>c_state := CONN_CLOSED\<rparr>) st\<lparr>plinks := h\<rparr>)"
  proof (rule lists_ok_change [OF assms(1)])
    let ?st' = "upd_conn i (\<lambda>c. c\<lparr>c_state := CONN_CLOSED\<rparr>) st\<lparr>plinks := h\<rparr>"
    show "conn_pool ?st' = conn_pool st" "lvalid (plinks ?st') = lvalid (plinks st)"
      "ring (plinks ?st') (PortHead p) (map ConnNode (remove1 i (ls p)))"
      using h(2,3) by (simp_all add: same_outside_def)
    show "ring (plinks ?st') (PortHead q) (map ConnNode (ls q))" if "q < NUM_PORTS" "q \<noteq> p" for q
    proof -
      have "set (ls p) \<inter> set (ls q) = {}"
        using lists_okD(2) [OF assms(1,2) that(1)] that(2) by blast
      then show ?thesis
        using other_rings [OF assms(1,2) that(1) _ h(3), of "set (ls p)"] that(2) xy by auto
    qed
    show "set (remove1 i (ls p)) \<inter> set (ls q) = {}" if "q < NUM_PORTS" "q \<noteq> p" for q
      using lists_okD(2) [OF assms(1,2) that(1)] that(2) d by auto
    show "\<exists>q<NUM_PORTS. j \<in> set (if q = p then remove1 i (ls p) else ls q)"
      if "CONN_CLOSED < c_state (conns ?st' j)" for j
      using lists_okD(3) [OF assms(1), of j] that d by (auto split: if_splits)
  qed
  with h(1) show ?thesis
    by blast
qed

lemma close_lists:
  assumes "lsp_conn_close env sock st = Done (rc, st')" "lists_ok ls st"
  shows "lists_sound st'"
proof -
  obtain i where i: "conn_deref st sock = Done i"
    using assms(1) by (auto simp: lsp_conn_close_def xbind_Done_iff)
  show ?thesis
  proof (cases "c_state (conns st i) \<le> CONN_CLOSED")
    case True
    then show ?thesis
      using assms i by (auto simp: lsp_conn_close_def)
  next
    case False
    then obtain p where "p < NUM_PORTS" "i \<in> set (ls p)"
      using assms(2) by (auto simp: lists_ok_def not_le)
    from unlist [OF assms(2) this] obtain h where h:
      "lsp_list_del (Some (ConnNode i)) (plinks st) = Done h"
      "lists_sound (upd_conn i (\<lambda>c. c\<lparr>c_state := CONN_CLOSED\<rparr>) st\<lparr>plinks := h\<rparr>)"
      by blast
    moreover have "calm (upd_conn i (\<lambda>c. c\<lparr>c_state := CONN_CLOSED\<rparr>) st\<lparr>plinks := h\<rparr>) st'"
      using assms(1) i False h(1)
      by (auto simp: lsp_conn_close_def exec_simps Let_def
          dest!: flush_calm close_rest_calm intro: calm_trans split: if_splits)
    ultimately show ?thesis
      by (blast intro: calm_lists)
  qed
qed

lemma pop_child_calm: "pop_child env i c st = Done (again, sock, st') \<Longrightarrow> calm st st'"
  by (auto simp: pop_child_def exec_simps intro!: calm_upd_after)

lemma destroy_children_calm: "destroy_children i st = Done st' \<Longrightarrow> calm st st'"
  by (auto simp: destroy_children_def exec_simps intro!: calm_upd)

lemma free_enter_lists:
  "free_enter env conn st = Done (i, rc, st') \<Longrightarrow> lists_sound st \<Longrightarrow> lists_sound st'"
  by (auto simp: free_enter_def exec_simps dest: close_lists split: if_splits)

text \<open>What the parts of \<open>lsp_conn_free\<close> keep, the recursion keeps.\<close>

lemma conn_free_rec_keeps:
  fixes I :: "'z conn_sys_scheme \<Rightarrow> bool"
  assumes enter: "\<And>conn st i rc st'. free_enter env conn st = Done (i, rc, st') \<Longrightarrow> I st \<Longrightarrow> I st'"
    and pop: "\<And>i c st again sock st'. pop_child env i c st = Done (again, sock, st') \<Longrightarrow> I st \<Longrightarrow> I st'"
    and destroy: "\<And>i st st'. destroy_children i st = Done st' \<Longrightarrow> I st \<Longrightarrow> I st'"
    and free: "\<And>i st. I st \<Longrightarrow> I (upd_conn i (\<lambda>c. c\<lparr>c_state := CONN_FREE\<rparr>) st)"
    and rec: "conn_free_rec env at conn st = Some (Done (rc, st'))" and st: "I st"
  shows "I st'"
proof -
  let ?P = "\<lambda>r. \<forall>rc st'. r = Done (rc, st') \<longrightarrow> I st'"
  have "I st \<longrightarrow> env' = env \<longrightarrow> ?P r" if "conn_free_rec env' at conn st = Some r" for env' r
    using that
  proof (rule conn_free_rec.raw_induct [rotated], intro impI, goal_cases)
    case (1 rec env' at conn st r)
    have ih: "rec env at conn st = Some y \<Longrightarrow> I st \<Longrightarrow> ?P y" for at conn st y
      using 1(1) by blast
    show ?case
    proof (cases at)
      case None
      show ?thesis
      proof (cases "free_enter env conn st")
        case (Done x)
        obtain i rc st1 where x: "x = (i, rc, st1)"
          by (cases x)
        have "I st1"
          using enter Done x 1(4,5) by blast
        then show ?thesis
          using 1(2,5) None Done x ih [of "Some (i, rc)" "sock0 env i" st1 r] by (auto intro: free split: if_splits)
      qed (use 1(2,5) None in auto)
    next
      case (Some a)
      obtain i rc where a: "a = (i, rc)"
        by (cases a)
      show ?thesis
      proof (cases "pop_child env i conn st")
        case (Done x)
        obtain again sock st1 where x: "x = (again, sock, st1)"
          by (cases x)
        have st1: "I st1"
          using pop Done x 1(4,5) by blast
        show ?thesis
        proof (cases again)
          case False
          then show ?thesis
            using 1(2,5) Some a Done x st1 destroy [OF _ st1] free by (auto simp: exec_simps)
        next
          case True
          then obtain z where z: "rec env None sock st1 = Some z"
            using 1(2,5) Some a Done x by (auto simp: bind_eq_Some_conv)
          show ?thesis
          proof (cases z)
            case (Done w)
            obtain rc2 st2 where w: "w = (rc2, st2)"
              by (cases w)
            have "rec env (Some (i, rc)) sock st2 = Some r"
              using 1(2,5) Some a \<open>pop_child env i conn st = Done x\<close> x True z Done w by simp
            moreover have "I st2"
              using ih [OF z st1] Done w by blast
            ultimately show ?thesis
              by (rule ih)
          qed (use 1(2,5) Some a Done x True z in auto)
        qed
      qed (use 1(2,5) Some a in auto)
    qed
  qed
  with rec st show ?thesis
    by blast
qed

lemma free_lists:
  assumes "lsp_conn_free env conn st = Done (rc, st')" "lists_sound st"
  shows "lists_sound st'"
proof -
  have r: "conn_free_rec env None conn st = Some (Done (rc, st'))"
    using assms(1) by (cases "conn_free_rec env None conn st") (simp_all add: lsp_conn_free_def)
  have "lists_sound (upd_conn i (\<lambda>c. c\<lparr>c_state := CONN_FREE\<rparr>) st)" if "lists_sound st"
    for i and st :: "'a conn_sys_scheme"
    using that calm_lists [OF calm_upd [of "\<lambda>c. c\<lparr>c_state := CONN_FREE\<rparr>" st i]] by auto
  note free = this
  show ?thesis
  proof (rule conn_free_rec_keeps [where I = lists_sound, OF _ _ _ free r assms(2)])
    show "lists_sound st'" if "free_enter env conn st = Done (i, rc, st')" "lists_sound st"
      for conn i rc and st st' :: "'a conn_sys_scheme"
      using free_enter_lists that .
    show "lists_sound st'" if "pop_child env i c st = Done (again, sock, st')" "lists_sound st"
      for i c again sock and st st' :: "'a conn_sys_scheme"
      using calm_lists [OF pop_child_calm [OF that(1)]] that(2) by blast
    show "lists_sound st'" if "destroy_children i st = Done st'" "lists_sound st"
      for i and st st' :: "'a conn_sys_scheme"
      using calm_lists [OF destroy_children_calm [OF that(1)]] that(2) by blast
  qed
qed

subsection \<open>Listening\<close>

definition unlisted :: "nat option \<Rightarrow> 'z conn_sys_scheme \<Rightarrow> bool" where
  "unlisted sock st \<longleftrightarrow> (\<forall>i p xs. sock = Some i \<longrightarrow> p < NUM_PORTS \<longrightarrow>
     ring (plinks st) (PortHead p) (map ConnNode xs) \<longrightarrow> i \<notin> set xs)"

lemma set_listen_place:
  "set (listen_place lower i is) \<subseteq> insert i (set is)" "set is \<subseteq> set (listen_place lower i is)"
proof -
  have "x \<in> set (takeWhile P is) \<or> x \<in> set (dropWhile P is) \<longleftrightarrow> x \<in> set is" for x P
    by (metis Un_iff set_append takeWhile_dropWhile_id)
  then show "set (listen_place lower i is) \<subseteq> insert i (set is)" "set is \<subseteq> set (listen_place lower i is)"
    unfolding listen_place_def by (auto dest: set_takeWhileD)
qed

lemma insert_lists:
  assumes "lists_ok ls st" "p < NUM_PORTS" "\<And>q. q < NUM_PORTS \<Longrightarrow> i \<notin> set (ls q)"
    and "lvalid (plinks st) (ConnNode i)" "listen_insert i p st = Done h"
  shows "lists_sound (st\<lparr>plinks := h\<rparr>)"
proof -
  define xs where "xs = listen_place (\<lambda>sk. priority (attr (conns st sk)) < priority (attr (conns st i))) i (ls p)"
  have "\<exists>h. listen_insert i p st = Done h \<and> ring h (PortHead p) (map ConnNode xs)
      \<and> same_outside (set (PortHead p # ConnNode i # map ConnNode (ls p))) (plinks st) h"
    unfolding xs_def
    by (rule listen_insert_ring [OF lists_okD(1) [OF assms(1,2)] assms(3) [OF assms(2)] assms(4)])
  then have h: "ring h (PortHead p) (map ConnNode xs)"
    "same_outside (set (PortHead p # ConnNode i # map ConnNode (ls p))) (plinks st) h"
    using assms(5) by simp_all
  have xs: "set xs \<subseteq> insert i (set (ls p))" "set (ls p) \<subseteq> set xs"
    unfolding xs_def by (rule set_listen_place)+
  have "lists_ok (ls(p := xs)) (st\<lparr>plinks := h\<rparr>)"
  proof (rule lists_ok_change [OF assms(1)])
    show "conn_pool (st\<lparr>plinks := h\<rparr>) = conn_pool st" "ring (plinks (st\<lparr>plinks := h\<rparr>)) (PortHead p) (map ConnNode xs)"
      "lvalid (plinks (st\<lparr>plinks := h\<rparr>)) = lvalid (plinks st)"
      using h(1,2) by (simp_all add: same_outside_def)
    have disj: "insert i (set (ls p)) \<inter> set (ls q) = {}" if "q < NUM_PORTS" "q \<noteq> p" for q
      using assms(3) [OF that(1)] lists_okD(2) [OF assms(1,2) that(1)] that(2) by blast
    show "ring (plinks (st\<lparr>plinks := h\<rparr>)) (PortHead q) (map ConnNode (ls q))" if "q < NUM_PORTS" "q \<noteq> p" for q
      using other_rings [OF assms(1,2) that(1) _ h(2), of "insert i (set (ls p))"] that disj [OF that] by auto
    show "set xs \<inter> set (ls q) = {}" if "q < NUM_PORTS" "q \<noteq> p" for q
      using disj [OF that] xs(1) by blast
    show "\<exists>q<NUM_PORTS. j \<in> set (if q = p then xs else ls q)"
      if "CONN_CLOSED < c_state (conns (st\<lparr>plinks := h\<rparr>) j)" for j
      using lists_okD(3) [OF assms(1), of j] that xs(2) by auto
  qed
  then show ?thesis by blast
qed

lemma lists_frame [simp]:
  fixes st :: "'z port_sys_scheme"
  shows "lists_ok ls (st\<lparr>port_state := f\<rparr>) = lists_ok ls st"
  by (simp add: lists_ok_def)

lemma listen_lists:
  fixes st :: "'z port_sys_scheme"
  assumes "lsp_listen env sock backlog st = Done (rc, st')" "lists_ok ls st" "unlisted sock st"
  shows "lists_sound st'"
proof -
  obtain i where i: "conn_deref st (Some i) = Done i" "sock = Some i"
    using assms(1) by (auto simp: lsp_listen_def conn_deref_def exec_simps split: option.splits handle.splits if_splits)
  define st1 :: "conn_union \<Rightarrow> 'z port_sys_scheme"
    where "st1 = (\<lambda>u. upd_conn i (\<lambda>c. c\<lparr>c_union := u\<rparr>)
      (upd_conn i (\<lambda>c. c\<lparr>c_type := 3\<rparr>)
        (upd_conn i (\<lambda>c. c\<lparr>c_type := CONN_SERVER\<rparr>) st)))"
  have calm1: "calm st (st1 u)" for u
    unfolding st1_def by (intro calm_upd_after calm_refl) simp_all
  then have ok: "lists_ok ls (st1 u)" for u
    using assms(2) by (rule calm_lists)
  have un: "i \<notin> set (ls q)" if "q < NUM_PORTS" for q
    using assms(3) i(2) that lists_okD(1) [OF assms(2) that] by (auto simp: unlisted_def)
  have call: "lsp_listen env sock backlog st =
      (if uint (lport (attr (conns st i))) > LSP_PACKET_PORT_MAX then Done (LSP_ERR_INVALID, st)
       else xbind (new_queue env backlog 8) (\<lambda>r. case r of None \<Rightarrow> Done (LSP_ERR_NOMEM, st1 UNull)
         | Some q \<Rightarrow> xbind (port_entry (st1 (UQueue q)) (unat (lport (attr (conns st i))))) (\<lambda>p.
             xbind (listen_insert i p (st1 (UQueue q))) (\<lambda>h.
             Done (LSP_ERR_NONE, st1 (UQueue q)\<lparr>plinks := h,
               port_state := (port_state (st1 (UQueue q)))(p := PORT_OPEN)\<rparr>)))))"
    unfolding lsp_listen_def Let_def st1_def using i by simp
  have entry: "p < NUM_PORTS" if "port_entry (st1 u) k = Done p" for u k p
    using that by (auto simp: port_entry_def exec_simps)
  have "st' = st \<or> st' = st1 UNull \<or> (\<exists>p q h k. port_entry (st1 (UQueue q)) k = Done p
      \<and> listen_insert i p (st1 (UQueue q)) = Done h
      \<and> st' = st1 (UQueue q)\<lparr>plinks := h, port_state := (port_state (st1 (UQueue q)))(p := PORT_OPEN)\<rparr>)"
    using assms(1) unfolding call by (auto simp: exec_simps split: if_splits option.splits) blast
  then consider "st' = st" | "st' = st1 UNull" | p q h where "p < NUM_PORTS" "listen_insert i p (st1 (UQueue q)) = Done h"
      "st' = st1 (UQueue q)\<lparr>plinks := h, port_state := (port_state (st1 (UQueue q)))(p := PORT_OPEN)\<rparr>"
    using entry by blast
  then show ?thesis
  proof cases
    case (3 p q h)
    have v: "lvalid (plinks (st1 (UQueue q))) (ConnNode i)"
      using lists_okD(4) [OF assms(2) i(1)] calm1 by (simp add: calm_def)
    have "lists_sound (st1 (UQueue q)\<lparr>plinks := h\<rparr>)"
      by (rule insert_lists [OF ok 3(1) un v 3(2)])
    with 3(3) show ?thesis
      by simp
  qed (use assms(2) ok in auto)
qed

subsection \<open>All calls\<close>

text \<open>The calls of the library on connections, with any arguments; only a listening socket must not be
  on a list yet.\<close>

inductive list_step :: "port_sys \<Rightarrow> port_sys \<Rightarrow> bool" where
  alloc: "lsp_conn_alloc env st = Done (r, st') \<Longrightarrow> list_step st st'"
| free: "lsp_conn_free env sock st = Done (rc, st') \<Longrightarrow> list_step st st'"
| close: "lsp_conn_close env sock st = Done (rc, st') \<Longrightarrow> list_step st st'"
| rxq_push: "lsp_conn_rxq_push lock_rc wait b sock st = Done (rc, st') \<Longrightarrow> list_step st st'"
| rxq_flush: "lsp_conn_rxq_flush env sock st = Done (rc, st') \<Longrightarrow> list_step st st'"
| accept: "lsp_accept env lock_rc wait sock timeout st = Done (r, st') \<Longrightarrow> list_step st st'"
| connect: "lsp_connect sock sockaddr st = Done (rc, st') \<Longrightarrow> list_step st st'"
| bind: "lsp_bind sock sockaddr st = Done (rc, st') \<Longrightarrow> list_step st st'"
| listen: "unlisted sock st \<Longrightarrow> lsp_listen env sock backlog st = Done (rc, st') \<Longrightarrow> list_step st st'"

lemma list_step_sound:
  assumes "list_step st st'" "lists_sound st"
  shows "lists_sound st'"
  using assms
proof (induction rule: list_step.induct)
  case (alloc env st r st')
  then show ?case using calm_lists [OF alloc_calm] by blast
next
  case (free env sock st rc st')
  then show ?case by (rule free_lists)
next
  case (close env sock st rc st')
  then show ?case using close_lists by blast
next
  case (rxq_push lock_rc wait b sock st rc st')
  then show ?case using calm_lists [OF push_calm] by blast
next
  case (rxq_flush env sock st rc st')
  then show ?case using calm_lists [OF flush_calm] by blast
next
  case (accept env lock_rc wait sock timeout st r st')
  then show ?case using calm_lists [OF accept_calm] by blast
next
  case (connect sock sockaddr st rc st')
  then show ?case using calm_lists [OF connect_calm] by blast
next
  case (bind sock sockaddr st rc st')
  then show ?case using calm_lists [OF bind_calm] by blast
next
  case (listen sock st env backlog rc st')
  then show ?case using listen_lists by blast
qed

interpretation port_lists: step_invariant lists_sound list_step lists_sound
  by unfold_locales (auto intro: list_step_sound)

text \<open>The memory determines the list of a port, so a socket is on a list or it is not.\<close>

lemma linked_unique:
  "linked h (a # xs @ [z]) \<Longrightarrow> linked h (a # ys @ [z]) \<Longrightarrow> z \<notin> set xs \<Longrightarrow> z \<notin> set ys \<Longrightarrow> xs = ys"
proof (induction xs arbitrary: a ys)
  case Nil
  then show ?case by (cases ys) auto
next
  case (Cons x xs)
  then obtain ys' where "ys = x # ys'"
    by (cases ys) auto
  with Cons show ?case by auto
qed

lemma ring_unique: "ring h head xs \<Longrightarrow> ring h head ys \<Longrightarrow> xs = ys"
  using linked_unique [of h head xs head ys] by (simp add: ring_def)

lemma unlisted_iff:
  assumes "lists_ok ls st"
  shows "unlisted (Some i) st \<longleftrightarrow> (\<forall>p<NUM_PORTS. i \<notin> set (ls p))"
proof -
  have "xs = ls p" if "p < NUM_PORTS" "ring (plinks st) (PortHead p) (map ConnNode xs)" for p xs
    using ring_unique [OF that(2) lists_okD(1) [OF assms that(1)]] by (simp add: inj_map_eq_map inj_def)
  then show ?thesis
    using lists_okD(1) [OF assms] unfolding unlisted_def by blast
qed

subsection \<open>Listening on a listed socket\<close>

text \<open>The state in which \<open>lsp_listen\<close> looks for a place.\<close>

definition listening :: "lsp_queue \<Rightarrow> nat \<Rightarrow> 'z conn_sys_scheme \<Rightarrow> 'z conn_sys_scheme" where
  "listening q i st = upd_conn i (\<lambda>c. c\<lparr>c_type := 3, c_union := UQueue q\<rparr>) st"

lemma listen_by_links:
  assumes "live n st" "i < n" "ports st" "lport (attr (conns st i)) \<le> 31"
    and "new_queue env backlog 8 = Done (Some q)"
  shows "lsp_listen env (Some i) backlog st =
    xbind (listen_insert i (unat (lport (attr (conns st i)))) (listening q i st)) (\<lambda>h.
    Done (LSP_ERR_NONE, listening q i st\<lparr>plinks := h,
      port_state := (port_state st)(unat (lport (attr (conns st i))) := PORT_OPEN)\<rparr>))"
proof -
  have l: "\<not> 31 < uint (lport (attr (conns st i)))" "unat (lport (attr (conns st i))) < 33"
    using assms(4) word_le_nat_alt [of "lport (attr (conns st i))" 31] by (simp_all add: word_le_def not_less)
  have e: "upd_conn i (\<lambda>c. c\<lparr>c_union := UQueue q\<rparr>) (upd_conn i (\<lambda>c. c\<lparr>c_type := 3\<rparr>)
      (upd_conn i (\<lambda>c. c\<lparr>c_type := CONN_SERVER\<rparr>) st)) = listening q i st"
    by (simp add: listening_def upd_conn_def)
  have p: "port_entry (listening q i st) (unat (lport (attr (conns st i)))) = Done (unat (lport (attr (conns st i))))"
    "port_state (listening q i st) = port_state st"
    using assms(3) l(2) by (simp_all add: port_entry_def NUM_PORTS_eq listening_def upd_conn_def)
  show ?thesis
    using assms(1,2,5) l p e by (simp add: lsp_listen_def conn_deref_live LSP_PACKET_PORT_MAX_eq Let_def)
qed

text \<open>A search that comes to a node linked to itself does not end.\<close>

lemma list_search_self_loop:
  assumes "lvalid h p" "lnext h p = Some p" "\<not> P p" "p \<noteq> head"
  shows "list_search rd_next h head P p = None"
proof -
  have False if r: "list_search link h head P p = Some r" and l: "link = rd_next" for link r
  proof -
    have "(\<lambda>((((link, h), head), P), p) r. link = rd_next \<longrightarrow>
        \<not> (lvalid h p \<and> lnext h p = Some p \<and> \<not> P p \<and> p \<noteq> head)) ((((link, h), head), P), p) r"
      using r
    proof (rule list_search.raw_induct [rotated], unfold prod.case, intro impI notI)
      fix search :: "('a lheap \<Rightarrow> 'a option \<Rightarrow> 'a option exec) \<Rightarrow> 'a lheap \<Rightarrow> 'a \<Rightarrow> ('a \<Rightarrow> bool) \<Rightarrow> 'a \<Rightarrow> 'a option exec option"
        and link :: "'a lheap \<Rightarrow> 'a option \<Rightarrow> 'a option exec" and h head P p r
      assume ih: "\<And>link h head P p y. search link h head P p = Some y \<Longrightarrow> link = rd_next \<longrightarrow>
            \<not> (lvalid h p \<and> lnext h p = Some p \<and> \<not> P p \<and> p \<noteq> head)"
        and "link = rd_next" "lvalid h p \<and> lnext h p = Some p \<and> \<not> P p \<and> p \<noteq> head"
        and "(case deref h (Some p) of
          Done x \<Rightarrow> if P p then Some (Done (Some p))
            else case link h (Some p) of Done None \<Rightarrow> Some (Fault NullDeref)
                 | Done (Some q) \<Rightarrow> if q \<noteq> head then search link h head P q else Some (Done None)
                 | Fault e \<Rightarrow> Some (Fault e) | Hang \<Rightarrow> Some Hang
          | Fault e \<Rightarrow> Some (Fault e) | Hang \<Rightarrow> Some Hang) = Some r"
      then have "search rd_next h head P p = Some r"
        by (simp add: rd_next_def)
      with ih [OF this] \<open>lvalid h p \<and> _\<close> show False
        by blast
    qed
    with l assms show False
      by simp
  qed
  then show ?thesis
    by (cases "list_search rd_next h head P p") auto
qed

text \<open>The links of a port on which one socket has listened twice, and a second one once.\<close>

lemma add_again:
  assumes "ring h head [a]"
  shows "lsp_list_add (Some a) (Some head) h
    = Done (h\<lparr>lnext := (lnext h)(a := Some a, head := Some a), lprev := (lprev h)(a := Some head)\<rparr>)"
  using assms by (auto simp: ring_def lsp_list_add_def lsp_list_add_between_def link_defs fun_upd_twist)

definition twice_listed :: "pnode lheap \<Rightarrow> pnode \<Rightarrow> pnode \<Rightarrow> pnode \<Rightarrow> pnode lheap" where
  "twice_listed h head a b =
     h\<lparr>lnext := (lnext h)(a := Some a, b := Some a, head := Some b),
       lprev := (lprev h)(a := Some b, b := Some head)\<rparr>"

lemma listen_insert_again:
  assumes "ring (plinks st) (PortHead p) [ConnNode i]" "lvalid (plinks st) (ConnNode j)" "i \<noteq> j"
    and "\<And>st'. plinks (f st') = plinks st'"
  shows "\<exists>h. listen_insert i p st = Done h
    \<and> listen_insert j p (f (st\<lparr>plinks := h\<rparr>)) = Done (twice_listed (plinks st) (PortHead p) (ConnNode i) (ConnNode j))"
proof -
  let ?h = "(plinks st)\<lparr>lnext := (lnext (plinks st))(ConnNode i := Some (ConnNode i), PortHead p := Some (ConnNode i)),
      lprev := (lprev (plinks st))(ConnNode i := Some (PortHead p))\<rparr>"
  have v: "lvalid (plinks st) (PortHead p)" "lvalid (plinks st) (ConnNode i)"
    "lprev (plinks st) (PortHead p) = Some (ConnNode i)"
    using assms(1) by (auto simp: ring_def)
  have 1: "listen_insert i p st = Done ?h"
    using lsp_list_is_empty_ring [OF assms(1)] add_again [OF assms(1)] by (simp add: listen_insert_def)
  have "lsp_list_is_empty (Some (PortHead p)) ?h = Done True"
    using v by (simp add: lsp_list_is_empty_def link_defs)
  moreover have "lsp_list_add (Some (ConnNode j)) (Some (PortHead p)) ?h
      = Done (twice_listed (plinks st) (PortHead p) (ConnNode i) (ConnNode j))"
    using v assms(2,3)
    by (simp add: lsp_list_add_def lsp_list_add_between_def link_defs twice_listed_def)
  ultimately have "listen_insert j p (f (st\<lparr>plinks := ?h\<rparr>))
      = Done (twice_listed (plinks st) (PortHead p) (ConnNode i) (ConnNode j))"
    using assms(4) [of "st\<lparr>plinks := ?h\<rparr>"] by (simp add: listen_insert_def)
  with 1 show ?thesis by blast
qed

lemma listen_insert_hangs:
  assumes "plinks st = twice_listed h (PortHead p) (ConnNode i) (ConnNode j)" "i \<noteq> j"
    and "ring h (PortHead p) [ConnNode i]" "lvalid h (ConnNode j)"
    and "\<not> lower_than st k i" "\<not> lower_than st k j"
  shows "listen_insert k p st = Hang"
proof -
  let ?P = "on_conn (\<lambda>sk. priority (attr (conns st sk)) < priority (attr (conns st k)))"
  have v: "lvalid h (PortHead p)" "lvalid h (ConnNode i)" "lprev h (PortHead p) = Some (ConnNode i)"
    using assms(3) by (auto simp: ring_def)
  have P: "\<not> ?P (ConnNode i)" "\<not> ?P (ConnNode j)"
    using assms(5,6) by (simp_all add: lower_than_def)
  have "list_search rd_next (plinks st) (PortHead p) ?P (ConnNode i) = None"
    by (rule list_search_self_loop) (use P v assms(1,2) in \<open>simp_all add: twice_listed_def\<close>)
  then have "list_search rd_next (plinks st) (PortHead p) ?P (ConnNode j) = None"
    using P v assms(1,2,4) by (subst list_search.simps) (simp add: twice_listed_def rd_next_def)
  then have "lsp_list_for ?P (PortHead p) (plinks st) = Hang"
    using v assms(1,2) by (simp add: lsp_list_for_def list_for_from_def link_defs twice_listed_def)
  moreover have "lsp_list_is_empty (Some (PortHead p)) (plinks st) = Done False"
    using v assms(1,2) by (simp add: lsp_list_is_empty_def link_defs twice_listed_def)
  ultimately show ?thesis
    by (simp add: listen_insert_def)
qed

text \<open>
  C5. Every run keeps the lists of all 33 ports in order: from any state in which they are rings of
  sockets, no socket on two of them and every open connection on one, the calls of the library
  lead only to such states, whatever their arguments and results, freeing a server with children and
  closing included, provided that no call of \<open>lsp_listen\<close> is for a socket that is on a list.
\<close>

theorem port_lists_invariant:
  assumes "lists_ok ls st" and "rtranclp list_step st st'"
  shows "\<exists>ls'. (\<forall>p<33. ring (plinks st') (PortHead p) (map ConnNode (ls' p)))
    \<and> (\<forall>p<33. \<forall>q<33. p \<noteq> q \<longrightarrow> set (ls' p) \<inter> set (ls' q) = {})
    \<and> (\<forall>i. CONN_CLOSED < c_state (conns st' i) \<longrightarrow> (\<exists>p<33. i \<in> set (ls' p)))"
proof -
  obtain ls' where "lists_ok ls' st'"
    using port_lists.inv_reachable [OF _ assms(2)] assms(1) by blast
  then show ?thesis
    unfolding lists_ok_def NUM_PORTS_eq by blast
qed

lemma listen_example_lists: "lists_ok (\<lambda>_. []) listen_example"
  using pool_example_live [of 8]
  by (simp add: lists_ok_def listen_example_def ring_def pool_example_def new_pool_def conn_sys.defs
      less_conn_state_def conn_zero_def upd_conn_def)

lemma listen_example_facts:
  "live 8 listen_example" "ports listen_example" "lport (attr (conns listen_example 0)) = 3"
  "lvalid (plinks listen_example) a" "c_state (conns listen_example 0) = CONN_FREE"
  using pool_example_live [of 8]
  by (simp_all add: listen_example_def conn_sys.defs live_def conn_zero_def upd_conn_def pool_example_def
      new_pool_def)

theorem port_lists_invariant_witness:
  "\<exists>(st' :: port_sys) ls'. list_step listen_example st' \<and> c_type (conns st' 0) = 3
     \<and> (\<forall>p<33. ring (plinks st') (PortHead p) (map ConnNode (ls' p)))"
proof -
  obtain q where q: "new_queue env_example 4 8 = Done (Some q)"
    using env_example_queue by blast
  have "ring (plinks listen_example) (PortHead 3) (map ConnNode [])"
    using lists_okD(1) [OF listen_example_lists, of 3] by (simp add: NUM_PORTS_eq)
  with listen_insert_ring [of "listening q 0 listen_example" 3 "[]" 0] obtain h where
    "listen_insert 0 3 (listening q 0 listen_example) = Done h"
    by (auto simp: listening_def listen_example_facts)
  then have "lsp_listen env_example (Some 0) 4 listen_example = Done (LSP_ERR_NONE,
      listening q 0 listen_example\<lparr>plinks := h, port_state := (port_state listen_example)(3 := PORT_OPEN)\<rparr>)"
    using listen_by_links [of 8 listen_example 0, OF _ _ _ _ q] by (simp add: listen_example_facts)
  then have step: "list_step listen_example
      (listening q 0 listen_example\<lparr>plinks := h, port_state := (port_state listen_example)(3 := PORT_OPEN)\<rparr>)"
    by (rule list_step.listen [rotated]) (simp add: unlisted_iff [OF listen_example_lists])
  from port_lists_invariant [OF listen_example_lists r_into_rtranclp [of list_step, OF step]] obtain ls' where
    "\<forall>p<33. ring (plinks (listening q 0 listen_example\<lparr>plinks := h,
      port_state := (port_state listen_example)(3 := PORT_OPEN)\<rparr>)) (PortHead p) (map ConnNode (ls' p))"
    by blast
  with step show ?thesis
    by (intro exI conjI) (assumption | simp add: listening_def)+
qed

text \<open>
  C31. A socket that listens and is closed, while the unset \<open>rc\<close> of \<open>lsp_conn_free\<close> happens to be 0, is free and still on
  the list of its port, if \<open>lsp_listen\<close> has put it there: it does when fewer than two sockets were on the list or one
  of them has a lower priority, and leaves the socket off the list otherwise. For \<open>lsp_listen\<close>
  does not change the state, so \<open>lsp_closesocket\<close> finds the socket closed, skips
  \<open>lsp_conn_close\<close> and with it the removal from the list; and the type is not that of a server, so
  the queue of children is not destroyed (the next \<open>lsp_conn_alloc\<close> overwrites the pointer).
\<close>

theorem closed_socket_stays_listed:
  assumes "live n st" and "i < n" and "ports st" and "lport (attr (conns st i)) \<le> 31"
    and "ring (plinks st) (PortHead (unat (lport (attr (conns st i))))) (map ConnNode is)"
    and "i \<notin> set is" and "lvalid (plinks st) (ConnNode i)"
    and "new_queue env backlog 8 = Done (Some q)"
    and "c_state (conns st i) = CONN_CLOSED" and "rc0 env i = LSP_ERR_NONE"
  shows "\<exists>st1 st2. lsp_listen env (Some i) backlog st = Done (LSP_ERR_NONE, st1)
    \<and> lsp_closesocket env (Some i) how st1 = Done st2
    \<and> c_state (conns st2 i) = CONN_FREE \<and> c_union (conns st2 i) = UQueue q
    \<and> (\<exists>xs. ring (plinks st2) (PortHead (unat (lport (attr (conns st i))))) (map ConnNode xs)
        \<and> xs = listen_place (lower_than st i) i is
        \<and> (i \<in> set xs \<longleftrightarrow> length is < 2 \<or> (\<exists>k\<in>set is. priority (attr (conns st k)) < priority (attr (conns st i)))))
    \<and> port_state st2 (unat (lport (attr (conns st i)))) = PORT_OPEN"
proof -
  let ?p = "unat (lport (attr (conns st i)))"
  have lower: "(\<lambda>sk. priority (attr (conns (listening q i st) sk)) < priority (attr (conns (listening q i st) i)))
      = lower_than st i"
    by (simp add: lower_than_def listening_def fun_eq_iff)
  obtain h where h: "listen_insert i ?p (listening q i st) = Done h"
    "ring h (PortHead ?p) (map ConnNode (listen_place (lower_than st i) i is))"
    using listen_insert_ring [of "listening q i st" ?p "is" i] assms(5-7) unfolding lower
    by (auto simp: listening_def)
  define st1 where "st1 = listening q i st\<lparr>plinks := h, port_state := (port_state st)(?p := PORT_OPEN)\<rparr>"
  have listen: "lsp_listen env (Some i) backlog st = Done (LSP_ERR_NONE, st1)"
    using listen_by_links [OF assms(1-4,8)] h(1) by (simp add: st1_def)
  have "conn_pool st1 = HLive n" "c_type (conns st1 i) \<noteq> CONN_SERVER" "c_state (conns st1 i) = CONN_CLOSED"
    using assms(1,9) by (simp_all add: st1_def listening_def live_def lsp_consts)
  then have "lsp_closesocket env (Some i) how st1 = Done (upd_conn i (\<lambda>c. c\<lparr>c_state := CONN_FREE\<rparr>) st1)"
    using conn_free_value [of st1 n i env] assms(2,10) by (simp add: lsp_closesocket_def)
  moreover have "i \<in> set (listen_place (lower_than st i) i is) \<longleftrightarrow> length is < 2 \<or> (\<exists>k\<in>set is. lower_than st i k)"
    using assms(6) by (auto simp: listen_place_def)
  ultimately show ?thesis
    using listen h(2) by (auto simp: st1_def listening_def upd_conn_def lower_than_def)
qed

theorem closed_socket_stays_listed_witness:
  "\<exists>(st1 :: port_sys) st2. lsp_listen env_example (Some 0) 4 (upd_conn 0 (\<lambda>c. c\<lparr>c_state := CONN_CLOSED\<rparr>) listen_example)
      = Done (0, st1)
    \<and> lsp_closesocket env_example (Some 0) 0 st1 = Done st2
    \<and> c_state (conns st2 0) = CONN_FREE \<and> ring (plinks st2) (PortHead 3) [ConnNode 0]"
proof -
  let ?st = "upd_conn 0 (\<lambda>c. c\<lparr>c_state := CONN_CLOSED\<rparr>) listen_example"
  obtain q where q: "new_queue env_example 4 8 = Done (Some q)"
    using env_example_queue by blast
  have "ring (plinks ?st) (PortHead 3) (map ConnNode [])"
    using lists_okD(1) [OF listen_example_lists, of 3] by (simp add: NUM_PORTS_eq)
  moreover have "ports ?st"
    using listen_example_facts(2) by (simp add: upd_conn_def)
  ultimately show ?thesis
    using closed_socket_stays_listed [of 8 ?st 0 "[]", OF _ _ _ _ _ _ _ q, of 0] listen_example_facts
    by (auto simp: listen_place_def env_example_def lsp_consts)
qed

text \<open>
  C21. Nothing stops a socket that is on a list from listening, and a socket that was closed and handed
  out again is on one. When a socket listens that is the only one on the list of its port, the list is not a ring any
  more: the node is its own successor. One more socket goes in front of it without a look at the list, and the next one whose priority
  is not higher than both searches for its place for ever.
\<close>

theorem relisten_hangs:
  assumes "live n st" and "ports st" and "i < n" and "j < n" and "k < n" and "distinct [i, j, k]"
    and "lport (attr (conns st i)) = port" and "lport (attr (conns st j)) = port"
    and "lport (attr (conns st k)) = port" and "port \<le> 31"
    and "ring (plinks st) (PortHead (unat port)) [ConnNode i]" and "lvalid (plinks st) (ConnNode j)"
    and "priority (attr (conns st k)) \<le> priority (attr (conns st i))"
    and "priority (attr (conns st k)) \<le> priority (attr (conns st j))"
    and "new_queue env backlog 8 = Done (Some q)"
  shows "\<exists>st1 st2. lsp_listen env (Some i) backlog st = Done (LSP_ERR_NONE, st1)
    \<and> lsp_listen env (Some j) backlog st1 = Done (LSP_ERR_NONE, st2)
    \<and> lsp_listen env (Some k) backlog st2 = Hang"
proof -
  let ?p = "unat port"
  let ?f = "\<lambda>st. listening q j (st\<lparr>port_state := (port_state st)(?p := PORT_OPEN)\<rparr>)"
  obtain h where h: "listen_insert i ?p (listening q i st) = Done h"
    "listen_insert j ?p (?f (listening q i st\<lparr>plinks := h\<rparr>))
      = Done (twice_listed (plinks st) (PortHead ?p) (ConnNode i) (ConnNode j))"
    using listen_insert_again [of "listening q i st" ?p i j ?f] assms(6,11,12) by (auto simp: listening_def)
  define st1 where "st1 = listening q i st\<lparr>plinks := h, port_state := (port_state st)(?p := PORT_OPEN)\<rparr>"
  have 1: "lsp_listen env (Some i) backlog st = Done (LSP_ERR_NONE, st1)"
    using listen_by_links [OF assms(1,3,2) _ assms(15)] h(1) assms(7,10) by (simp add: st1_def)
  have st1: "live n st1" "ports st1" "conns st1 = (conns st)(i := (conns st i)\<lparr>c_type := 3, c_union := UQueue q\<rparr>)"
    using assms(1,2) by (simp_all add: st1_def listening_def live_def upd_conn_def)
  define st2 where "st2 = listening q j st1\<lparr>plinks := twice_listed (plinks st) (PortHead ?p) (ConnNode i) (ConnNode j),
    port_state := (port_state st1)(?p := PORT_OPEN)\<rparr>"
  have "listening q j st1 = ?f (listening q i st\<lparr>plinks := h\<rparr>)"
    by (simp add: st1_def listening_def upd_conn_def)
  then have 2: "lsp_listen env (Some j) backlog st1 = Done (LSP_ERR_NONE, st2)"
    using listen_by_links [OF st1(1) assms(4) st1(2) _ assms(15)] h(2) assms(6,8,10)
    by (simp add: st1(3) st2_def)
  have st2: "live n st2" "ports st2"
    "attr (conns st2 x) = attr (conns st x)" for x
    using st1 by (simp_all add: st2_def listening_def live_def upd_conn_def)
  have "listen_insert k ?p (listening q k st2) = Hang"
    by (rule listen_insert_hangs [where h = "plinks st" and i = i and j = j])
      (use assms(6,11-14) in \<open>simp_all add: st2_def st1_def listening_def lower_than_def not_less\<close>)
  then have "lsp_listen env (Some k) backlog st2 = Hang"
    using listen_by_links [OF st2(1) assms(5) st2(2) _ assms(15)] assms(9,10) by (simp add: st2(3))
  with 1 2 show ?thesis
    by blast
qed

definition relisten_example :: port_sys where
  "relisten_example =
     listen_example\<lparr>conns := (\<lambda>i. conn_zero\<lparr>attr := (attr conn_zero)\<lparr>lport := 3\<rparr>\<rparr>),
       plinks := \<lparr>lnext = (\<lambda>a. if a = PortHead 3 then Some (ConnNode 0) else if a = ConnNode 0 then Some (PortHead 3) else Some a),
                  lprev = (\<lambda>a. if a = PortHead 3 then Some (ConnNode 0) else if a = ConnNode 0 then Some (PortHead 3) else Some a),
                  lvalid = (\<lambda>_. True)\<rparr>\<rparr>"

theorem relisten_hangs_witness:
  "\<exists>(st1 :: port_sys) st2. lsp_listen env_example (Some 0) 4 relisten_example = Done (LSP_ERR_NONE, st1)
    \<and> lsp_listen env_example (Some 1) 4 st1 = Done (LSP_ERR_NONE, st2)
    \<and> lsp_listen env_example (Some 2) 4 st2 = Hang"
proof -
  obtain q where q: "new_queue env_example 4 8 = Done (Some q)"
    using env_example_queue by blast
  have "live 8 relisten_example" "ports relisten_example"
    using listen_example_facts by (simp_all add: relisten_example_def live_def)
  moreover have "ring (plinks relisten_example) (PortHead (unat (3 :: u8))) [ConnNode 0]"
    by (simp add: relisten_example_def ring_def)
  ultimately show ?thesis
    using relisten_hangs [of 8 relisten_example 0 1 2 3, OF _ _ _ _ _ _ _ _ _ _ _ _ _ _ q]
    by (simp add: relisten_example_def)
qed

end
