(* ===== verification/LspTags.thy ===== *)
theory LspTags imports LspSocket begin

section \<open>The type tag of a connection and its union\<close>

text \<open>
  \<open>struct lsp_conn_s\<close> keeps the queue of children and the pointer to the parent in one union; which
  of the two is there is told by the member \<open>type\<close>. This theory shows that the functions respect
  the tag: from any state in which every tag agrees with its union, whatever the types and states of the
  connections, no function uses one member as the other, and the tags agree afterwards.

  The proofs are a small calculus of partial correctness: \<open>keeps P m\<close> says that a result of \<open>m\<close>
  satisfies \<open>P\<close> and that \<open>m\<close> does not end in a type confusion.
\<close>

subsection \<open>The calculus\<close>

definition keeps :: "('a \<Rightarrow> bool) \<Rightarrow> 'a exec \<Rightarrow> bool" where
  "keeps P m = (case m of Done a \<Rightarrow> P a | Fault e \<Rightarrow> e \<noteq> TypeConfusion | Hang \<Rightarrow> True)"

named_theorems keeps_rules "no type confusion, operation by operation"

lemma keeps_simps [simp]:
  "keeps P (Done a) = P a" "keeps P (Fault e) = (e \<noteq> TypeConfusion)" "keeps P Hang"
  by (simp_all add: keeps_def)

lemma keeps_bind: "keeps P m \<Longrightarrow> (\<And>a. m = Done a \<Longrightarrow> P a \<Longrightarrow> keeps Q (f a)) \<Longrightarrow> keeps Q (xbind m f)"
  by (cases m) simp_all

lemma keeps_bind_any:
  "keeps (\<lambda>_. True) m \<Longrightarrow> (\<And>a. m = Done a \<Longrightarrow> keeps Q (f a)) \<Longrightarrow> keeps Q (xbind m f)"
  by (cases m) simp_all

lemma keeps_mono: "keeps P m \<Longrightarrow> (\<And>a. P a \<Longrightarrow> Q a) \<Longrightarrow> keeps Q m"
  by (cases m) simp_all

abbreviation unconfused :: "'a exec \<Rightarrow> bool" where
  "unconfused \<equiv> keeps (\<lambda>_. True)"

lemma keeps_guard: "e \<noteq> TypeConfusion \<Longrightarrow> unconfused (xguard b e)"
  by (cases b) simp_all

lemma keeps_of_loop: "(\<And>x. r = Some x \<Longrightarrow> keeps P x) \<Longrightarrow> keeps P (of_loop r)"
  by (cases r) simp_all

subsection \<open>What never confuses types\<close>

lemma hget_keeps [keeps_rules]: "unconfused (hget h)"
  by (cases h) simp_all

lemma conn_deref_keeps [keeps_rules]: "unconfused (conn_deref st p)"
  by (auto simp: conn_deref_def split: option.splits handle.splits)

lemma c_step_keeps [keeps_rules]: "unconfused (c_inc i)" "unconfused (c_dec i)"
  by (simp_all add: c_inc_def c_dec_def)

lemma next_index_keeps [keeps_rules]: "unconfused (next_index q i)"
  unfolding next_index_def by (intro keeps_bind_any keeps_rules keeps_guard) simp_all

lemma queue_access_keeps [keeps_rules]: "unconfused (queue_store item q)" "unconfused (queue_take q)"
  unfolding queue_store_def queue_take_def Let_def
  by (intro keeps_bind_any keeps_rules keeps_guard; simp)+

lemma queue_push_keeps [keeps_rules]: "unconfused (lsp_queue_push lock_rc w item timeout q)"
  unfolding lsp_queue_push_def push_enter_def push_resume_def Let_def
  by (auto intro!: keeps_bind_any keeps_rules split: option.splits prod.splits)

lemma queue_pop_keeps [keeps_rules]: "unconfused (lsp_queue_pop lock_rc w timeout q)"
  unfolding lsp_queue_pop_def pop_enter_def pop_resume_def Let_def
  by (auto intro!: keeps_bind_any keeps_rules split: option.splits prod.splits)

lemma deref_keeps [keeps_rules]: "unconfused (deref h p)"
  by (cases p) simp_all

lemma link_keeps [keeps_rules]:
  "unconfused (rd_next h p)" "unconfused (rd_prev h p)" "unconfused (wr_next p v h)" "unconfused (wr_prev p v h)"
  unfolding link_defs by (intro keeps_bind_any keeps_rules; simp)+

lemma list_keeps [keeps_rules]:
  "unconfused (lsp_list_head_init p h)" "unconfused (lsp_list_add_between n pv nx h)"
  "unconfused (lsp_list_del n h)" "unconfused (lsp_list_is_empty p h)"
  unfolding lsp_list_head_init_def lsp_list_add_between_def lsp_list_del_def lsp_list_is_empty_def
  by (intro keeps_bind_any keeps_rules; simp add: keeps_rules)+

lemma list_insert_keeps [keeps_rules]:
  "unconfused (lsp_list_add n p h)" "unconfused (lsp_list_insert_before n p h)"
  unfolding lsp_list_add_def lsp_list_insert_before_def
  by (intro keeps_bind_any keeps_rules)+

lemma list_search_keeps:
  assumes "list_search link h head P p = Some r" "\<And>p. unconfused (link h p)"
  shows "unconfused r"
proof -
  have "(\<lambda>((((link, h), head), P), p) r. (\<forall>p. unconfused (link h p)) \<longrightarrow> unconfused r)
      ((((link, h), head), P), p) r"
    using assms(1)
  proof (rule list_search.raw_induct [rotated], unfold prod.case, intro impI)
    fix search :: "('a lheap \<Rightarrow> 'a option \<Rightarrow> 'a option exec) \<Rightarrow> 'a lheap \<Rightarrow> 'a \<Rightarrow> ('a \<Rightarrow> bool) \<Rightarrow> 'a \<Rightarrow> 'a option exec option"
      and link :: "'a lheap \<Rightarrow> 'a option \<Rightarrow> 'a option exec" and h head P p r
    assume "\<And>link h head P p y. search link h head P p = Some y \<Longrightarrow> (\<forall>p. unconfused (link h p)) \<longrightarrow> unconfused y"
      and "\<forall>p. unconfused (link h p)" and "(case deref h (Some p) of
        Done x \<Rightarrow> if P p then Some (Done (Some p))
          else case link h (Some p) of Done None \<Rightarrow> Some (Fault NullDeref)
               | Done (Some q) \<Rightarrow> if q \<noteq> head then search link h head P q else Some (Done None)
               | Fault e \<Rightarrow> Some (Fault e) | Hang \<Rightarrow> Some Hang
        | Fault e \<Rightarrow> Some (Fault e) | Hang \<Rightarrow> Some Hang) = Some r"
    moreover from this(2) have "unconfused (link h (Some p))" "unconfused (deref h (Some p))"
      using deref_keeps by auto
    ultimately show "unconfused r"
      by (auto split: exec.splits if_splits option.splits)
  qed
  with assms(2) show ?thesis
    by simp
qed

lemma list_for_keeps [keeps_rules]: "unconfused (lsp_list_for P head h)"
  unfolding lsp_list_for_def list_for_from_def
  by (auto intro!: keeps_bind_any keeps_rules keeps_of_loop dest: list_search_keeps
      split: option.splits)

subsection \<open>Tags that agree with the union\<close>

text \<open>A server, and a socket that \<open>lsp_listen\<close> has given the number of the listening state for a type,
  may have a queue; only a child has a parent.\<close>

definition serves :: "int \<Rightarrow> bool" where
  "serves ty \<longleftrightarrow> ty = CONN_SERVER \<or> ty = int (state_code CONN_LISTEN)"

definition tagged :: "lsp_conn \<Rightarrow> bool" where
  "tagged c \<longleftrightarrow>
     (case c_union c of
        UNull \<Rightarrow> True
      | UQueue q \<Rightarrow> serves (c_type c)
      | UFreedQueue \<Rightarrow> serves (c_type c)
      | UParent p \<Rightarrow> c_type c = CONN_CHILD)"

definition typed :: "'z conn_sys_scheme \<Rightarrow> bool" where
  "typed st \<longleftrightarrow> (\<forall>i. tagged (conns st i))"

text \<open>What the environment is asked for does not itself end in a type confusion.\<close>

definition env_typed :: "conn_env \<Rightarrow> bool" where
  "env_typed env \<longleftrightarrow> (\<forall>b. unconfused (buffer_free env b)) \<and> (\<forall>n k. unconfused (new_queue env n k))"

lemma typed_upd: "typed st \<Longrightarrow> (tagged (conns st i) \<Longrightarrow> tagged (f (conns st i))) \<Longrightarrow> typed (upd_conn i f st)"
  by (simp add: typed_def)

lemma tagged_simps [simp]:
  "tagged (c\<lparr>c_state := x\<rparr>) = tagged c" "tagged (c\<lparr>rx_queue := rx\<rparr>) = tagged c"
  "tagged (c\<lparr>c_egroup := e\<rparr>) = tagged c" "tagged (c\<lparr>attr := a\<rparr>) = tagged c"
  "tagged (reset_conn c)" "tagged (c\<lparr>c_union := UNull\<rparr>)"
  "tagged (c\<lparr>c_type := CONN_CHILD, c_union := UParent i\<rparr>)"
  "tagged (c\<lparr>c_union := UQueue q\<rparr>) = serves (c_type c)"
  "tagged (c\<lparr>c_union := UFreedQueue\<rparr>) = serves (c_type c)"
  by (simp_all add: tagged_def reset_conn_def split: conn_union.split)

lemma typed_frame [simp]:
  "typed (st\<lparr>conn_mutex := m\<rparr>) = typed st" "typed (st\<lparr>plinks := h\<rparr>) = typed st"
  by (simp_all add: typed_def)

lemma typed_frame_ports [simp]:
  fixes st :: "'z port_sys_scheme"
  shows "typed (st\<lparr>port_state := f\<rparr>) = typed st" "typed (st\<lparr>ports := p\<rparr>) = typed st"
  by (simp_all add: typed_def)

text \<open>The queue of children is used only where the tag says that it is one.\<close>

lemma children_keeps:
  assumes "typed st" "c_type (conns st i) = CONN_SERVER"
  shows "unconfused (children_of (c_union (conns st i)))"
proof -
  have "tagged (conns st i)"
    using assms(1) by (simp add: typed_def)
  then show ?thesis
    using assms(2) by (cases "c_union (conns st i)") (simp_all add: tagged_def lsp_consts)
qed

lemma children_of_Done: "children_of u = Done q \<Longrightarrow> u = UQueue q"
  by (cases u) simp_all

subsection \<open>The operations of the pool\<close>

abbreviation keeps_typed :: "('a \<times> 'z conn_sys_scheme) exec \<Rightarrow> bool" where
  "keeps_typed \<equiv> keeps (\<lambda>(_, st). typed st)"

lemma need_rx_queue_typed:
  assumes "typed st" "env_typed env"
  shows "keeps_typed (need_rx_queue env i st)"
  unfolding need_rx_queue_def
  using assms by (auto intro!: keeps_bind_any typed_upd simp: env_typed_def split: option.splits)

lemma need_egroup_typed: "typed st \<Longrightarrow> need_egroup env i st = (ok, st') \<Longrightarrow> typed st'"
  by (auto simp: need_egroup_def intro!: typed_upd split: if_splits option.splits)

lemma setup_typed:
  assumes "typed st" "env_typed env"
  shows "keeps_typed (setup_conn env i st)"
  unfolding setup_conn_def
  by (rule keeps_bind [OF need_rx_queue_typed [OF assms]])
    (auto intro!: typed_upd dest: need_egroup_typed split: prod.splits)

lemma find_free_keeps: "unconfused (find_free st is)"
  by (induction "is") (auto intro!: keeps_bind_any keeps_rules keeps_guard simp: pool_read_def)

lemma alloc_typed:
  assumes "typed st" "env_typed env"
  shows "keeps_typed (lsp_conn_alloc env st)"
  using assms
  by (auto simp: lsp_conn_alloc_def conn_lock_def conn_unlock_def intro!: keeps_bind_any find_free_keeps
      setup_typed split: option.splits)

lemma flush_loop_keeps:
  assumes "flush_loop bfree b ls q = Some r" "\<And>b. unconfused (bfree b)"
  shows "unconfused r"
proof -
  have "(\<forall>b. unconfused (bfree b)) \<longrightarrow> unconfused r"
    using assms(1)
  proof (rule flush_loop.raw_induct [rotated], intro impI)
    fix loop :: "(size_t option \<Rightarrow> unit exec) \<Rightarrow> size_t option \<Rightarrow> bool list \<Rightarrow> lsp_queue \<Rightarrow>
        (bool list \<times> lsp_queue) exec option"
      and bfree b ls q r
    assume ih: "\<And>bfree b ls q y. loop bfree b ls q = Some y \<Longrightarrow> (\<forall>b. unconfused (bfree b)) \<longrightarrow> unconfused y"
      and b: "\<forall>b. unconfused (bfree b)" and r: "(case lsp_queue_pop (fst (next_lock ls)) (\<lambda>q. (0, q)) 0 q of
        Done (rc, item, q') \<Rightarrow> if rc \<noteq> LSP_ERR_NONE
          then case bfree b of Done x \<Rightarrow> loop bfree b (snd (next_lock ls)) q' | Fault e \<Rightarrow> Some (Fault e) | Hang \<Rightarrow> Some Hang
          else Some (Done (snd (next_lock ls), q'))
        | Fault e \<Rightarrow> Some (Fault e) | Hang \<Rightarrow> Some Hang) = Some r"
    have u: "bfree b \<noteq> Fault TypeConfusion" "lsp_queue_pop (fst (next_lock ls)) (\<lambda>q. (0, q)) 0 q \<noteq> Fault TypeConfusion"
      using b queue_pop_keeps by (metis keeps_simps(2))+
    show "unconfused r"
    proof (cases r)
      case (Fault e)
      with ih [of bfree] b r u show ?thesis
        by (fastforce split: exec.splits if_splits prod.splits)
    qed simp_all
  qed
  with assms(2) show ?thesis
    by simp
qed

text \<open>What closing and freeing do not change: the types. \<open>typed_as T\<close> remembers them.\<close>

definition typed_as :: "(nat \<Rightarrow> int) \<Rightarrow> 'z conn_sys_scheme \<Rightarrow> bool" where
  "typed_as T st \<longleftrightarrow> typed st \<and> (\<forall>i. c_type (conns st i) = T i)"

lemma typed_as_upd:
  "typed_as T st \<Longrightarrow> (\<And>c. tagged c \<Longrightarrow> c_type c = T i \<Longrightarrow> tagged (f c) \<and> c_type (f c) = T i) \<Longrightarrow>
     typed_as T (upd_conn i f st)"
  by (auto simp: typed_as_def typed_def)

lemma typed_as_links [simp]:
  "typed_as T (st\<lparr>plinks := h\<rparr>) = typed_as T st" "typed_as T (st\<lparr>refusals := ls\<rparr>) = typed_as T st"
  by (simp_all add: typed_as_def typed_def)

abbreviation keeps_types :: "(nat \<Rightarrow> int) \<Rightarrow> ('a \<times> 'z conn_sys_scheme) exec \<Rightarrow> bool" where
  "keeps_types T \<equiv> keeps (\<lambda>(_, st). typed_as T st)"

lemma flush_types:
  assumes "typed_as T st" "env_typed env"
  shows "keeps_types T (lsp_conn_rxq_flush env conn st)"
proof -
  have "\<And>b. unconfused (buffer_free env b)"
    using assms(2) by (simp add: env_typed_def)
  then have "unconfused (of_loop (flush_loop (buffer_free env) b ls q))" for b ls q
    by (blast intro: keeps_of_loop flush_loop_keeps)
  then show ?thesis
    unfolding lsp_conn_rxq_flush_def
    using assms(1) by (auto intro!: keeps_bind_any keeps_rules typed_as_upd)
qed

lemma close_egroup_types: "typed_as T st \<Longrightarrow> keeps_types T (close_egroup env i rc st)"
  unfolding close_egroup_def Let_def
  by (auto intro!: keeps_bind_any keeps_rules typed_as_upd)

lemma close_rx_queue_types: "typed_as T st \<Longrightarrow> keeps_types T (close_rx_queue env i rc st)"
  unfolding close_rx_queue_def Let_def
  by (auto intro!: keeps_bind_any keeps_rules typed_as_upd split: prod.split)

lemma close_rest_types:
  assumes "typed_as T st" "env_typed env"
  shows "keeps_types T (xbind (lsp_conn_rxq_flush env conn st) (\<lambda>(rc, st).
    if rc \<noteq> LSP_ERR_NONE then Done (rc, st)
    else xbind (close_rx_queue env i rc st) (\<lambda>(rc, st). close_egroup env i rc st)))"
proof (rule keeps_bind [OF flush_types [OF assms]], clarsimp)
  show "keeps_types T (xbind (close_rx_queue env i LSP_ERR_NONE st) (\<lambda>(rc, st). close_egroup env i rc st))"
    if "typed_as T st" for st :: "'a conn_sys_scheme"
    by (rule keeps_bind [OF close_rx_queue_types [OF that]]) (auto intro: close_egroup_types)
qed

lemma close_types:
  assumes "typed_as T st" "env_typed env"
  shows "keeps_types T (lsp_conn_close env conn st)"
proof -
  have "typed_as T (upd_conn i (\<lambda>c. c\<lparr>c_state := CONN_CLOSED\<rparr>) st)" for i
    using assms(1) by (auto intro: typed_as_upd)
  then show ?thesis
    unfolding lsp_conn_close_def Let_def
    using assms by (auto intro!: keeps_bind_any [of "conn_deref _ _"] keeps_bind_any [of "lsp_list_del _ _"]
        keeps_rules close_rest_types)
qed

lemma push_types:
  assumes "typed_as T st"
  shows "keeps_types T (lsp_conn_rxq_push lock_rc w b conn st)"
  unfolding lsp_conn_rxq_push_def
  using assms by (auto intro!: keeps_bind_any keeps_rules typed_as_upd)

text \<open>What comes before the loop of \<open>lsp_conn_free\<close>, a pop of that loop, and what comes after it. In the
  loop the connection is a server, and stays one while its children are freed.\<close>

lemma free_enter_types:
  assumes "typed_as T st" "env_typed env"
  shows "keeps (\<lambda>(_, _, st). typed_as T st) (free_enter env conn st)"
proof -
  have "keeps (\<lambda>(_, _, st). typed_as T st) (xbind (if c then lsp_conn_close env conn st else Done (rc, st))
      (\<lambda>(rc, st). Done (i, rc, st)))" for c rc i
    by (rule keeps_bind [where P = "\<lambda>(_, st). typed_as T st"]) (use close_types [OF assms] assms(1) in auto)
  then show ?thesis
    unfolding free_enter_def by (intro keeps_bind_any [of "conn_deref _ _"] keeps_rules)
qed

lemma serves_simps [simp]: "serves CONN_SERVER" "\<not> serves CONN_CHILD"
  by (simp_all add: serves_def lsp_consts)

lemma typed_as_children:
  "typed_as T st \<Longrightarrow> T i = CONN_SERVER \<Longrightarrow> unconfused (children_of (c_union (conns st i)))"
  using children_keeps [of st i] by (simp add: typed_as_def)

lemma pop_child_types:
  assumes "typed_as T st" "T i = CONN_SERVER"
  shows "keeps (\<lambda>(_, _, st). typed_as T st) (pop_child env i sock st)"
  unfolding pop_child_def
  using assms by (auto intro!: keeps_bind_any keeps_rules typed_as_children typed_as_upd)

lemma destroy_children_types:
  assumes "typed_as T st" "T i = CONN_SERVER"
  shows "keeps (typed_as T) (destroy_children i st)"
  unfolding destroy_children_def
  using assms by (auto intro!: keeps_bind_any keeps_rules typed_as_children typed_as_upd split: option.split)

text \<open>One unfolding of the recursion, \<open>rec\<close> being the calls inside it: the call on a connection, and the
  loop over its children.\<close>

lemma free_state_types: "typed_as T st \<Longrightarrow> typed_as T (upd_conn i (\<lambda>c. c\<lparr>c_state := CONN_FREE\<rparr>) st)"
  by (auto intro: typed_as_upd)

definition at_server :: "(nat \<Rightarrow> int) \<Rightarrow> (nat \<times> int) option \<Rightarrow> bool" where
  "at_server T at \<longleftrightarrow> (\<forall>i rc. at = Some (i, rc) \<longrightarrow> T i = CONN_SERVER)"

lemma at_server_simps [simp]: "at_server T None" "at_server T (Some (i, rc)) \<longleftrightarrow> T i = CONN_SERVER"
  by (simp_all add: at_server_def)

lemma free_call_types:
  fixes rec :: "(nat \<times> int) option \<Rightarrow> nat option \<Rightarrow> 'z conn_sys_scheme \<Rightarrow> (int \<times> 'z conn_sys_scheme) exec option"
  assumes ih: "\<And>at conn st y. rec at conn st = Some y \<Longrightarrow> typed_as T st \<Longrightarrow> at_server T at \<Longrightarrow> keeps_types T y"
    and "env_typed env" "typed_as T st"
    and r: "(case free_enter env conn st of
        Done (i, rc, st) \<Rightarrow>
          if rc \<noteq> LSP_ERR_NONE then Some (Done (rc, st))
          else if c_type (conns st i) = CONN_SERVER then rec (Some (i, rc)) (sock0 env i) st
          else Some (Done (rc, upd_conn i (\<lambda>c. c\<lparr>c_state := CONN_FREE\<rparr>) st))
      | Fault e \<Rightarrow> Some (Fault e) | Hang \<Rightarrow> Some Hang) = Some y"
  shows "keeps_types T y"
proof (cases "free_enter env conn st")
  case (Done x)
  then obtain i rc st1 where "x = (i, rc, st1)" "typed_as T st1"
    using free_enter_types [OF assms(3,2), of conn] by (cases x) auto
  then show ?thesis
    using Done r free_state_types [of T st1 i] ih [of "Some (i, rc)" "sock0 env i" st1 y]
    by (auto simp: typed_as_def [of T st1] split: if_splits)
qed (use r free_enter_types [OF assms(3,2), of conn] in auto)

lemma free_loop_types:
  fixes rec :: "(nat \<times> int) option \<Rightarrow> nat option \<Rightarrow> 'z conn_sys_scheme \<Rightarrow> (int \<times> 'z conn_sys_scheme) exec option"
  assumes ih: "\<And>at conn st y. rec at conn st = Some y \<Longrightarrow> typed_as T st \<Longrightarrow> at_server T at \<Longrightarrow> keeps_types T y"
    and "typed_as T st" "T i = CONN_SERVER"
    and r: "(case pop_child env i conn st of
        Done (again, sock, st) \<Rightarrow>
          if again
          then Option.bind (rec None sock st) (\<lambda>r.
            case r of Done (x, st) \<Rightarrow> rec (Some (i, rc)) sock st
            | Fault e \<Rightarrow> Some (Fault e) | Hang \<Rightarrow> Some Hang)
          else Some (xbind (destroy_children i st) (\<lambda>st.
            Done (rc, upd_conn i (\<lambda>c. c\<lparr>c_state := CONN_FREE\<rparr>) st)))
      | Fault e \<Rightarrow> Some (Fault e) | Hang \<Rightarrow> Some Hang) = Some y"
  shows "keeps_types T y"
proof (cases "pop_child env i conn st")
  case (Done x)
  then obtain again sock st1 where x: "pop_child env i conn st = Done (again, sock, st1)" "typed_as T st1"
    using pop_child_types [OF assms(2,3), of env conn] by (cases x) auto
  show ?thesis
  proof (cases again)
    case True
    then obtain z where z: "rec None sock st1 = Some z" "keeps_types T z"
      using x r ih [of None sock st1] by (cases "rec None sock st1") auto
    show ?thesis
    proof (cases z)
      case (Done w)
      then obtain rc2 st2 where "z = Done (rc2, st2)" "typed_as T st2"
        using z(2) by (cases w) auto
      then show ?thesis
        using x(1) r True z(1) ih [of "Some (i, rc)" sock st2 y] assms(3) by simp
    qed (use x(1) r True z in auto)
  next
    case False
    have "keeps_types T (xbind (destroy_children i st1) (\<lambda>st.
        Done (rc, upd_conn i (\<lambda>c. c\<lparr>c_state := CONN_FREE\<rparr>) st)))"
      by (rule keeps_bind [OF destroy_children_types [where T = T, OF x(2) assms(3)]])
        (use free_state_types in auto)
    then show ?thesis
      using x(1) r False by auto
  qed
qed (use r pop_child_types [OF assms(2,3), of env conn] in auto)

lemma conn_free_rec_types:
  assumes "conn_free_rec env at conn st = Some r" "env_typed env" "typed_as T st" "at_server T at"
  shows "keeps_types T r"
proof -
  have "env_typed env \<longrightarrow> typed_as T st \<longrightarrow> at_server T at \<longrightarrow> keeps_types T r"
    using assms(1)
  proof (rule conn_free_rec.raw_induct [rotated], intro impI, goal_cases)
    case (1 rec env at conn st r)
    then show ?case
      using free_call_types [where rec = "rec env" and y = r]
        free_loop_types [where rec = "rec env" and y = r]
      by (cases at) (simp, force)
  qed
  with assms(2-4) show ?thesis
    by blast
qed

lemma free_types:
  assumes "typed_as T st" "env_typed env"
  shows "keeps_types T (lsp_conn_free env conn st)"
  unfolding lsp_conn_free_def
  by (rule keeps_of_loop) (use conn_free_rec_types [of env None conn st] assms in simp)

lemma typed_as_types: "typed st \<Longrightarrow> typed_as (\<lambda>i. c_type (conns st i)) st"
  by (simp add: typed_as_def)

lemma keeps_types_typed: "keeps_types T m \<Longrightarrow> keeps_typed m"
  by (erule keeps_mono) (auto simp: typed_as_def)

subsection \<open>Ports and sockets\<close>

lemma accept_typed:
  assumes "typed st"
  shows "keeps_typed (lsp_accept env lock_rc w sock timeout st)"
proof -
  have t: "typed (upd_conn i (\<lambda>c. c\<lparr>c_union := UQueue q\<rparr>) st)" if "c_type (conns st i) = CONN_SERVER" for i q
    using assms that by (auto intro!: typed_upd)
  have u: "typed (upd_conn k (\<lambda>c. c\<lparr>c_type := CONN_CHILD, c_union := UParent i\<rparr>) st')" if "typed st'" for k i and st' :: "'a conn_sys_scheme"
    using that by (auto intro!: typed_upd)
  show ?thesis
    unfolding lsp_accept_def Let_def
    using assms t u children_keeps [OF assms]
    by (auto intro!: keeps_bind_any keeps_rules)
qed

lemma connect_typed: "typed st \<Longrightarrow> keeps_typed (lsp_connect sock sockaddr st)"
  unfolding lsp_connect_def
  by (auto intro!: keeps_bind_any keeps_rules typed_upd split: option.split)

lemma port_entry_keeps [keeps_rules]: "unconfused (port_entry st p)"
  unfolding port_entry_def by (intro keeps_bind_any keeps_guard) simp_all

lemma listen_insert_keeps [keeps_rules]: "unconfused (listen_insert i p st)"
  unfolding listen_insert_def
  by (auto intro!: keeps_bind_any keeps_rules split: option.split)

lemma listen_typed:
  assumes "typed st" "env_typed env"
  shows "keeps_typed (lsp_listen env sock backlog st)"
proof -
  have s: "serves (int (state_code CONN_LISTEN))"
    by (simp add: serves_def)
  have t: "typed (upd_conn i (\<lambda>c. c\<lparr>c_union := u\<rparr>) (upd_conn i (\<lambda>c. c\<lparr>c_type := int (state_code CONN_LISTEN)\<rparr>)
      (upd_conn i (\<lambda>c. c\<lparr>c_type := CONN_SERVER\<rparr>) st)))" if "u = UNull \<or> (\<exists>q. u = UQueue q)" for i u
    using assms(1) that s by (auto simp: typed_def)
  show ?thesis
    unfolding lsp_listen_def Let_def
    using assms t by (auto intro!: keeps_bind_any [of "conn_deref _ _"] keeps_bind_any [of "new_queue _ _ _"]
        keeps_bind_any [of "port_entry _ _"] keeps_bind_any [of "listen_insert _ _ _"] keeps_rules
        simp: env_typed_def split: option.split)
qed

lemma bind_typed: "typed st \<Longrightarrow> keeps_typed (lsp_bind sock sockaddr st)"
  unfolding lsp_bind_def Let_def
  by (auto intro!: keeps_bind_any keeps_rules typed_upd split: option.split)

lemma init_heads_keeps: "unconfused (init_heads ps h)"
  by (induction ps arbitrary: h) (auto intro!: keeps_bind_any keeps_rules)

lemma port_init_typed: "typed st \<Longrightarrow> keeps_typed (lsp_port_init malloc_ok st)"
  unfolding lsp_port_init_def Let_def LSP_ASSERT_def
  by (auto intro!: keeps_bind_any init_heads_keeps simp: new_ports_def lsp_abort_def)

subsection \<open>Properties\<close>

text \<open>
  C10. The tag of a connection is kept by every function of the library. From any state in which each
  tag agrees with its union - whatever the types and the states, the ones a program can never
  reach included - no function takes a parent pointer for a queue, and all tags agree when it
  returns: also after listening on a socket that was accepted, after accepting a socket that
  listens, and after the recursive freeing of a server whose children are any connections.
\<close>

theorem tags_respected:
  assumes "typed st" and "env_typed env"
  shows "keeps_typed (lsp_conn_alloc env st) \<and> keeps_typed (lsp_socket env domain stype protocol st)
    \<and> keeps typed (lsp_closesocket env sock how st) \<and> keeps_typed (lsp_conn_free env sock st)
    \<and> keeps_typed (lsp_conn_close env sock st)
    \<and> keeps_typed (lsp_accept env lock_rc wait sock timeout st)
    \<and> keeps_typed (lsp_connect sock sockaddr st) \<and> keeps_typed (lsp_bind sock sockaddr st)
    \<and> keeps_typed (lsp_listen env sock backlog st)
    \<and> keeps_typed (lsp_conn_rxq_push lock_rc wait b sock st) \<and> keeps_typed (lsp_conn_rxq_flush env sock st)
    \<and> keeps_typed (lsp_port_init malloc_ok st) \<and> typed (snd (lsp_port_free st))"
proof -
  note t = typed_as_types [OF assms(1)]
  have free: "keeps_typed (lsp_conn_free env sock st)"
    using keeps_types_typed [OF free_types [OF t assms(2)]] .
  moreover have "keeps typed (lsp_closesocket env sock how st)"
    unfolding lsp_closesocket_def by (rule keeps_bind [OF free]) auto
  moreover have "keeps_typed (lsp_socket env domain stype protocol st)"
    using alloc_typed [OF assms] assms(1) by (simp add: lsp_socket_def)
  ultimately show ?thesis
    using alloc_typed [OF assms] keeps_types_typed [OF close_types [OF t assms(2)]] accept_typed [OF assms(1)]
      connect_typed [OF assms(1)] bind_typed [OF assms(1)] listen_typed [OF assms]
      keeps_types_typed [OF push_types [OF t]] keeps_types_typed [OF flush_types [OF t assms(2)]]
      port_init_typed [OF assms(1)] assms(1)
    by (intro conjI) (simp_all add: lsp_port_free_def)
qed

lemma env_example_typed: "env_typed env_example"
proof -
  have "unconfused (lsp_queue_create h m a b c n k)" for h m a b c n k
    unfolding lsp_queue_create_def Let_def by (auto intro!: keeps_bind_any keeps_guard)
  then show ?thesis
    by (auto simp: env_typed_def env_example_def)
qed

text \<open>An accepted child listens, and is then freed as what it has become: a connection with a queue.\<close>

theorem tags_respected_witness:
  "keeps_typed (lsp_listen env_example (Some 0) 4
      (upd_conn 0 (\<lambda>c. c\<lparr>c_type := CONN_CHILD, c_union := UParent 1\<rparr>) listen_example))
   \<and> keeps typed (lsp_closesocket env_example (Some 0) 0
      (upd_conn 0 (\<lambda>c. c\<lparr>c_type := CONN_CHILD, c_union := UParent 1\<rparr>) listen_example))"
proof -
  have 1: "typed (upd_conn 0 (\<lambda>c. c\<lparr>c_type := CONN_CHILD, c_union := UParent 1\<rparr>) listen_example)"
    by (simp add: typed_def listen_example_def upd_conn_def conn_sys.defs tagged_def pool_example_def new_pool_def conn_zero_def)
  show ?thesis
    using tags_respected [OF 1 env_example_typed] by blast
qed

end
