(* ===== verification/LspCore.thy ===== *)
theory LspCore imports LspConn begin

section \<open>The core thread and its event queue (lsp_core.c)\<close>

text \<open>
  An event is a number (the type \<open>lsp_events_t\<close> is not declared anywhere in the library, so the
  numbers are parameters) and a pointer; its 16 bytes in the queue are the number, four bytes of
  padding and the pointer, lowest byte first. The static \<open>lsp_core_evqueue\<close> is a handle. The task
  is an endless loop, modelled by its iteration; the cases of its switch are empty, and
  \<open>lsp_core_handle_rxev\<close> has an empty body. The file is not part of the build.
\<close>

unbundle bit_operations_syntax

definition word_bytes :: "nat \<Rightarrow> 'a::len word \<Rightarrow> u8 list" where
  "word_bytes n w = map (\<lambda>k. ucast (drop_bit (8 * k) w)) [0..<n]"

definition bytes_word :: "u8 list \<Rightarrow> 'a::len word" where
  "bytes_word bs = foldr (\<lambda>b a. ucast b OR push_bit 8 a) bs 0"

record core_event =
  ev :: u32
  ev_data :: size_t

definition event_bytes :: "u8 list \<Rightarrow> core_event \<Rightarrow> u8 list" where
  "event_bytes pad e = word_bytes 4 (ev e) @ take 4 (pad @ [0, 0, 0, 0]) @ word_bytes 8 (ev_data e)"

definition bytes_event :: "u8 list \<Rightarrow> core_event" where
  "bytes_event bs = \<lparr>ev = bytes_word (take 4 bs), ev_data = bytes_word (drop 8 bs)\<rparr>"

definition SIZEOF_core_event :: size_t where "SIZEOF_core_event = 16"

subsection \<open>The operations\<close>

text \<open>
  \<open>create\<close> is \<open>lsp_queue_create\<close> and \<open>thread_rc\<close> what \<open>pthread_create\<close> returns; \<open>meanwhile\<close> is what a
  thread that was created has done to the queue before the function destroys it.
\<close>

definition lsp_core_start ::
  "int \<Rightarrow> (int \<Rightarrow> size_t \<Rightarrow> lsp_queue option exec) \<Rightarrow> int \<Rightarrow> (lsp_queue \<Rightarrow> lsp_queue) \<Rightarrow>
     (int \<times> lsp_queue handle) exec" where
  "lsp_core_start rc1 create thread_rc meanwhile =
     xbind (create LSP_DEFAULT_CORE_EVQUEUE_LEN SIZEOF_core_event) (\<lambda>r.
     case r of
       None \<Rightarrow> Done (rc1, HNull)
     | Some q \<Rightarrow>
         (let rc = lsp_thread_create thread_rc;
              q = (if rc = LSP_ERR_NONE then meanwhile q else q)
          in Done (rc, case snd (lsp_queue_destroy 0 q) of None \<Rightarrow> HFreed | Some q \<Rightarrow> HLive q)))"

definition lsp_core_sendevent ::
  "int \<Rightarrow> (lsp_queue \<Rightarrow> int \<times> lsp_queue) \<Rightarrow> u8 list \<Rightarrow> core_event \<Rightarrow> lsp_queue handle \<Rightarrow>
     (int \<times> lsp_queue handle) exec" where
  "lsp_core_sendevent lock_rc wait pad e evqueue =
     xbind (hget evqueue) (\<lambda>q.
     xbind (lsp_queue_push lock_rc wait (event_bytes pad e) 0 q) (\<lambda>(rc, q).
     Done (rc, HLive q)))"

text \<open>One round of \<open>lsp_core_task\<close>: the event it switches on. \<open>before\<close> is the variable before,
  and \<open>task_event\<close> what the tests of the return code of the pop make of it.\<close>

definition task_event :: "u32 \<Rightarrow> int \<Rightarrow> u8 list option \<Rightarrow> core_event \<Rightarrow> core_event" where
  "task_event LSP_EV_NO_EVENT rc item before =
     (let e = (case item of None \<Rightarrow> before | Some bs \<Rightarrow> bytes_event bs)
      in if rc = LSP_ERR_TIMEOUT \<or> rc = LSP_ERR_QUEUE_EMPTY then e\<lparr>ev := LSP_EV_NO_EVENT\<rparr>
         else if rc \<noteq> LSP_ERR_NONE then e\<lparr>ev := LSP_EV_NO_EVENT\<rparr>
         else e)"

definition lsp_core_task_round ::
  "u32 \<Rightarrow> int \<Rightarrow> (lsp_queue \<Rightarrow> int \<times> lsp_queue) \<Rightarrow> core_event \<Rightarrow> lsp_queue handle \<Rightarrow>
     (core_event \<times> lsp_queue handle) exec" where
  "lsp_core_task_round LSP_EV_NO_EVENT lock_rc wait before evqueue =
     xbind (hget evqueue) (\<lambda>q.
     xbind (lsp_queue_pop lock_rc wait 500 q) (\<lambda>(rc, item, q).
     Done (task_event LSP_EV_NO_EVENT rc item before, HLive q)))"

fun core_task_rounds ::
  "nat \<Rightarrow> u32 \<Rightarrow> (lsp_queue \<Rightarrow> int \<times> lsp_queue) \<Rightarrow> core_event \<Rightarrow> lsp_queue handle \<Rightarrow>
     (core_event list \<times> lsp_queue handle) exec" where
  "core_task_rounds 0 no_ev wait before evq = Done ([], evq)"
| "core_task_rounds (Suc n) no_ev wait before evq =
     xbind (lsp_core_task_round no_ev LSP_ERR_NONE wait before evq) (\<lambda>(e, evq).
     xbind (core_task_rounds n no_ev wait e evq) (\<lambda>(es, evq). Done (e # es, evq)))"

fun send_events ::
  "(lsp_queue \<Rightarrow> int \<times> lsp_queue) \<Rightarrow> u8 list \<Rightarrow> core_event list \<Rightarrow> lsp_queue handle \<Rightarrow>
     (int list \<times> lsp_queue handle) exec" where
  "send_events wait pad [] evq = Done ([], evq)"
| "send_events wait pad (e # es) evq =
     xbind (lsp_core_sendevent LSP_ERR_NONE wait pad e evq) (\<lambda>(rc, evq).
     xbind (send_events wait pad es evq) (\<lambda>(rcs, evq). Done (rc # rcs, evq)))"

subsection \<open>The bytes of an event\<close>

lemma word_bytes_Suc: "word_bytes (Suc n) w = ucast w # word_bytes n (drop_bit 8 w)"
  by (simp add: word_bytes_def upt_conv_Cons map_Suc_upt [symmetric] o_def drop_bit_drop_bit
      add.commute del: upt_Suc)

lemma bytes_word_bytes: "bytes_word (word_bytes n w) = take_bit (8 * n) (w :: 'a::len word)"
proof (induction n arbitrary: w)
  case (Suc n)
  have "(ucast (ucast w :: u8) OR push_bit 8 (take_bit (8 * n) (drop_bit 8 w)) :: 'a word)
      = take_bit (8 * Suc n) w"
    by (rule bit_word_eqI)
       (auto simp: bit_or_iff bit_push_bit_iff bit_drop_bit_eq bit_ucast_iff bit_take_bit_iff
         dest: bit_imp_le_length)
  then show ?case
    using Suc.IH [of "drop_bit 8 w"] by (simp add: word_bytes_Suc bytes_word_def)
qed (simp add: word_bytes_def bytes_word_def)

lemma length_word_bytes [simp]: "length (word_bytes n w) = n"
  by (simp add: word_bytes_def)

lemma take_bit_all: "LENGTH('a) \<le> n \<Longrightarrow> take_bit n (w :: 'a::len word) = w"
  by (rule bit_word_eqI) (auto simp: bit_take_bit_iff dest: bit_imp_le_length)

lemma event_bytes_inverse: "bytes_event (event_bytes pad e) = e"
  by (simp add: bytes_event_def event_bytes_def bytes_word_bytes take_bit_all)

lemma length_event_bytes: "length (event_bytes pad e) = 16"
  by (simp add: event_bytes_def)

subsection \<open>Sending and receiving on a live queue\<close>

definition event_queue :: "lsp_queue \<Rightarrow> bool" where
  "event_queue q \<longleftrightarrow> q_inv q \<and> itemsize q = SIZEOF_core_event"

lemma sendevent_live:
  assumes "event_queue q"
  shows "if length (q_items q) < unat (queue_size q)
    then \<exists>q'. lsp_core_sendevent LSP_ERR_NONE w pad e (HLive q) = Done (LSP_ERR_NONE, HLive q')
      \<and> event_queue q' \<and> q_items q' = q_items q @ [event_bytes pad e]
      \<and> queue_size q' = queue_size q
    else lsp_core_sendevent LSP_ERR_NONE w pad e (HLive q) = Done (LSP_ERR_QUEUE_FULL, HLive q)"
proof -
  have f: "length (event_bytes pad e) = unat (itemsize q)"
    using assms by (simp add: event_queue_def SIZEOF_core_event_def length_event_bytes)
  have q: "q_inv q"
    using assms by (simp add: event_queue_def)
  show ?thesis
  proof (cases "length (q_items q) < unat (queue_size q)")
    case True
    have "itemsize (stored (event_bytes pad e) q) = itemsize q"
      "queue_size (stored (event_bytes pad e) q) = queue_size q"
      by (simp_all add: stored_def Let_def)
    with True show ?thesis
      using ring_buffer.push_room [OF q f True, of w] push_nowait [OF q f, of w] assms
      by (auto simp: lsp_core_sendevent_def event_queue_def split: if_splits)
  qed (use ring_buffer.push_full [OF q f, of w] in \<open>simp add: lsp_core_sendevent_def\<close>)
qed

lemma pop_nonempty:
  assumes "q_inv q" "q_items q = x # xs"
  shows "lsp_queue_pop LSP_ERR_NONE w t q = lsp_queue_pop LSP_ERR_NONE w' 0 q"
proof -
  have "0 < q_length q"
    using assms by (auto simp: q_items_def intro: ccontr)
  then show ?thesis
    using queue_take_wf [of q] assms(1) by (auto simp: lsp_queue_pop_def pop_enter_def q_inv_def)
qed

lemma round_live:
  assumes "event_queue q" "q_items q = event_bytes pad e # xs"
  shows "\<exists>q'. lsp_core_task_round no_ev LSP_ERR_NONE w before (HLive q) = Done (e, HLive q')
    \<and> event_queue q' \<and> q_items q' = xs \<and> queue_size q' = queue_size q"
proof -
  have q: "q_inv q"
    using assms by (simp add: event_queue_def)
  obtain q' where q': "lsp_queue_pop LSP_ERR_NONE w 0 q = Done (LSP_ERR_NONE, Some (event_bytes pad e), q')"
    "q_inv q'" "q_items q' = xs"
    using ring_buffer.pop_some [OF q assms(2), of w] by blast
  have "itemsize q' = itemsize q" "queue_size q' = queue_size q"
    using q'(1) pop_nowait [OF q, of w] by (auto simp: taken_def split: if_splits)
  then show ?thesis
    using q' assms(1) pop_nonempty [OF q assms(2), of w 500 w]
    by (simp add: lsp_core_task_round_def task_event_def event_bytes_inverse event_queue_def lsp_consts)
qed

lemma send_events_room:
  "event_queue q \<Longrightarrow> length (q_items q) + length es \<le> unat (queue_size q) \<Longrightarrow>
   \<exists>q'. send_events w pad es (HLive q) = Done (map (\<lambda>_. LSP_ERR_NONE) es, HLive q')
     \<and> event_queue q' \<and> q_items q' = q_items q @ map (event_bytes pad) es"
proof (induction es arbitrary: q)
  case (Cons e es)
  then obtain q1 where "lsp_core_sendevent LSP_ERR_NONE w pad e (HLive q) = Done (LSP_ERR_NONE, HLive q1)"
    "event_queue q1" "q_items q1 = q_items q @ [event_bytes pad e]" "queue_size q1 = queue_size q"
    using sendevent_live [OF Cons.prems(1), of w pad e] by auto
  with Cons.IH [of q1] Cons.prems(2) show ?case
    by auto
qed simp

lemma rounds_drain:
  "event_queue q \<Longrightarrow> q_items q = map (event_bytes pad) es \<Longrightarrow>
   \<exists>q'. core_task_rounds (length es) no_ev w before (HLive q) = Done (es, HLive q')
     \<and> event_queue q' \<and> q_items q' = []"
proof (induction es arbitrary: q before)
  case (Cons e es)
  then obtain q1 where "lsp_core_task_round no_ev LSP_ERR_NONE w before (HLive q) = Done (e, HLive q1)"
    "event_queue q1" "q_items q1 = map (event_bytes pad) es"
    using round_live [OF Cons.prems(1), of pad e "map (event_bytes pad) es" no_ev w before] by auto
  with Cons.IH [of q1 e] show ?case
    by auto
qed simp

subsection \<open>Properties\<close>

text \<open>
  Starting the core destroys its own event queue, also when everything succeeded. The queue
  survives only if the new thread is already waiting on it at that moment; otherwise the next
  event sent and the next round of the task use freed memory. If the queue cannot be made, the
  result is an unset variable and sending an event dereferences NULL.
\<close>

theorem core_start_outcome:
  assumes "create LSP_DEFAULT_CORE_EVQUEUE_LEN SIZEOF_core_event = Done (Some q)"
    and "waiting_full q = 0" and "waiting_empty q = 0"
  shows "\<exists>rc evq. lsp_core_start rc1 create thread_rc meanwhile = Done (rc, evq)
    \<and> rc = (if thread_rc = 0 then LSP_ERR_NONE else LSP_ERR)
    \<and> (evq = HFreed \<longleftrightarrow> thread_rc \<noteq> 0
        \<or> waiting_empty (meanwhile q) = 0 \<and> waiting_full (meanwhile q) = 0)
    \<and> (evq = HFreed \<longrightarrow> lsp_core_sendevent lock_rc w pad e evq = Fault BadPtr
        \<and> lsp_core_task_round no_ev lock_rc w before evq = Fault BadPtr)
    \<and> lsp_core_start rc1 (\<lambda>_ _. Done None) thread_rc meanwhile = Done (rc1, HNull)
    \<and> lsp_core_sendevent lock_rc w pad e HNull = Fault NullDeref"
  using assms
  by (cases "thread_rc = 0")
     (auto simp: lsp_core_start_def lsp_thread_create_def lsp_queue_destroy_def lsp_consts Let_def
       lsp_core_sendevent_def lsp_core_task_round_def)

definition core_create :: "int \<Rightarrow> size_t \<Rightarrow> lsp_queue option exec" where
  "core_create = lsp_queue_create 176 (\<lambda>_. True) 0 0 0"

lemma core_create_queue:
  "\<exists>q. core_create LSP_DEFAULT_CORE_EVQUEUE_LEN SIZEOF_core_event = Done (Some q)
     \<and> q_inv q \<and> q_items q = [] \<and> unat (queue_size q) = 32 \<and> itemsize q = 16
     \<and> waiting_full q = 0 \<and> waiting_empty q = 0"
proof -
  have "\<exists>q. lsp_queue_create 176 (\<lambda>_. True) 0 0 0 32 16 = Done (Some q) \<and> q_inv q
      \<and> q_items q = [] \<and> unat (queue_size q) = nat 32 \<and> itemsize q = 16
      \<and> waiting_full q = 0 \<and> waiting_empty q = 0"
    by (rule queue_create_inv) simp_all
  then show ?thesis
    by (auto simp: core_create_def lsp_consts SIZEOF_core_event_def)
qed

theorem core_start_outcome_witness:
  "\<exists>evq. lsp_core_start 0 core_create 0 (\<lambda>q. q) = Done (LSP_ERR_NONE, evq)
     \<and> lsp_core_sendevent 0 (\<lambda>q. (0, q)) [] \<lparr>ev = 1, ev_data = 0\<rparr> evq = Fault BadPtr"
proof -
  obtain q where q: "core_create LSP_DEFAULT_CORE_EVQUEUE_LEN SIZEOF_core_event = Done (Some q)"
    "waiting_full q = 0" "waiting_empty q = 0"
    using core_create_queue by blast
  from core_start_outcome [where create = core_create and q = q, OF q, of 0 0 "\<lambda>q. q" 0 "\<lambda>q. (0, q)" "[]" "\<lparr>ev = 1, ev_data = 0\<rparr>"] q
  show ?thesis
    by auto
qed

text \<open>
  On a live event queue, events arrive as they were sent: when there is room for all of them,
  every \<open>lsp_core_sendevent\<close> succeeds, and as many rounds of the task see exactly these events,
  numbers and pointers, in order; when the queue is full, an event is refused with
  \<open>LSP_ERR_QUEUE_FULL\<close> and the queue is unchanged.
\<close>

theorem events_in_order:
  assumes "event_queue q" and "q_items q = []"
  shows "(length es \<le> unat (queue_size q) \<longrightarrow>
      (\<exists>q1 q2. send_events w pad es (HLive q) = Done (map (\<lambda>_. LSP_ERR_NONE) es, HLive q1)
        \<and> core_task_rounds (length es) no_ev w' before (HLive q1) = Done (es, HLive q2)
        \<and> q_items q2 = []))
    \<and> (\<forall>qf. event_queue qf \<and> length (q_items qf) = unat (queue_size qf) \<longrightarrow>
        lsp_core_sendevent LSP_ERR_NONE w pad e (HLive qf) = Done (LSP_ERR_QUEUE_FULL, HLive qf))"
proof (intro conjI impI allI)
  assume "length es \<le> unat (queue_size q)"
  then obtain q1 where q1: "send_events w pad es (HLive q) = Done (map (\<lambda>_. LSP_ERR_NONE) es, HLive q1)"
    "event_queue q1" "q_items q1 = map (event_bytes pad) es"
    using send_events_room [OF assms(1), of es w pad] assms(2) by auto
  with rounds_drain [OF q1(2,3), of no_ev w' before]
  show "\<exists>q1 q2. send_events w pad es (HLive q) = Done (map (\<lambda>_. LSP_ERR_NONE) es, HLive q1)
      \<and> core_task_rounds (length es) no_ev w' before (HLive q1) = Done (es, HLive q2) \<and> q_items q2 = []"
    by auto
next
  fix qf
  assume "event_queue qf \<and> length (q_items qf) = unat (queue_size qf)"
  then show "lsp_core_sendevent LSP_ERR_NONE w pad e (HLive qf) = Done (LSP_ERR_QUEUE_FULL, HLive qf)"
    using sendevent_live [of qf w pad e] by simp
qed

theorem events_in_order_witness:
  "\<exists>q q1 q2. core_create 32 16 = Done (Some q)
     \<and> send_events (\<lambda>q. (0, q)) [] [\<lparr>ev = 1, ev_data = 4096\<rparr>, \<lparr>ev = 2, ev_data = 0\<rparr>] (HLive q)
         = Done ([0, 0], HLive q1)
     \<and> core_task_rounds 2 0 (\<lambda>q. (0, q)) \<lparr>ev = 0, ev_data = 0\<rparr> (HLive q1)
         = Done ([\<lparr>ev = 1, ev_data = 4096\<rparr>, \<lparr>ev = 2, ev_data = 0\<rparr>], HLive q2)"
proof -
  obtain q where q: "core_create 32 16 = Done (Some q)" "q_inv q" "q_items q = []"
    "unat (queue_size q) = 32" "itemsize q = 16"
    using core_create_queue by (auto simp: lsp_consts SIZEOF_core_event_def)
  then have e: "event_queue q"
    by (simp add: event_queue_def SIZEOF_core_event_def)
  define es where "es = [\<lparr>ev = 1, ev_data = 4096\<rparr>, \<lparr>ev = 2, ev_data = 0\<rparr>]"
  have l: "length es = 2" "map (\<lambda>_. LSP_ERR_NONE) es = [0, 0]"
    by (simp_all add: es_def lsp_consts)
  obtain q1 q2 where "send_events (\<lambda>q. (0, q)) [] es (HLive q) = Done ([0, 0], HLive q1)"
    "core_task_rounds 2 0 (\<lambda>q. (0, q)) \<lparr>ev = 0, ev_data = 0\<rparr> (HLive q1) = Done (es, HLive q2)"
    using events_in_order [OF e q(3), of es "\<lambda>q. (0, q)" "[]" 0 "\<lambda>q. (0, q)" "\<lparr>ev = 0, ev_data = 0\<rparr>"
        "\<lparr>ev = 0, ev_data = 0\<rparr>"] q(4) unfolding l by auto
  with q(1) show ?thesis
    unfolding es_def by blast
qed

text \<open>
  C33. For half of every second an idle core thread does not sleep. The deadline of its wait is half a second from
  now and is not carried into the seconds, so in the second half of a second it is not a valid
  \<open>timespec\<close>: \<open>pthread_cond_timedwait\<close> answers \<open>EINVAL\<close> at once (what POSIX asks of it), and the round is over,
  without an event and with the queue as it was. In the first half the deadline is valid and right.
\<close>

theorem idle_core_spins:
  assumes "event_queue q" and "q_items q = []" and "waiting_empty q = 0" and "valid_timespec now"
    and "\<forall>ts. \<not> valid_timespec ts \<longrightarrow> timedwait ts = EINVAL"
  shows "(if 500000000 \<le> tv_nsec now
      then lsp_core_task_round no_ev LSP_ERR_NONE
             (\<lambda>q. (queue_wait_internal (Some now) wait_rc timedwait 500, q)) before (HLive q)
           = Done (before\<lparr>ev := no_ev\<rparr>, HLive q)
      else valid_timespec (cond_deadline now 500)
        \<and> timespec_ns (cond_deadline now 500) = timespec_ns now + 500000000)"
proof (cases "500000000 \<le> tv_nsec now")
  case True
  have "\<not> valid_timespec (cond_deadline now 500)"
    using cond_deadline_valid [OF assms(4), of 500] True by simp
  then have "queue_wait_internal (Some now) wait_rc timedwait 500 = EINVAL"
    using assms(5) by (simp add: queue_wait_internal_def lsp_consts)
  moreover have "q_length q \<le> 0"
    using assms(2) by (simp add: q_items_def)
  ultimately show ?thesis
    using True assms(3)
    by (simp add: lsp_core_task_round_def lsp_queue_pop_def pop_enter_def pop_resume_def c_inc_def c_dec_def
        wait_error_def task_event_def lsp_consts Let_def)
next
  case False
  then show ?thesis
    using cond_deadline_valid [OF assms(4), of 500] cond_deadline_ns [of now 500] by simp
qed

theorem idle_core_spins_witness:
  "\<exists>q. core_create 32 16 = Done (Some q)
     \<and> lsp_core_task_round 0 LSP_ERR_NONE
         (\<lambda>q. (queue_wait_internal (Some \<lparr>tv_sec = 7, tv_nsec = 600000000\<rparr>) 0
                (\<lambda>ts. if valid_timespec ts then ETIMEDOUT else EINVAL) 500, q))
         \<lparr>ev = 3, ev_data = 4096\<rparr> (HLive q)
       = Done (\<lparr>ev = 0, ev_data = 4096\<rparr>, HLive q)"
proof -
  obtain q where q: "core_create 32 16 = Done (Some q)" "q_inv q" "q_items q = []" "itemsize q = 16" "waiting_empty q = 0"
    using core_create_queue by (auto simp: lsp_consts SIZEOF_core_event_def)
  have "event_queue q" "valid_timespec \<lparr>tv_sec = 7, tv_nsec = 600000000\<rparr>"
    using q by (simp_all add: event_queue_def SIZEOF_core_event_def valid_timespec_def)
  from idle_core_spins [OF this(1) q(3,5) this(2), of "\<lambda>ts. if valid_timespec ts then ETIMEDOUT else EINVAL"] q(1)
  show ?thesis
    by auto
qed

end
