(* ===== verification/LspListConc.thy ===== *)
theory LspListConc imports LspList begin

section \<open>Threads that add to a list nobody guards\<close>

text \<open>
  The interface list and the blocks of the \<open>DEBUG\<close> allocator are filled with \<open>lsp_list_add\<close> and no mutex is
  taken. Here any number of threads (numbered) call \<open>lsp_list_add\<close> on one head, each for a node that has not been
  given to it before (\<open>given\<close> remembers which have). A step is one access to the shared memory, in the order
  of the source: the read of \<open>head->next\<close> and the four writes of \<open>_lsp_list_add\<close>; the memory is sequentially
  consistent. A program counter names the access that comes next.
\<close>

datatype 'n add_pc =
    AddIdle
  | AFetch 'n                       \<comment> \<open>reads \<open>head->next\<close>\<close>
  | ANextPrev 'n "'n option"        \<comment> \<open>\<open>next->prev = n\<close>\<close>
  | ANewNext 'n "'n option"         \<comment> \<open>\<open>n->next = next\<close>\<close>
  | ANewPrev 'n                     \<comment> \<open>\<open>n->prev = prev\<close>\<close>
  | AHeadNext 'n                    \<comment> \<open>\<open>prev->next = n\<close>\<close>
  | Added 'n
  | AddCrash fault

record 'n add_sys =
  alinks :: "'n lheap"
  given :: "'n set"
  apcs :: "nat \<Rightarrow> 'n add_pc"

subsection \<open>One access of one thread\<close>

definition add_write :: "'n add_pc \<Rightarrow> 'n lheap exec \<Rightarrow> 'n lheap \<Rightarrow> 'n add_pc \<times> 'n lheap" where
  "add_write pc w h = (case w of Done h' \<Rightarrow> (pc, h') | Fault e \<Rightarrow> (AddCrash e, h) | Hang \<Rightarrow> (AddIdle, h))"

fun add_access :: "'n \<Rightarrow> 'n add_pc \<Rightarrow> 'n lheap \<Rightarrow> ('n add_pc \<times> 'n lheap) option" where
  "add_access head AddIdle h = None"
| "add_access head (AFetch n) h =
     Some (case rd_next h (Some head) of
             Done nx \<Rightarrow> (ANextPrev n nx, h) | Fault e \<Rightarrow> (AddCrash e, h) | Hang \<Rightarrow> (AddIdle, h))"
| "add_access head (ANextPrev n nx) h = Some (add_write (ANewNext n nx) (wr_prev nx (Some n) h) h)"
| "add_access head (ANewNext n nx) h = Some (add_write (ANewPrev n) (wr_next (Some n) nx h) h)"
| "add_access head (ANewPrev n) h = Some (add_write (AHeadNext n) (wr_prev (Some n) (Some head) h) h)"
| "add_access head (AHeadNext n) h = Some (add_write (Added n) (wr_next (Some head) (Some n) h) h)"
| "add_access head (Added n) h = None"
| "add_access head (AddCrash e) h = None"

text \<open>A call; where the node comes from an allocation it is accessible from here on.\<close>

inductive add_step :: "'n \<Rightarrow> 'n add_sys \<Rightarrow> 'n add_sys \<Rightarrow> bool" for head where
  add_call:
    "apcs s t = AddIdle \<or> apcs s t = Added m \<Longrightarrow> n \<notin> given s \<Longrightarrow>
     add_step head s \<lparr>alinks = (alinks s)\<lparr>lvalid := (lvalid (alinks s))(n := True)\<rparr>,
       given = insert n (given s), apcs = (apcs s)(t := AFetch n)\<rparr>"
| add_go:
    "add_access head (apcs s t) (alinks s) = Some (pc, h) \<Longrightarrow>
     add_step head s (s\<lparr>alinks := h, apcs := (apcs s)(t := pc)\<rparr>)"

definition add_start :: "'n \<Rightarrow> 'n list \<Rightarrow> 'n add_sys \<Rightarrow> bool" where
  "add_start head xs s \<longleftrightarrow> ring (alinks s) head xs \<and> given s = set (head # xs) \<and> apcs s = (\<lambda>_. AddIdle)"

subsection \<open>Forward paths\<close>

text \<open>\<open>fpath h head m zs\<close>: following \<open>next\<close> from the node \<open>m\<close> visits the nodes \<open>zs\<close> and comes to the head.\<close>

fun fpath :: "'n lheap \<Rightarrow> 'n \<Rightarrow> 'n \<Rightarrow> 'n list \<Rightarrow> bool" where
  "fpath h head m [] \<longleftrightarrow> m = head"
| "fpath h head m (z # zs) \<longleftrightarrow> m = z \<and> z \<noteq> head \<and> lvalid h z
     \<and> (case lnext h z of None \<Rightarrow> False | Some q \<Rightarrow> fpath h head q zs)"

definition fchain :: "'n lheap \<Rightarrow> 'n \<Rightarrow> 'n list \<Rightarrow> bool" where
  "fchain h head zs \<longleftrightarrow> (case lnext h head of None \<Rightarrow> False | Some m \<Rightarrow> fpath h head m zs)"

lemma fpath_frame:
  "fpath h head m zs \<Longrightarrow> (\<And>z. z \<in> set zs \<Longrightarrow> lnext h' z = lnext h z \<and> (lvalid h z \<longrightarrow> lvalid h' z)) \<Longrightarrow>
   fpath h' head m zs"
  by (induction zs arbitrary: m) (auto split: option.splits)

lemma fpath_head: "fpath h head m zs \<Longrightarrow> head \<notin> set zs"
  by (induction zs arbitrary: m) (auto split: option.splits)

lemma fpath_valid: "fpath h head m zs \<Longrightarrow> lvalid h head \<Longrightarrow> lvalid h m"
  by (cases zs) auto

lemma linked_fpath:
  "linked h (zs @ [head]) \<Longrightarrow> head \<notin> set zs \<Longrightarrow> \<forall>z\<in>set zs. lvalid h z \<Longrightarrow>
   fpath h head (hd (zs @ [head])) zs"
proof (induction zs)
  case (Cons z zs)
  then show ?case
    by (cases zs) auto
qed simp

lemma ring_fchain: "ring h head xs \<Longrightarrow> fchain h head xs"
  using linked_fpath [of h xs head] ring_first [of h head xs] linked_append [of h "[]" head "xs @ [head]"]
  by (cases xs) (auto simp: fchain_def ring_def)

text \<open>The links of a chain determine it.\<close>

lemma fpath_unique: "fpath h head m zs \<Longrightarrow> fpath h head m zs' \<Longrightarrow> zs = zs'"
proof (induction zs arbitrary: m zs')
  case Nil
  then show ?case by (cases zs') auto
next
  case (Cons z zs)
  then show ?case
    by (cases zs') (auto split: option.splits)
qed

subsection \<open>The invariant\<close>

text \<open>The node a thread works on, whether its \<open>next\<close> is still to be written, and the node from which the
  thread, or a reader of the list, can go on.\<close>

fun own_of :: "'n add_pc \<Rightarrow> 'n option" where
  "own_of (AFetch n) = Some n"
| "own_of (ANextPrev n nx) = Some n"
| "own_of (ANewNext n nx) = Some n"
| "own_of (ANewPrev n) = Some n"
| "own_of (AHeadNext n) = Some n"
| "own_of _ = None"

fun pending_of :: "'n add_pc \<Rightarrow> 'n option" where
  "pending_of (AFetch n) = Some n"
| "pending_of (ANextPrev n nx) = Some n"
| "pending_of (ANewNext n nx) = Some n"
| "pending_of _ = None"

fun root_of :: "'n add_pc \<Rightarrow> 'n option" where
  "root_of (ANextPrev n nx) = nx"
| "root_of (ANewNext n nx) = nx"
| "root_of (ANewPrev n) = Some n"
| "root_of (AHeadNext n) = Some n"
| "root_of _ = None"

definition root :: "'n \<Rightarrow> 'n add_sys \<Rightarrow> 'n \<Rightarrow> bool" where
  "root head s m \<longleftrightarrow> lnext (alinks s) head = Some m \<or> (\<exists>t. root_of (apcs s t) = Some m)"

text \<open>A path that no thread will change: its nodes have been given away and have their \<open>next\<close>.\<close>

definition settled :: "'n \<Rightarrow> 'n add_sys \<Rightarrow> 'n \<Rightarrow> 'n list \<Rightarrow> bool" where
  "settled head s m zs \<longleftrightarrow> fpath (alinks s) head m zs \<and> distinct zs \<and> set zs \<subseteq> given s
     \<and> (\<forall>t n. pending_of (apcs s t) = Some n \<longrightarrow> n \<notin> set zs)"

definition add_inv :: "'n \<Rightarrow> 'n list \<Rightarrow> 'n add_sys \<Rightarrow> bool" where
  "add_inv head xs s \<longleftrightarrow> lvalid (alinks s) head \<and> set (head # xs) \<subseteq> given s
     \<and> lnext (alinks s) head \<noteq> None
     \<and> (\<forall>m. root head s m \<longrightarrow> (\<exists>ys. settled head s m (ys @ xs)))
     \<and> (\<forall>t n. own_of (apcs s t) = Some n \<longrightarrow> n \<in> given s \<and> n \<noteq> head \<and> lvalid (alinks s) n)
     \<and> (\<forall>t u n. own_of (apcs s t) = Some n \<longrightarrow> own_of (apcs s u) = Some n \<longrightarrow> t = u)
     \<and> (\<forall>t n. apcs s t \<noteq> ANextPrev n None \<and> apcs s t \<noteq> ANewNext n None)
     \<and> (\<forall>t e. apcs s t \<noteq> AddCrash e)"

subsection \<open>What an access does\<close>

lemma add_write_done:
  "add_write pc (wr_prev (Some m) v h) h = (if lvalid h m then (pc, h\<lparr>lprev := (lprev h)(m := v)\<rparr>) else (AddCrash BadPtr, h))"
  "add_write pc (wr_next (Some m) v h) h = (if lvalid h m then (pc, h\<lparr>lnext := (lnext h)(m := v)\<rparr>) else (AddCrash BadPtr, h))"
  by (simp_all add: add_write_def link_defs)

lemma pending_own: "pending_of pc = Some n \<Longrightarrow> own_of pc = Some n"
  by (cases pc) simp_all

lemma own_facts:
  "add_inv head xs s \<Longrightarrow> own_of (apcs s t) = Some n \<Longrightarrow> n \<in> given s \<and> n \<noteq> head \<and> lvalid (alinks s) n"
  by (simp add: add_inv_def)

lemma own_unique:
  "add_inv head xs s \<Longrightarrow> own_of (apcs s t) = Some n \<Longrightarrow> own_of (apcs s u) = Some n \<Longrightarrow> t = u"
  unfolding add_inv_def by (elim conjE) metis

lemma add_inv_pcs:
  "add_inv head xs s \<Longrightarrow> apcs s t \<noteq> ANextPrev n None \<and> apcs s t \<noteq> ANewNext n None \<and> apcs s t \<noteq> AddCrash e"
  by (simp add: add_inv_def)

text \<open>Under the invariant every access is defined, and these are the five there are.\<close>

lemma access_cases:
  assumes "add_access head (apcs s t) (alinks s) = Some (pc, h)" "add_inv head xs s"
  obtains
    (fetch) n m where "apcs s t = AFetch n" "lnext (alinks s) head = Some m" "pc = ANextPrev n (Some m)" "h = alinks s"
  | (next_prev) n m where "apcs s t = ANextPrev n (Some m)" "pc = ANewNext n (Some m)"
      "h = (alinks s)\<lparr>lprev := (lprev (alinks s))(m := Some n)\<rparr>"
  | (new_next) n m where "apcs s t = ANewNext n (Some m)" "pc = ANewPrev n"
      "h = (alinks s)\<lparr>lnext := (lnext (alinks s))(n := Some m)\<rparr>"
  | (new_prev) n where "apcs s t = ANewPrev n" "pc = AHeadNext n"
      "h = (alinks s)\<lparr>lprev := (lprev (alinks s))(n := Some head)\<rparr>"
  | (head_next) n where "apcs s t = AHeadNext n" "pc = Added n"
      "h = (alinks s)\<lparr>lnext := (lnext (alinks s))(head := Some n)\<rparr>"
proof -
  have valid: "lvalid (alinks s) m" if "root_of (apcs s t) = Some m" for m
    using assms(2) that unfolding add_inv_def root_def settled_def by (metis fpath_valid)
  have own: "lvalid (alinks s) n" if "own_of (apcs s t) = Some n" for n
    using own_facts [OF assms(2)] that by blast
  have nx: "apcs s t \<noteq> ANextPrev n None" "apcs s t \<noteq> ANewNext n None" for n
    using assms(2) by (simp_all add: add_inv_def)
  obtain m0 where m0: "lnext (alinks s) head = Some m0" "lvalid (alinks s) head"
    using assms(2) by (auto simp: add_inv_def)
  show thesis
  proof (cases "apcs s t")
    case (AFetch n)
    with assms(1) m0 show thesis
      by (intro fetch [of n m0]) (simp_all add: rd_next_def)
  next
    case (ANextPrev n nx')
    then obtain m where "nx' = Some m"
      using nx(1) by (cases nx') auto
    with ANextPrev assms(1) valid show thesis
      by (intro next_prev [of n m]) (simp_all add: add_write_done)
  next
    case (ANewNext n nx')
    then obtain m where "nx' = Some m"
      using nx(2) by (cases nx') auto
    with ANewNext assms(1) own show thesis
      by (intro new_next [of n m]) (simp_all add: add_write_done)
  next
    case (ANewPrev n)
    with assms(1) own show thesis
      by (intro new_prev [of n]) (simp_all add: add_write_done)
  next
    case (AHeadNext n)
    with assms(1) m0 show thesis
      by (intro head_next [of n]) (simp_all add: add_write_done)
  qed (use assms(1) in simp_all)
qed

lemma settled_call:
  assumes "settled head s m zs" "n \<notin> given s"
    and "s' = \<lparr>alinks = (alinks s)\<lparr>lvalid := (lvalid (alinks s))(n := True)\<rparr>,
       given = insert n (given s), apcs = (apcs s)(t := AFetch n)\<rparr>"
  shows "settled head s' m zs"
proof -
  have "fpath (alinks s') head m zs"
    using assms(1,3) fpath_frame [of "alinks s" head m zs "alinks s'"] by (simp add: settled_def)
  then show ?thesis
    using assms by (auto simp: settled_def split: if_splits)
qed

lemma settled_go:
  assumes "settled head s m zs" "add_access head (apcs s t) (alinks s) = Some (pc, h)" "add_inv head xs s"
  shows "settled head (s\<lparr>alinks := h, apcs := (apcs s)(t := pc)\<rparr>) m zs"
proof -
  have path: "fpath (alinks s) head m zs"
    using assms(1) by (simp add: settled_def)
  have pend: "n \<notin> set zs" if "pending_of (apcs s t) = Some n" for n
    using assms(1) that by (simp add: settled_def)
  have "fpath h head m zs \<and> (\<forall>n. pending_of pc = Some n \<longrightarrow> pending_of (apcs s t) = Some n)"
    using assms(2,3)
  proof (cases rule: access_cases)
    case (new_next n q)
    have "fpath h head m zs"
      using path by (rule fpath_frame) (use new_next pend [of n] in auto)
    with new_next show ?thesis by simp
  next
    case (head_next n)
    have "fpath h head m zs"
      using path by (rule fpath_frame) (use head_next fpath_head [OF path] in auto)
    with head_next show ?thesis by simp
  next
    case (next_prev n q)
    have "fpath h head m zs"
      using path by (rule fpath_frame) (simp add: next_prev)
    with next_prev show ?thesis by simp
  next
    case (new_prev n)
    have "fpath h head m zs"
      using path by (rule fpath_frame) (simp add: new_prev)
    with new_prev show ?thesis by simp
  qed (use path in simp)
  then show ?thesis
    using assms(1) by (auto simp: settled_def split: if_splits)
qed

lemma settled_step:
  "add_step head s s' \<Longrightarrow> add_inv head xs s \<Longrightarrow> settled head s m zs \<Longrightarrow> settled head s' m zs"
  by (induction rule: add_step.induct) (blast intro: settled_call settled_go)+

text \<open>The node a thread goes on from: the new ones come from nodes that were there, or are put in front of one.\<close>

lemma root_go:
  assumes "add_access head (apcs s t) (alinks s) = Some (pc, h)" "add_inv head xs s"
    and "root head (s\<lparr>alinks := h, apcs := (apcs s)(t := pc)\<rparr>) m"
  shows "root head s m \<or> (\<exists>q. apcs s t = ANewNext m (Some q) \<and> pc = ANewPrev m
    \<and> h = (alinks s)\<lparr>lnext := (lnext (alinks s))(m := Some q)\<rparr>)"
  using assms(1,2)
proof (cases rule: access_cases)
  case (new_next n q)
  have "n \<noteq> head"
    using own_facts [OF assms(2), of t n] new_next(1) by simp
  with new_next assms(3) show ?thesis
    by (auto simp: root_def split: if_splits)
next
  case (new_prev n)
  with assms(3) show ?thesis
    by (auto simp: root_def split: if_splits) (metis root_of.simps(3))+
next
  case (next_prev n q)
  with assms(3) show ?thesis
    by (auto simp: root_def split: if_splits) (metis root_of.simps(1))+
next
  case (head_next n)
  with assms(3) show ?thesis
    by (auto simp: root_def split: if_splits) (metis root_of.simps(4))+
qed (use assms(3) in \<open>auto simp: root_def split: if_splits\<close>)

lemma add_inv_call:
  assumes "add_inv head xs s" "apcs s t = AddIdle \<or> apcs s t = Added m0" "n \<notin> given s"
    and s': "s' = \<lparr>alinks = (alinks s)\<lparr>lvalid := (lvalid (alinks s))(n := True)\<rparr>,
       given = insert n (given s), apcs = (apcs s)(t := AFetch n)\<rparr>"
  shows "add_inv head xs s'"
proof -
  have "\<exists>ys. settled head s' m (ys @ xs)" if "root head s' m" for m
  proof -
    have "root head s m"
      using that assms(2) by (auto simp: root_def s' split: if_splits)
    then obtain ys where "settled head s m (ys @ xs)"
      using assms(1) by (auto simp: add_inv_def)
    then show ?thesis
      using settled_call [OF _ assms(3) s'] by blast
  qed
  moreover have "own_of (apcs s u) \<noteq> Some n" for u
    using own_facts [OF assms(1), of u n] assms(3) by blast
  moreover have "n \<noteq> head"
    using assms(1,3) by (auto simp: add_inv_def)
  ultimately show ?thesis
    using assms(1) by (auto simp: add_inv_def s')
qed

lemma new_root_settled:
  assumes "add_inv head xs s" "apcs s t = ANewNext n (Some q)"
    and s': "s' = s\<lparr>alinks := (alinks s)\<lparr>lnext := (lnext (alinks s))(n := Some q)\<rparr>, apcs := (apcs s)(t := ANewPrev n)\<rparr>"
  shows "\<exists>ys. settled head s' n (ys @ xs)"
proof -
  have "root head s q"
    using assms(2) by (auto simp: root_def intro!: exI [of _ t])
  then obtain ys where ys: "settled head s q (ys @ xs)"
    using assms(1) by (auto simp: add_inv_def)
  have "add_access head (apcs s t) (alinks s) = Some (ANewPrev n, alinks s')"
    using assms(2) own_facts [OF assms(1), of t n] by (simp add: add_write_done s')
  then have ys': "settled head s' q (ys @ xs)"
    using settled_go [OF ys _ assms(1)] by (simp add: s')
  have n: "n \<in> given s" "n \<noteq> head" "lvalid (alinks s) n"
    using own_facts [OF assms(1), of t n] assms(2) by auto
  have "n \<notin> set (ys @ xs)"
    using ys assms(2) by (auto simp: settled_def dest!: spec [of _ t])
  moreover have "pending_of (apcs s u) \<noteq> Some n" if "u \<noteq> t" for u
    using own_unique [OF assms(1), of u n t] pending_own [of "apcs s u" n] assms(2) that by auto
  ultimately have "settled head s' n ((n # ys) @ xs)"
    using ys' n by (auto simp: settled_def s')
  then show ?thesis by blast
qed

lemma add_inv_go:
  assumes "add_inv head xs s" "add_access head (apcs s t) (alinks s) = Some (pc, h)"
    and s': "s' = s\<lparr>alinks := h, apcs := (apcs s)(t := pc)\<rparr>"
  shows "add_inv head xs s'"
proof -
  have roots: "\<exists>ys. settled head s' m (ys @ xs)" if "root head s' m" for m
  proof -
    from root_go [OF assms(2,1) that [unfolded s']]
    consider "root head s m" | q where "apcs s t = ANewNext m (Some q)" "pc = ANewPrev m"
      "h = (alinks s)\<lparr>lnext := (lnext (alinks s))(m := Some q)\<rparr>"
      by blast
    then show ?thesis
    proof cases
      case 1
      then obtain ys where "settled head s m (ys @ xs)"
        using assms(1) by (auto simp: add_inv_def)
      then show ?thesis
        using settled_go [OF _ assms(2,1)] unfolding s' by blast
    next
      case 2
      then show ?thesis
        using new_root_settled [OF assms(1) 2(1)] by (simp add: s')
    qed
  qed
  have "(own_of pc = None \<or> own_of pc = own_of (apcs s t)) \<and> lvalid h = lvalid (alinks s)
      \<and> lnext h head \<noteq> None \<and> (\<forall>n. pc \<noteq> ANextPrev n None \<and> pc \<noteq> ANewNext n None) \<and> (\<forall>e. pc \<noteq> AddCrash e)"
    using assms(2,1)
  proof (cases rule: access_cases)
    case (new_next n q)
    then show ?thesis
      using own_facts [OF assms(1), of t n] assms(1) by (auto simp: add_inv_def)
  qed (use assms(1) in \<open>auto simp: add_inv_def\<close>)
  note pc = this
  have own: "own_of (apcs s' u) = Some n \<Longrightarrow> own_of (apcs s u) = Some n" for u n
    using pc by (auto simp: s' split: if_splits)
  have "\<forall>u v n. own_of (apcs s' u) = Some n \<longrightarrow> own_of (apcs s' v) = Some n \<longrightarrow> u = v"
    by (meson own own_unique [OF assms(1)])
  moreover have "\<forall>u n. own_of (apcs s' u) = Some n \<longrightarrow> n \<in> given s \<and> n \<noteq> head \<and> lvalid (alinks s) n"
    by (meson own own_facts [OF assms(1)])
  moreover have "\<forall>u n. apcs s' u \<noteq> ANextPrev n None \<and> apcs s' u \<noteq> ANewNext n None"
    "\<forall>u e. apcs s' u \<noteq> AddCrash e"
    using pc add_inv_pcs [OF assms(1)] by (simp_all add: s')
  moreover have "lvalid (alinks s) head \<and> set (head # xs) \<subseteq> given s"
    using assms(1) by (simp add: add_inv_def)
  moreover have "alinks s' = h" "given s' = given s" "lvalid h = lvalid (alinks s)" "lnext h head \<noteq> None"
    using pc by (simp_all add: s')
  ultimately show ?thesis
    using roots unfolding add_inv_def by simp
qed

lemma add_inv_step: "add_step head s s' \<Longrightarrow> add_inv head xs s \<Longrightarrow> add_inv head xs s'"
  by (induction rule: add_step.induct) (blast intro: add_inv_call add_inv_go)+

lemma add_inv_start:
  assumes "add_start head xs s"
  shows "add_inv head xs s"
proof -
  have r: "ring (alinks s) head xs" and idle: "given s = set (head # xs)" "apcs s = (\<lambda>_. AddIdle)"
    using assms by (simp_all add: add_start_def)
  obtain m0 where m0: "lnext (alinks s) head = Some m0" "fpath (alinks s) head m0 xs"
    using ring_fchain [OF r] by (auto simp: fchain_def split: option.splits)
  have "settled head s m xs" if "root head s m" for m
    using that m0 ring_distinctD [OF r] by (auto simp: settled_def root_def idle)
  then show ?thesis
    using m0(1) ring_validD [OF r, of head] by (auto simp: add_inv_def idle intro: exI [of _ "[]"])
qed

interpretation unguarded: step_invariant "add_start head xs" "add_step head" "add_inv head xs" for head xs
  by unfold_locales (auto intro: add_inv_start add_inv_step)

subsection \<open>What a search sees\<close>

lemma list_search_path:
  "fpath h head m (z # zs) \<Longrightarrow> lvalid h head \<Longrightarrow> list_search rd_next h head P m = Some (Done (find P (z # zs)))"
proof (induction zs arbitrary: m z)
  case Nil
  then show ?case
    by (subst list_search.simps) (auto simp: rd_next_def split: option.splits)
next
  case (Cons y ys)
  then obtain q where q: "lnext h z = Some q" "fpath h head q (y # ys)" "m = z" "lvalid h z"
    by (auto split: option.splits)
  moreover have "q = y" "q \<noteq> head"
    using q by auto
  moreover have "rd_next h (Some z) = Done (Some y)"
    using q \<open>q = y\<close> by (simp add: rd_next_def)
  ultimately show ?case
    using Cons.IH [of q y] Cons.prems(2) by (subst list_search.simps) simp
qed

text \<open>With an old node on the list, no thread writes \<open>head->prev\<close>.\<close>

lemma prev_step:
  assumes "add_step head s s'" "add_inv head xs s" "xs \<noteq> []"
  shows "lprev (alinks s') head = lprev (alinks s) head"
  using assms(1)
proof cases
  case (add_go t pc h)
  from add_go(2) assms(2) have "lprev h head = lprev (alinks s) head"
  proof (cases rule: access_cases)
    case (next_prev n m)
    then have "root head s m"
      by (auto simp: root_def intro!: exI [of _ t])
    then obtain ys where "fpath (alinks s) head m (ys @ xs)"
      using assms(2) by (auto simp: add_inv_def settled_def)
    then have "m \<noteq> head"
      using assms(3) by (cases "ys @ xs") auto
    with next_prev show ?thesis by simp
  next
    case (new_prev n)
    then show ?thesis
      using own_facts [OF assms(2), of t n] by auto
  qed simp_all
  then show ?thesis
    by (simp add: add_go)
qed simp

lemma settled_run:
  assumes "rtranclp (add_step head) s s'" "add_inv head xs s"
  shows "(\<forall>m zs. settled head s m zs \<longrightarrow> settled head s' m zs)
    \<and> (xs \<noteq> [] \<longrightarrow> lprev (alinks s') head = lprev (alinks s) head)"
  using assms(1)
proof (induction rule: rtranclp_induct)
  case (step s1 s2)
  have "add_inv head xs s1"
    using unguarded.inv_steps [OF step(1) assms(2)] .
  then show ?case
    using step settled_step [OF step(2)] prev_step [OF step(2)] by auto
qed simp

subsection \<open>One thread alone\<close>

fun add_drive :: "nat \<Rightarrow> 'n \<Rightarrow> 'n add_pc \<Rightarrow> 'n lheap \<Rightarrow> 'n add_pc \<times> 'n lheap" where
  "add_drive 0 head pc h = (pc, h)"
| "add_drive (Suc k) head pc h =
     (case add_access head pc h of None \<Rightarrow> (pc, h) | Some (pc, h) \<Rightarrow> add_drive k head pc h)"

lemma add_drive_run:
  "add_drive k head (apcs s t) (alinks s) = (pc, h) \<Longrightarrow>
   rtranclp (add_step head) s (s\<lparr>alinks := h, apcs := (apcs s)(t := pc)\<rparr>)"
proof (induction k arbitrary: s)
  case (Suc k)
  show ?case
  proof (cases "add_access head (apcs s t) (alinks s)")
    case None
    then have "pc = apcs s t" "h = alinks s"
      using Suc.prems by simp_all
    then show ?thesis by simp
  next
    case (Some r)
    obtain pc1 h1 where r: "r = (pc1, h1)" by (cases r)
    let ?s1 = "s\<lparr>alinks := h1, apcs := (apcs s)(t := pc1)\<rparr>"
    have "add_step head s ?s1"
      using add_go Some r by fastforce
    moreover have "rtranclp (add_step head) ?s1 (?s1\<lparr>alinks := h, apcs := (apcs ?s1)(t := pc)\<rparr>)"
      using Suc.prems Some r by (intro Suc.IH) simp
    moreover have "?s1\<lparr>alinks := h, apcs := (apcs ?s1)(t := pc)\<rparr> = s\<lparr>alinks := h, apcs := (apcs s)(t := pc)\<rparr>"
      by simp
    ultimately show ?thesis
      by (metis converse_rtranclp_into_rtranclp)
  qed
next
  case 0
  then have "pc = apcs s t" "h = alinks s"
    by simp_all
  then show ?case by simp
qed

lemma add_drive_add:
  "case lsp_list_add (Some n) (Some head) h of
     Done h' \<Rightarrow> add_drive 5 head (AFetch n) h = (Added n, h')
   | Fault e \<Rightarrow> fst (add_drive 5 head (AFetch n) h) = AddCrash e
   | Hang \<Rightarrow> False"
proof -
  have five: "(5 :: nat) = Suc (Suc (Suc (Suc (Suc 0))))"
    by simp
  show ?thesis
    unfolding five
    by (cases "lnext h head")
       (auto simp: lsp_list_add_def lsp_list_add_between_def link_defs add_write_def)
qed

subsection \<open>Nodes that are lost\<close>

text \<open>A node that was given away, that no thread works on, and that is on no path.\<close>

definition lost :: "'n \<Rightarrow> 'n add_sys \<Rightarrow> 'n \<Rightarrow> bool" where
  "lost head s n \<longleftrightarrow> n \<in> given s \<and> (\<forall>t. own_of (apcs s t) \<noteq> Some n)
     \<and> (\<forall>m zs. root head s m \<longrightarrow> fpath (alinks s) head m zs \<longrightarrow> n \<notin> set zs)"

lemma lost_path:
  assumes "lost head s n" "add_inv head xs s" "root head s m" "add_step head s s'" "fpath (alinks s') head m zs"
  shows "n \<notin> set zs"
proof -
  obtain ys where ys: "settled head s m (ys @ xs)"
    using assms(2,3) by (auto simp: add_inv_def)
  then have "zs = ys @ xs"
    using settled_step [OF assms(4,2) ys] assms(5) fpath_unique by (auto simp: settled_def)
  moreover have "n \<notin> set (ys @ xs)"
    using assms(1,3) ys unfolding lost_def settled_def by blast
  ultimately show ?thesis by simp
qed

lemma lost_step:
  assumes "add_step head s s'" "lost head s n" "add_inv head xs s"
  shows "lost head s' n"
  using assms(1)
proof cases
  case (add_call t m k)
  have "n \<notin> set zs" if "root head s' m" "fpath (alinks s') head m zs" for m zs
  proof -
    have "root head s m"
      using that(1) add_call(2) by (auto simp: root_def add_call(1) split: if_splits)
    then show ?thesis
      using lost_path [OF assms(2,3) _ assms(1) that(2)] by blast
  qed
  then show ?thesis
    using assms(2) add_call by (auto simp: lost_def)
next
  case (add_go t pc h)
  have new: "root head s m \<or> (\<exists>q. apcs s t = ANewNext m (Some q) \<and> lnext h m = Some q)" if "root head s' m" for m
    using root_go [OF add_go(2) assms(3) that [unfolded add_go(1)]] by auto
  have "n \<notin> set zs" if "root head s' m" "fpath (alinks s') head m zs" for m zs
    using new [OF that(1)]
  proof
    assume "\<exists>q. apcs s t = ANewNext m (Some q) \<and> lnext h m = Some q"
    then obtain q where q: "apcs s t = ANewNext m (Some q)" "lnext h m = Some q" by blast
    then have "own_of (apcs s t) = Some m" "root head s q"
      by (auto simp: root_def intro!: exI [of _ t])
    then have "root head s q" "m \<noteq> n" "m \<noteq> head"
      using assms(2) own_facts [OF assms(3), of t m] by (auto simp: lost_def)
    then show ?thesis
      using that(2) q(2) lost_path [OF assms(2,3) _ assms(1), of q] by (cases zs) (auto simp: add_go(1))
  qed (use lost_path [OF assms(2,3) _ assms(1) that(2)] in blast)
  moreover have "own_of pc = None \<or> own_of pc = own_of (apcs s t)"
    using add_go(2) assms(3) by (cases rule: access_cases) simp_all
  ultimately show ?thesis
    using assms(2) by (auto simp: lost_def add_go(1))
qed

lemma lost_for_ever:
  assumes "rtranclp (add_step head) s s'" "lost head s n" "add_inv head xs s"
  shows "lost head s' n"
  using assms(1)
proof (induction rule: rtranclp_induct)
  case (step s1 s2)
  then show ?case
    using lost_step [OF step(2) _ unguarded.inv_steps [OF step(1) assms(3)]] by blast
qed (rule assms(2))

subsection \<open>Properties\<close>

text \<open>A list of two nodes, and a run in which a third one is added.\<close>

definition add_example :: "nat add_sys" where
  "add_example =
     \<lparr>alinks = \<lparr>lnext = (\<lambda>n. Some (if n = 0 then 1 else if n = 1 then 2 else 0)),
                 lprev = (\<lambda>n. Some (if n = 2 then 1 else if n = 1 then 0 else 2)),
                 lvalid = (\<lambda>n. n \<le> 2)\<rparr>,
      given = {0, 1, 2}, apcs = (\<lambda>_. AddIdle)\<rparr>"

lemma add_example_start: "add_start 0 [1, 2] add_example"
  by (simp add: add_start_def add_example_def ring_def)

lemma add_example_run:
  "\<exists>s h. rtranclp (add_step 0) add_example s \<and> alinks s = h \<and> lnext h 0 = Some 3 \<and> apcs s 0 = Added 3"
proof -
  let ?h = "(alinks add_example)\<lparr>lvalid := (lvalid (alinks add_example))(3 := True)\<rparr>"
  let ?s = "\<lparr>alinks = ?h, given = insert 3 (given add_example), apcs = (apcs add_example)(0 := AFetch 3)\<rparr>"
  have "add_step 0 add_example ?s"
    using add_call [of add_example 0 0 3 0] by (simp add: add_example_def)
  moreover obtain h where "add_drive 5 0 (AFetch 3) ?h = (Added 3, h)" "lnext h 0 = Some 3"
    by (simp add: numeral_eq_Suc add_example_def rd_next_def add_write_done)
  then have "rtranclp (add_step 0) ?s (?s\<lparr>alinks := h, apcs := (apcs ?s)(0 := Added 3)\<rparr>)" "lnext h 0 = Some 3"
    using add_drive_run [of 5 0 ?s 0 "Added 3" h] by simp_all
  ultimately show ?thesis
    by (intro exI [of _ "?s\<lparr>alinks := h, apcs := (apcs ?s)(0 := Added 3)\<rparr>"] exI [of _ h])
       (simp add: converse_rtranclp_into_rtranclp)
qed

text \<open>
  A thread that is not disturbed makes the five accesses of \<open>lsp_list_add\<close>: it returns with the list the
  sequential function leaves, or faults where that does.
\<close>

theorem add_alone:
  "case lsp_list_add (Some n) (Some head) h of
     Done h' \<Rightarrow> add_drive 5 head (AFetch n) h = (Added n, h')
   | Fault e \<Rightarrow> fst (add_drive 5 head (AFetch n) h) = AddCrash e
   | Hang \<Rightarrow> False"
  by (rule add_drive_add)

text \<open>
  C12. Adding without a mutex never breaks the chain. In every run of any number of threads that add to one list, whatever
  the order of their accesses, the \<open>next\<close> links from the head lead through distinct nodes back to the head, the nodes
  that were there at the start are the last of them in their order, no access is undefined, and a chain that a search has
  begun to walk stays as it is, whatever is added later. So when there was a node at the start, \<open>lsp_list_for\<close> ends at
  any moment and visits exactly the nodes of that moment (none if it is the single old one).
\<close>

theorem unguarded_adds_keep_chain:
  assumes "add_start head xs s" and "rtranclp (add_step head) s s1"
  shows "\<exists>zs. fchain (alinks s1) head (zs @ xs) \<and> distinct (zs @ xs) \<and> set zs \<subseteq> given s1
    \<and> (\<forall>t e. apcs s1 t \<noteq> AddCrash e)
    \<and> (\<forall>s2 m. rtranclp (add_step head) s1 s2 \<longrightarrow> lnext (alinks s1) head = Some m \<longrightarrow>
         fpath (alinks s2) head m (zs @ xs))
    \<and> (xs \<noteq> [] \<longrightarrow> lsp_list_for P head (alinks s1)
         = Done (if length (zs @ xs) = 1 then None else find P (zs @ xs)))"
proof -
  have inv: "add_inv head xs s1"
    using assms by (rule unguarded.inv_reachable)
  obtain m where m: "lnext (alinks s1) head = Some m" "lvalid (alinks s1) head"
    using inv by (auto simp: add_inv_def)
  then obtain zs where zs: "settled head s1 m (zs @ xs)"
    using inv by (auto simp: add_inv_def root_def)
  then have path: "fpath (alinks s1) head m (zs @ xs)" and "distinct (zs @ xs)"
    by (simp_all add: settled_def)
  have later: "fpath (alinks s2) head m (zs @ xs)" if "rtranclp (add_step head) s1 s2" for s2
    using settled_run [OF that inv] zs by (auto simp: settled_def)
  have search: "lsp_list_for P head (alinks s1) = Done (if length (zs @ xs) = 1 then None else find P (zs @ xs))"
    if ne: "xs \<noteq> []"
  proof -
    have "lprev (alinks s1) head = Some (last xs)"
      using settled_run [OF assms(2) add_inv_start [OF assms(1)]] ring_last [of "alinks s" head xs] assms(1) ne
      by (simp add: add_start_def)
    moreover obtain z r where zr: "zs @ xs = z # r"
      using ne by (cases "zs @ xs") simp_all
    moreover have "m = z"
      using path zr by simp
    moreover have "last xs = last (z # r)"
      using last_appendR [OF ne, of zs] zr by simp
    moreover have "distinct (z # r)"
      using \<open>distinct (zs @ xs)\<close> by (simp only: zr)
    then have "z = last (z # r) \<longleftrightarrow> r = []"
      by (cases r rule: rev_cases) auto
    ultimately show ?thesis
      using m path list_search_path [of "alinks s1" head m z r P]
      by (simp add: lsp_list_for_def list_for_from_def rd_next_def rd_prev_def)
  qed
  show ?thesis
    using zs m later search add_inv_pcs [OF inv] by (intro exI [of _ zs]) (auto simp: settled_def fchain_def)
qed

theorem unguarded_adds_keep_chain_witness:
  "\<exists>s. rtranclp (add_step 0) add_example s \<and> lnext (alinks s) 0 = Some 3
     \<and> lsp_list_for (\<lambda>n. n = 2) 0 (alinks s) = Done (Some 2)"
proof -
  obtain s where s: "rtranclp (add_step 0) add_example s" "lnext (alinks s) 0 = Some 3"
    using add_example_run by blast
  from unguarded_adds_keep_chain [OF add_example_start s(1), of "\<lambda>n. n = 2"] obtain zs where
    zs: "distinct (zs @ [1, 2])" "lsp_list_for (\<lambda>n. n = 2) 0 (alinks s) = Done (find (\<lambda>n. n = 2) (zs @ [1, 2]))"
    by auto
  have "find (\<lambda>n. n = 2) (zs @ [1, 2]) = Some (2 :: nat)"
    using zs(1) by (induction zs) auto
  with s zs(2) show ?thesis
    by auto
qed

text \<open>
  C26. Adding without a mutex loses nodes. From any list and any two new nodes, two threads that add them can both return, and the chain
  has only one of the two: the other is on no list, and no search will ever find it.
\<close>

theorem unguarded_add_race:
  assumes "add_start head xs s" and "a \<notin> given s" and "b \<notin> given s" and "a \<noteq> b"
  shows "\<exists>s'. rtranclp (add_step head) s s' \<and> apcs s' = (\<lambda>_. AddIdle)(0 := Added a, 1 := Added b)
    \<and> fchain (alinks s') head (a # xs)
    \<and> (\<forall>s2 zs. rtranclp (add_step head) s' s2 \<longrightarrow> fchain (alinks s2) head zs \<longrightarrow> b \<notin> set zs)"
proof -
  let ?h0 = "alinks s" and ?idle = "\<lambda>_. AddIdle"
  have r: "ring ?h0 head xs" and giv: "given s = set (head # xs)" and pcs: "apcs s = ?idle"
    using assms(1) by (simp_all add: add_start_def)
  obtain m where m: "lnext ?h0 head = Some m" "fpath ?h0 head m xs" and vh: "lvalid ?h0 head"
    using ring_fchain [OF r] ring_validD [OF r, of head] by (auto simp: fchain_def split: option.splits)
  have vm: "lvalid ?h0 m"
    using fpath_valid [OF m(2) vh] .
  have ab: "a \<noteq> head" "b \<noteq> head" "a \<notin> set xs" "b \<notin> set xs"
    using assms(2,3) giv by auto
  let ?h1 = "?h0\<lparr>lvalid := (lvalid ?h0)(a := True)\<rparr>"
  let ?h2 = "?h1\<lparr>lvalid := (lvalid ?h1)(b := True)\<rparr>"
  let ?s1 = "\<lparr>alinks = ?h1, given = insert a (given s), apcs = ?idle(0 := AFetch a)\<rparr>"
  let ?s2 = "\<lparr>alinks = ?h1, given = insert a (given s), apcs = ?idle(0 := ANextPrev a (Some m))\<rparr>"
  let ?s3 = "\<lparr>alinks = ?h2, given = insert b (insert a (given s)),
    apcs = ?idle(0 := ANextPrev a (Some m), 1 := AFetch b)\<rparr>"
  have 1: "add_step head s ?s1"
    using add_call [of s 0 b a head] assms(2) by (simp add: pcs)
  have 2: "add_step head ?s1 ?s2"
    using add_go [of head ?s1 0 "ANextPrev a (Some m)" ?h1] m(1) vh by (simp add: rd_next_def)
  have 3: "add_step head ?s2 ?s3"
    using add_call [of ?s2 1 a b head] assms(3,4) by simp
  have "ring ?h2 head xs"
    by (intro ring_more_valid r)
  then obtain h3 where h3: "lsp_list_add (Some b) (Some head) ?h2 = Done h3" "lvalid h3 = lvalid ?h2"
    using lsp_list_add_inserts [of ?h2 head xs b] ab by (auto simp: inserts_def same_outside_def)
  then have "add_drive 5 head (AFetch b) ?h2 = (Added b, h3)"
    using add_drive_add [where n = b and head = head and h = ?h2] by simp
  then have 4: "rtranclp (add_step head) ?s3 (?s3\<lparr>alinks := h3, apcs := (apcs ?s3)(1 := Added b)\<rparr>)"
    using add_drive_run [of 5 head ?s3 1 "Added b" h3] by simp
  let ?s4 = "?s3\<lparr>alinks := h3, apcs := (apcs ?s3)(1 := Added b)\<rparr>"
  define h4 where "h4 = h3\<lparr>lprev := (lprev h3)(m := Some a, a := Some head),
    lnext := (lnext h3)(a := Some m, head := Some a)\<rparr>"
  have "add_drive 4 head (ANextPrev a (Some m)) h3 = (Added a, h4)"
    using vh vm h3(2) by (simp add: numeral_eq_Suc add_write_done h4_def)
  then have 5: "rtranclp (add_step head) ?s4 (?s4\<lparr>alinks := h4, apcs := (apcs ?s4)(0 := Added a)\<rparr>)"
    using add_drive_run [of 4 head ?s4 0 "Added a" h4] by simp
  define s5 where "s5 = ?s4\<lparr>alinks := h4, apcs := (apcs ?s4)(0 := Added a)\<rparr>"
  have run: "rtranclp (add_step head) s s5"
    unfolding s5_def
    by (rule converse_rtranclp_into_rtranclp, rule 1, rule converse_rtranclp_into_rtranclp, rule 2,
        rule converse_rtranclp_into_rtranclp, rule 3, rule rtranclp_trans, rule 4, rule 5)
  have "settled head s m xs"
    using m(2) ring_distinctD [OF r] giv pcs by (auto simp: settled_def)
  then have "fpath h4 head m xs"
    using settled_run [OF run add_inv_start [OF assms(1)]] by (auto simp: settled_def s5_def)
  then have chain: "fpath h4 head a (a # xs)" "lnext h4 head = Some a"
    using ab h3(2) by (simp_all add: h4_def)
  have pcs5: "apcs s5 = ?idle(0 := Added a, 1 := Added b)"
    by (auto simp: s5_def)
  have "lost head s5 b"
  proof -
    have "b \<notin> set zs" if "root head s5 q" "fpath h4 head q zs" for q zs
    proof -
      have "q = a"
        using that(1) chain(2) by (auto simp: root_def pcs5 s5_def split: if_splits)
      then have "zs = a # xs"
        using fpath_unique [OF _ chain(1)] that(2) by blast
      then show ?thesis
        using ab assms(4) by simp
    qed
    then show ?thesis
      by (auto simp: lost_def pcs5) (simp_all add: s5_def)
  qed
  moreover have inv: "add_inv head xs s5"
    using assms(1) run by (rule unguarded.inv_reachable)
  moreover have "b \<notin> set zs" if "rtranclp (add_step head) s5 s2" "fchain (alinks s2) head zs" for s2 zs
    using lost_for_ever [OF that(1) \<open>lost head s5 b\<close> inv] that(2)
    by (auto simp: lost_def root_def fchain_def split: option.splits)
  ultimately show ?thesis
    using run pcs5 chain by (intro exI [of _ s5]) (auto simp: fchain_def s5_def)
qed

theorem unguarded_add_race_witness:
  "\<exists>s. rtranclp (add_step 0) add_example s \<and> apcs s 0 = Added 3 \<and> apcs s 1 = Added 4
     \<and> fchain (alinks s) 0 [3, 1, 2]"
  using unguarded_add_race [OF add_example_start, of 3 4] by (fastforce simp: add_example_def)

end
