(* ===== verification/LspListenConc.thy ===== *)
theory LspListenConc imports LspPort begin

section \<open>Threads that listen on different ports\<close>

text \<open>
  The lists of the ports share the nodes in the connections, and no mutex guards them. Here threads (numbered)
  are in \<open>lsp_listen\<close>, from the test of the port's list to the end; what comes before touches only the
  struct of the socket. A step is one access of one thread to the links or to the state of the port, in the order
  of the source; the memory is sequentially consistent. \<open>lsp_list_is_empty\<close> and \<open>lsp_list_for\<close> are expanded as in the
  header: both tests read \<open>head->next\<close> and \<open>head->prev\<close>, an iteration reads \<open>next\<close> of the cursor twice.
  Every program counter carries the socket and its port.
\<close>

datatype listen_pc =
    LIdle
  | LTestNext nat nat                                    \<comment> \<open>\<open>lsp_list_is_empty\<close> reads \<open>head->next\<close>\<close>
  | LTestPrev nat nat "pnode option"
  | LFetch nat nat                                       \<comment> \<open>\<open>lsp_list_add\<close> reads \<open>head->next\<close>\<close>
  | LForNext nat nat                                     \<comment> \<open>the test of the loop\<close>
  | LForPrev nat nat "pnode option"
  | LForFirst nat nat                                    \<comment> \<open>the cursor is set\<close>
  | LVisit nat nat "pnode option"                        \<comment> \<open>the priorities are compared\<close>
  | LPeek nat nat nat                                    \<comment> \<open>is \<open>next\<close> the head?\<close>
  | LAdvance nat nat nat                                 \<comment> \<open>the cursor is set to \<open>next\<close>\<close>
  | LBefore nat nat nat                                  \<comment> \<open>\<open>lsp_list_insert_before\<close> reads \<open>prev\<close>\<close>
  | LNextPrev nat nat "pnode option" "pnode option"      \<comment> \<open>the four writes of \<open>_lsp_list_add\<close>\<close>
  | LNewNext nat nat "pnode option" "pnode option"
  | LNewPrev nat nat "pnode option" "pnode option"
  | LPrevNext nat nat "pnode option" "pnode option"
  | LOpen nat nat                                        \<comment> \<open>the port opens\<close>
  | LDone nat nat
  | LCrash fault

record listen_sys =
  lst :: port_sys
  lpcs :: "nat \<Rightarrow> listen_pc"

subsection \<open>One access of one thread\<close>

definition l_read ::
  "(pnode option \<Rightarrow> listen_pc) \<Rightarrow> pnode option exec \<Rightarrow> port_sys \<Rightarrow> listen_pc \<times> port_sys" where
  "l_read k r st = (case r of Done v \<Rightarrow> (k v, st) | Fault e \<Rightarrow> (LCrash e, st) | Hang \<Rightarrow> (LIdle, st))"

definition l_write :: "listen_pc \<Rightarrow> pnode lheap exec \<Rightarrow> port_sys \<Rightarrow> listen_pc \<times> port_sys" where
  "l_write pc w st =
     (case w of Done h \<Rightarrow> (pc, st\<lparr>plinks := h\<rparr>) | Fault e \<Rightarrow> (LCrash e, st) | Hang \<Rightarrow> (LIdle, st))"

text \<open>\<open>sk->attr.priority < sock->attr.priority\<close>; there is no socket around the head of a list.\<close>

definition lower_priority :: "'z conn_sys_scheme \<Rightarrow> nat \<Rightarrow> nat \<Rightarrow> bool" where
  "lower_priority st i sk \<longleftrightarrow> priority (attr (conns st sk)) < priority (attr (conns st i))"

definition l_visit :: "nat \<Rightarrow> nat \<Rightarrow> pnode option \<Rightarrow> port_sys \<Rightarrow> listen_pc" where
  "l_visit i p c st =
     (case deref (plinks st) c of
        Done (ConnNode k) \<Rightarrow> if lower_priority st i k then LBefore i p k else LPeek i p k
      | Done (PortHead _) \<Rightarrow> LCrash OutOfBounds
      | Fault e \<Rightarrow> LCrash e
      | Hang \<Rightarrow> LIdle)"

fun listen_access :: "listen_pc \<Rightarrow> port_sys \<Rightarrow> (listen_pc \<times> port_sys) option" where
  "listen_access LIdle st = None"
| "listen_access (LTestNext i p) st =
     Some (l_read (LTestPrev i p) (rd_next (plinks st) (Some (PortHead p))) st)"
| "listen_access (LTestPrev i p nx) st =
     Some (l_read (\<lambda>pv. if nx = pv then LFetch i p else LForNext i p)
             (rd_prev (plinks st) (Some (PortHead p))) st)"
| "listen_access (LFetch i p) st =
     Some (l_read (LNextPrev i p (Some (PortHead p))) (rd_next (plinks st) (Some (PortHead p))) st)"
| "listen_access (LForNext i p) st =
     Some (l_read (LForPrev i p) (rd_next (plinks st) (Some (PortHead p))) st)"
| "listen_access (LForPrev i p nx) st =
     Some (l_read (\<lambda>pv. if nx \<noteq> pv then LForFirst i p else LOpen i p)
             (rd_prev (plinks st) (Some (PortHead p))) st)"
| "listen_access (LForFirst i p) st =
     Some (l_read (LVisit i p) (rd_next (plinks st) (Some (PortHead p))) st)"
| "listen_access (LVisit i p c) st = Some (l_visit i p c st, st)"
| "listen_access (LPeek i p k) st =
     Some (l_read (\<lambda>nx. if nx \<noteq> Some (PortHead p) then LAdvance i p k else LOpen i p)
             (rd_next (plinks st) (Some (ConnNode k))) st)"
| "listen_access (LAdvance i p k) st =
     Some (l_read (LVisit i p) (rd_next (plinks st) (Some (ConnNode k))) st)"
| "listen_access (LBefore i p k) st =
     Some (l_read (\<lambda>pv. LNextPrev i p pv (Some (ConnNode k))) (rd_prev (plinks st) (Some (ConnNode k))) st)"
| "listen_access (LNextPrev i p pv nx) st =
     Some (l_write (LNewNext i p pv nx) (wr_prev nx (Some (ConnNode i)) (plinks st)) st)"
| "listen_access (LNewNext i p pv nx) st =
     Some (l_write (LNewPrev i p pv nx) (wr_next (Some (ConnNode i)) nx (plinks st)) st)"
| "listen_access (LNewPrev i p pv nx) st =
     Some (l_write (LPrevNext i p pv nx) (wr_prev (Some (ConnNode i)) pv (plinks st)) st)"
| "listen_access (LPrevNext i p pv nx) st =
     Some (l_write (LOpen i p) (wr_next pv (Some (ConnNode i)) (plinks st)) st)"
| "listen_access (LOpen i p) st = Some (LDone i p, st\<lparr>port_state := (port_state st)(p := PORT_OPEN)\<rparr>)"
| "listen_access (LDone i p) st = None"
| "listen_access (LCrash e) st = None"

inductive listen_step :: "listen_sys \<Rightarrow> listen_sys \<Rightarrow> bool" where
  listen_go: "listen_access (lpcs s t) (lst s) = Some (pc, st) \<Longrightarrow>
     listen_step s \<lparr>lst = st, lpcs = (lpcs s)(t := pc)\<rparr>"

text \<open>The threads \<open>T\<close> have come to the list; each has a socket, a port and the sockets of that port, and no two have
  a node in common.\<close>

record listen_job =
  l_sock :: nat
  l_port :: nat
  l_list :: "nat list"

definition region :: "listen_job \<Rightarrow> pnode set" where
  "region j = {PortHead (l_port j), ConnNode (l_sock j)} \<union> ConnNode ` set (l_list j)"

definition job_ok :: "pnode lheap \<Rightarrow> listen_job \<Rightarrow> bool" where
  "job_ok h j \<longleftrightarrow> ring h (PortHead (l_port j)) (map ConnNode (l_list j))
     \<and> l_sock j \<notin> set (l_list j) \<and> lvalid h (ConnNode (l_sock j))"

definition listen_start :: "nat set \<Rightarrow> (nat \<Rightarrow> listen_job) \<Rightarrow> listen_sys \<Rightarrow> bool" where
  "listen_start T js s \<longleftrightarrow>
     (\<forall>t\<in>T. job_ok (plinks (lst s)) (js t) \<and> lpcs s t = LTestNext (l_sock (js t)) (l_port (js t)))
     \<and> (\<forall>t. t \<notin> T \<longrightarrow> lpcs s t = LIdle)
     \<and> (\<forall>t\<in>T. \<forall>u\<in>T. t \<noteq> u \<longrightarrow> region (js t) \<inter> region (js u) = {})"

subsection \<open>The invariant of one thread\<close>

definition agree :: "'a set \<Rightarrow> 'a lheap \<Rightarrow> 'a lheap \<Rightarrow> bool" where
  "agree R h h' \<longleftrightarrow> (\<forall>x\<in>R. lnext h x = lnext h' x \<and> lprev h x = lprev h' x \<and> lvalid h x = lvalid h' x)"

text \<open>Where the socket goes, and the links after the first writes of the insertion there.\<close>

definition place :: "(nat \<Rightarrow> bool) \<Rightarrow> listen_job \<Rightarrow> pnode \<Rightarrow> pnode \<Rightarrow> bool" where
  "place lower j pv nx \<longleftrightarrow> (\<exists>ys zs. l_list j = ys @ zs
     \<and> pv = last (PortHead (l_port j) # map ConnNode ys) \<and> nx = hd (map ConnNode zs @ [PortHead (l_port j)])
     \<and> listen_place lower (l_sock j) (l_list j) = ys @ l_sock j # zs)"

fun written :: "nat \<Rightarrow> pnode \<Rightarrow> pnode \<Rightarrow> pnode \<Rightarrow> pnode lheap \<Rightarrow> pnode lheap" where
  "written 0 n pv nx h = h"
| "written (Suc 0) n pv nx h = h\<lparr>lprev := (lprev h)(nx := Some n)\<rparr>"
| "written (Suc (Suc 0)) n pv nx h = h\<lparr>lnext := (lnext h)(n := Some nx), lprev := (lprev h)(nx := Some n)\<rparr>"
| "written _ n pv nx h = h\<lparr>lnext := (lnext h)(n := Some nx), lprev := (lprev h)(nx := Some n, n := Some pv)\<rparr>"

definition writing :: "(nat \<Rightarrow> bool) \<Rightarrow> listen_job \<Rightarrow> nat \<Rightarrow> pnode option \<Rightarrow> pnode option \<Rightarrow> pnode lheap \<Rightarrow> bool" where
  "writing lower j k pv nx h \<longleftrightarrow> (\<exists>h0 p q. job_ok h0 j \<and> pv = Some p \<and> nx = Some q \<and> place lower j p q
     \<and> agree (region j) h (written k (ConnNode (l_sock j)) p q h0))"

definition searching :: "(nat \<Rightarrow> bool) \<Rightarrow> listen_job \<Rightarrow> nat list \<Rightarrow> nat \<Rightarrow> nat list \<Rightarrow> bool" where
  "searching lower j ks k ms \<longleftrightarrow> l_list j = ks @ k # ms \<and> (\<forall>x\<in>set ks. \<not> lower x) \<and> 1 < length (l_list j)"

fun listen_ok :: "(nat \<Rightarrow> bool) \<Rightarrow> listen_job \<Rightarrow> listen_pc \<Rightarrow> pnode lheap \<Rightarrow> bool" where
  "listen_ok lower j (LTestNext i p) h \<longleftrightarrow> job_ok h j"
| "listen_ok lower j (LTestPrev i p nx) h \<longleftrightarrow> job_ok h j \<and> nx = lnext h (PortHead p)"
| "listen_ok lower j (LFetch i p) h \<longleftrightarrow> job_ok h j \<and> length (l_list j) \<le> 1"
| "listen_ok lower j (LForNext i p) h \<longleftrightarrow> job_ok h j \<and> 1 < length (l_list j)"
| "listen_ok lower j (LForPrev i p nx) h \<longleftrightarrow> job_ok h j \<and> 1 < length (l_list j) \<and> nx = lnext h (PortHead p)"
| "listen_ok lower j (LForFirst i p) h \<longleftrightarrow> job_ok h j \<and> 1 < length (l_list j)"
| "listen_ok lower j (LVisit i p c) h \<longleftrightarrow> job_ok h j \<and> (\<exists>ks k ms. c = Some (ConnNode k) \<and> searching lower j ks k ms)"
| "listen_ok lower j (LPeek i p k) h \<longleftrightarrow> job_ok h j \<and> \<not> lower k \<and> (\<exists>ks ms. searching lower j ks k ms)"
| "listen_ok lower j (LAdvance i p k) h \<longleftrightarrow> job_ok h j \<and> \<not> lower k \<and> (\<exists>ks ms. searching lower j ks k ms \<and> ms \<noteq> [])"
| "listen_ok lower j (LBefore i p k) h \<longleftrightarrow> job_ok h j \<and> lower k \<and> (\<exists>ks ms. searching lower j ks k ms)"
| "listen_ok lower j (LNextPrev i p pv nx) h \<longleftrightarrow> writing lower j 0 pv nx h"
| "listen_ok lower j (LNewNext i p pv nx) h \<longleftrightarrow> writing lower j 1 pv nx h"
| "listen_ok lower j (LNewPrev i p pv nx) h \<longleftrightarrow> writing lower j 2 pv nx h"
| "listen_ok lower j (LPrevNext i p pv nx) h \<longleftrightarrow> writing lower j 3 pv nx h"
| "listen_ok lower j (LOpen i p) h \<longleftrightarrow>
     ring h (PortHead (l_port j)) (map ConnNode (listen_place lower (l_sock j) (l_list j)))"
| "listen_ok lower j (LDone i p) h \<longleftrightarrow>
     ring h (PortHead (l_port j)) (map ConnNode (listen_place lower (l_sock j) (l_list j)))"
| "listen_ok lower j _ h \<longleftrightarrow> False"

text \<open>The socket and the port in a program counter.\<close>

fun pc_of :: "listen_pc \<Rightarrow> nat \<times> nat" where
  "pc_of (LTestNext i p) = (i, p)" | "pc_of (LTestPrev i p nx) = (i, p)" | "pc_of (LFetch i p) = (i, p)"
| "pc_of (LForNext i p) = (i, p)" | "pc_of (LForPrev i p nx) = (i, p)" | "pc_of (LForFirst i p) = (i, p)"
| "pc_of (LVisit i p c) = (i, p)" | "pc_of (LPeek i p k) = (i, p)" | "pc_of (LAdvance i p k) = (i, p)"
| "pc_of (LBefore i p k) = (i, p)" | "pc_of (LNextPrev i p pv nx) = (i, p)" | "pc_of (LNewNext i p pv nx) = (i, p)"
| "pc_of (LNewPrev i p pv nx) = (i, p)" | "pc_of (LPrevNext i p pv nx) = (i, p)" | "pc_of (LOpen i p) = (i, p)"
| "pc_of (LDone i p) = (i, p)" | "pc_of LIdle = (0, 0)" | "pc_of (LCrash e) = (0, 0)"

subsection \<open>What the others do does not matter\<close>

lemma agree_trans: "agree R h1 h2 \<Longrightarrow> agree R h2 h3 \<Longrightarrow> agree R h1 h3"
  by (simp add: agree_def)

lemma agree_outside: "same_outside S h h' \<Longrightarrow> R \<inter> S = {} \<Longrightarrow> agree R h' h"
  by (auto simp: agree_def same_outside_def)

lemma ring_agree:
  assumes "ring h head xs" "agree R h' h" "set (head # xs) \<subseteq> R"
  shows "ring h' head xs"
proof -
  have s: "lnext h' a = lnext h a \<and> lprev h' a = lprev h a \<and> lvalid h' a = lvalid h a"
    if "a \<in> set (head # xs @ [head])" for a
    using assms(2,3) that by (auto simp: agree_def)
  have "linked h' (head # xs @ [head]) = linked h (head # xs @ [head])"
    by (rule linked_frame) (use s in \<open>auto dest: in_set_butlastD\<close>)
  with assms(1) s show ?thesis
    by (auto simp: ring_def)
qed

lemma region_list: "set (PortHead (l_port j) # map ConnNode (l_list j)) \<subseteq> region j"
  "ConnNode (l_sock j) \<in> region j" "PortHead (l_port j) \<in> region j"
  by (auto simp: region_def)

lemma listen_place_region: "set (PortHead (l_port j) # map ConnNode (listen_place lower (l_sock j) (l_list j))) \<subseteq> region j"
  by (auto simp: region_def listen_place_def dest: set_takeWhileD set_dropWhileD)

lemma job_agree: "job_ok h j \<Longrightarrow> agree (region j) h' h \<Longrightarrow> job_ok h' j"
  using ring_agree [OF _ _ region_list(1)] region_list(2) by (auto simp: job_ok_def agree_def)

lemma listen_ok_agree:
  assumes "listen_ok lower j pc h" "pc_of pc = (l_sock j, l_port j)" "agree (region j) h' h"
  shows "listen_ok lower j pc h'"
proof -
  note job = job_agree [OF _ assms(3)]
  have nx: "lnext h' (PortHead (l_port j)) = lnext h (PortHead (l_port j))"
    using assms(3) region_list(3) by (auto simp: agree_def)
  have wr: "writing lower j k pv nx h \<Longrightarrow> writing lower j k pv nx h'" for k pv nx
    using agree_trans [OF assms(3)] unfolding writing_def by blast
  have rg: "ring h (PortHead (l_port j)) (map ConnNode (listen_place lower (l_sock j) (l_list j))) \<Longrightarrow>
      ring h' (PortHead (l_port j)) (map ConnNode (listen_place lower (l_sock j) (l_list j)))"
    using ring_agree [OF _ assms(3) listen_place_region] .
  show ?thesis
    using assms(1,2) job nx wr rg by (cases pc) auto
qed

subsection \<open>One access keeps the invariant of its thread\<close>

lemma job_ring:
  assumes "job_ok h j"
  shows "ring h (PortHead (l_port j)) (map ConnNode (l_list j))" "lvalid h (PortHead (l_port j))"
    "lvalid h (ConnNode (l_sock j))" "l_sock j \<notin> set (l_list j)"
    "lnext h (PortHead (l_port j)) = Some (hd (map ConnNode (l_list j) @ [PortHead (l_port j)]))"
    "lprev h (PortHead (l_port j)) = Some (last (PortHead (l_port j) # map ConnNode (l_list j)))"
proof -
  show r: "ring h (PortHead (l_port j)) (map ConnNode (l_list j))" and "lvalid h (ConnNode (l_sock j))"
    and "l_sock j \<notin> set (l_list j)"
    using assms by (simp_all add: job_ok_def)
  show "lvalid h (PortHead (l_port j))"
    using r by (simp add: ring_def)
  show "lnext h (PortHead (l_port j)) = Some (hd (map ConnNode (l_list j) @ [PortHead (l_port j)]))"
    using ring_first [OF r] .
  show "lprev h (PortHead (l_port j)) = Some (last (PortHead (l_port j) # map ConnNode (l_list j)))"
    using ring_last [OF r] .
qed

lemma ends_equal:
  assumes "distinct (head # xs)"
  shows "hd (xs @ [head]) = last (head # xs) \<longleftrightarrow> length xs \<le> 1"
proof (cases xs)
  case (Cons x ys)
  with assms show ?thesis
    by (cases ys rule: rev_cases) auto
qed simp

lemma job_test:
  assumes "job_ok h j"
  shows "lnext h (PortHead (l_port j)) = lprev h (PortHead (l_port j)) \<longleftrightarrow> length (l_list j) \<le> 1"
proof -
  have "distinct (PortHead (l_port j) # map ConnNode (l_list j))"
    using job_ring(1) [OF assms] by (simp add: ring_def)
  from ends_equal [OF this] show ?thesis
    using job_ring(5,6) [OF assms] by simp
qed

lemma job_at:
  assumes "job_ok h j" "l_list j = ks @ k # ms"
  shows "lvalid h (ConnNode k)"
    "lnext h (ConnNode k) = Some (hd (map ConnNode ms @ [PortHead (l_port j)]))"
    "lprev h (ConnNode k) = Some (last (PortHead (l_port j) # map ConnNode ks))"
proof -
  have "ring h (PortHead (l_port j)) (map ConnNode (ks @ [k]) @ map ConnNode ms)"
    "ring h (PortHead (l_port j)) (map ConnNode ks @ map ConnNode (k # ms))"
    using job_ring(1) [OF assms(1)] assms(2) by simp_all
  from ring_cut(1) [OF this(1)] ring_cut(2) [OF this(2)] ring_validD [OF this(1), of "ConnNode k"]
  show "lvalid h (ConnNode k)"
    "lnext h (ConnNode k) = Some (hd (map ConnNode ms @ [PortHead (l_port j)]))"
    "lprev h (ConnNode k) = Some (last (PortHead (l_port j) # map ConnNode ks))"
    by simp_all
qed

lemma place_front:
  "length (l_list j) \<le> 1 \<Longrightarrow>
   place lower j (PortHead (l_port j)) (hd (map ConnNode (l_list j) @ [PortHead (l_port j)]))"
  unfolding place_def by (rule exI [of _ "[]"], rule exI [of _ "l_list j"]) (simp add: listen_place_def)

lemma place_before:
  assumes "searching lower j ks k ms" "lower k"
  shows "place lower j (last (PortHead (l_port j) # map ConnNode ks)) (ConnNode k)"
proof -
  have "takeWhile (\<lambda>k. \<not> lower k) (l_list j) = ks" "dropWhile (\<lambda>k. \<not> lower k) (l_list j) = k # ms"
    using assms by (auto simp: searching_def takeWhile_append dropWhile_append)
  then have "listen_place lower (l_sock j) (l_list j) = ks @ l_sock j # k # ms"
    using assms by (auto simp: searching_def listen_place_def)
  then show ?thesis
    using assms(1) unfolding place_def searching_def by (intro exI [of _ ks] exI [of _ "k # ms"]) simp
qed

lemma place_none:
  "\<not> (\<exists>k\<in>set (l_list j). lower k) \<Longrightarrow> 1 < length (l_list j) \<Longrightarrow> listen_place lower (l_sock j) (l_list j) = l_list j"
  by (simp add: listen_place_def)

lemma place_nodes:
  assumes "place lower j p q" "job_ok h j"
  shows "p \<in> set (PortHead (l_port j) # map ConnNode (l_list j))" "q \<in> set (PortHead (l_port j) # map ConnNode (l_list j))"
    "p \<noteq> ConnNode (l_sock j)" "q \<noteq> ConnNode (l_sock j)" "lvalid h p" "lvalid h q"
    "ring (link_between (ConnNode (l_sock j)) p q h) (PortHead (l_port j))
       (map ConnNode (listen_place lower (l_sock j) (l_list j)))"
proof -
  obtain ys zs where pl: "l_list j = ys @ zs" "p = last (PortHead (l_port j) # map ConnNode ys)"
    "q = hd (map ConnNode zs @ [PortHead (l_port j)])" "listen_place lower (l_sock j) (l_list j) = ys @ l_sock j # zs"
    using assms(1) by (auto simp: place_def)
  show p: "p \<in> set (PortHead (l_port j) # map ConnNode (l_list j))"
    using ring_neighbours(1) [of "PortHead (l_port j)" "map ConnNode ys"] pl(1,2) by auto
  show q: "q \<in> set (PortHead (l_port j) # map ConnNode (l_list j))"
    using ring_neighbours(2) [of "map ConnNode zs" "PortHead (l_port j)"] pl(1,3) by auto
  show "p \<noteq> ConnNode (l_sock j)" "q \<noteq> ConnNode (l_sock j)"
    using p q job_ring(4) [OF assms(2)] by auto
  show "lvalid h p" "lvalid h q"
    using p q ring_validD [OF job_ring(1) [OF assms(2)]] by blast+
  show "ring (link_between (ConnNode (l_sock j)) p q h) (PortHead (l_port j))
       (map ConnNode (listen_place lower (l_sock j) (l_list j)))"
    using ring_link_between [of h "PortHead (l_port j)" "map ConnNode ys" "map ConnNode zs" "ConnNode (l_sock j)"]
      job_ring [OF assms(2)] pl by auto
qed

text \<open>The four writes.\<close>

lemma write_region:
  assumes "agree R h (g h0)" "x \<in> R" "lvalid (g h0) x"
  shows "lvalid h x" and "same_outside R h (h\<lparr>lnext := (lnext h)(x := v)\<rparr>)"
    and "same_outside R h (h\<lparr>lprev := (lprev h)(x := v)\<rparr>)"
  using assms by (auto simp: agree_def same_outside_def)

lemma writing_step:
  assumes "writing lower j k pv nx h" "k < 4"
  defines "n \<equiv> ConnNode (l_sock j)"
  shows "\<exists>p q. pv = Some p \<and> nx = Some q \<and> lvalid h p \<and> lvalid h q \<and> lvalid h n \<and> p \<in> region j \<and> q \<in> region j"
    and "k = 0 \<Longrightarrow> nx = Some q \<Longrightarrow> writing lower j 1 pv nx (h\<lparr>lprev := (lprev h)(q := Some n)\<rparr>)"
    and "k = 1 \<Longrightarrow> writing lower j 2 pv nx (h\<lparr>lnext := (lnext h)(n := nx)\<rparr>)"
    and "k = 2 \<Longrightarrow> writing lower j 3 pv nx (h\<lparr>lprev := (lprev h)(n := pv)\<rparr>)"
    and "k = 3 \<Longrightarrow> pv = Some p \<Longrightarrow> ring (h\<lparr>lnext := (lnext h)(p := Some n)\<rparr>) (PortHead (l_port j))
           (map ConnNode (listen_place lower (l_sock j) (l_list j)))"
proof -
  obtain h0 p0 q0 where w: "job_ok h0 j" "pv = Some p0" "nx = Some q0" "place lower j p0 q0"
    "agree (region j) h (written k n p0 q0 h0)"
    using assms(1) by (auto simp: writing_def n_def)
  note nodes = place_nodes [OF w(4,1), folded n_def]
  have reg: "p0 \<in> region j" "q0 \<in> region j" "n \<in> region j"
    using nodes(1,2) region_list by (auto simp: n_def)
  have val: "lvalid (written k n p0 q0 h0) = lvalid h0"
    by (cases "(k, n, p0, q0, h0)" rule: written.cases) simp_all
  then show "\<exists>p q. pv = Some p \<and> nx = Some q \<and> lvalid h p \<and> lvalid h q \<and> lvalid h n \<and> p \<in> region j \<and> q \<in> region j"
    using w reg nodes(5,6) job_ring(3) [OF w(1)] by (auto simp: agree_def n_def)
  show "writing lower j 1 pv nx (h\<lparr>lprev := (lprev h)(q := Some n)\<rparr>)" if "k = 0" "nx = Some q"
    unfolding writing_def using w that
    by (intro exI [of _ h0] exI [of _ p0] exI [of _ q0]) (auto simp: agree_def n_def)
  show "writing lower j 2 pv nx (h\<lparr>lnext := (lnext h)(n := nx)\<rparr>)" if "k = 1"
    unfolding writing_def using w that
    by (intro exI [of _ h0] exI [of _ p0] exI [of _ q0]) (auto simp: agree_def n_def numeral_2_eq_2)
  show "writing lower j 3 pv nx (h\<lparr>lprev := (lprev h)(n := pv)\<rparr>)" if "k = 2"
    unfolding writing_def using w that
    by (intro exI [of _ h0] exI [of _ p0] exI [of _ q0]) (auto simp: agree_def n_def numeral_2_eq_2 numeral_3_eq_3)
  show "ring (h\<lparr>lnext := (lnext h)(p := Some n)\<rparr>) (PortHead (l_port j))
      (map ConnNode (listen_place lower (l_sock j) (l_list j)))" if "k = 3" "pv = Some p"
  proof (rule ring_agree [OF nodes(7) _ listen_place_region])
    show "agree (region j) (h\<lparr>lnext := (lnext h)(p := Some n)\<rparr>) (link_between n p0 q0 h0)"
      using w that nodes(3) by (auto simp: agree_def link_between_def numeral_3_eq_3)
  qed
qed

text \<open>One access of a thread: its own invariant, and what it leaves alone.\<close>

definition keeps_rest :: "listen_job \<Rightarrow> port_sys \<Rightarrow> port_sys \<Rightarrow> bool" where
  "keeps_rest j st st' \<longleftrightarrow> same_outside (region j) (plinks st) (plinks st') \<and> conns st' = conns st
     \<and> (\<forall>q. q \<noteq> l_port j \<longrightarrow> port_state st' q = port_state st q)"

lemma keeps_same [simp]: "keeps_rest j st st"
  by (simp add: keeps_rest_def same_outside_def)

lemma keeps_write:
  "x \<in> region j \<Longrightarrow> keeps_rest j st (st\<lparr>plinks := (plinks st)\<lparr>lnext := (lnext (plinks st))(x := v)\<rparr>\<rparr>)"
  "x \<in> region j \<Longrightarrow> keeps_rest j st (st\<lparr>plinks := (plinks st)\<lparr>lprev := (lprev (plinks st))(x := v)\<rparr>\<rparr>)"
  by (auto simp: keeps_rest_def same_outside_def)

lemma l_read_done:
  "l_read k (rd_next h (Some a)) st = (if lvalid h a then (k (lnext h a), st) else (LCrash BadPtr, st))"
  "l_read k (rd_prev h (Some a)) st = (if lvalid h a then (k (lprev h a), st) else (LCrash BadPtr, st))"
  by (simp_all add: l_read_def link_defs)

lemma l_write_done:
  "l_write pc (wr_next (Some a) v h) st
     = (if lvalid h a then (pc, st\<lparr>plinks := h\<lparr>lnext := (lnext h)(a := v)\<rparr>\<rparr>) else (LCrash BadPtr, st))"
  "l_write pc (wr_prev (Some a) v h) st
     = (if lvalid h a then (pc, st\<lparr>plinks := h\<lparr>lprev := (lprev h)(a := v)\<rparr>\<rparr>) else (LCrash BadPtr, st))"
  by (simp_all add: l_write_def link_defs)

lemma searching_next:
  assumes "searching lower j ks k ms" "\<not> lower k" "ms \<noteq> []"
  shows "searching lower j (ks @ [k]) (hd ms) (tl ms)"
  using assms by (auto simp: searching_def)

lemma searching_end:
  assumes "searching lower j ks k []" "\<not> lower k"
  shows "listen_place lower (l_sock j) (l_list j) = l_list j"
  using assms by (intro place_none) (auto simp: searching_def)

lemma searching_first:
  assumes "1 < length (l_list j)"
  shows "searching lower j [] (hd (l_list j)) (tl (l_list j))"
  using assms by (cases "l_list j") (auto simp: searching_def)

lemma visit_ok:
  "job_ok h j \<Longrightarrow> searching lower j ks k ms \<Longrightarrow> listen_ok lower j (LVisit i p (Some (ConnNode k))) h"
  "job_ok h j \<Longrightarrow> searching lower j ks k ms \<Longrightarrow> \<not> lower k \<Longrightarrow> listen_ok lower j (LPeek i p k) h"
  "job_ok h j \<Longrightarrow> searching lower j ks k ms \<Longrightarrow> \<not> lower k \<Longrightarrow> ms \<noteq> [] \<Longrightarrow> listen_ok lower j (LAdvance i p k) h"
  "job_ok h j \<Longrightarrow> searching lower j ks k ms \<Longrightarrow> lower k \<Longrightarrow> listen_ok lower j (LBefore i p k) h"
  unfolding listen_ok.simps by blast+

lemma listen_search_ok:
  assumes "listen_ok lower j pc (plinks st)" "pc_of pc = (l_sock j, l_port j)"
    and "lower = lower_priority st (l_sock j)" "listen_access pc st = Some (pc', st')"
    and "job_ok (plinks st) j" "\<forall>i p pv nx. pc \<noteq> LNextPrev i p pv nx"
    and "\<forall>i p pv nx. pc \<noteq> LNewNext i p pv nx" "\<forall>i p pv nx. pc \<noteq> LNewPrev i p pv nx"
    and "\<forall>i p pv nx. pc \<noteq> LPrevNext i p pv nx" "\<forall>i p. pc \<noteq> LOpen i p"
  shows "st' = st \<and> listen_ok lower j pc' (plinks st) \<and> pc_of pc' = pc_of pc \<and> (\<forall>i p. pc' \<noteq> LDone i p)"
proof -
  note r = job_ring [OF assms(5)] and test = job_test [OF assms(5)]
  show ?thesis
  proof (cases pc)
    case (LTestPrev i p nx)
    then show ?thesis
      using assms(1,2,4) r test by (auto simp: l_read_done not_le)
  next
    case (LFetch i p)
    then have "writing lower j 0 (Some (PortHead p)) (lnext (plinks st) (PortHead p)) (plinks st)"
      using assms(1,2,5) r(5) place_front [of j lower] by (auto simp: writing_def agree_def)
    with LFetch show ?thesis
      using assms(2,4) r by (auto simp: l_read_done)
  next
    case (LForPrev i p nx)
    then show ?thesis
      using assms(1,2,4) r test by (auto simp: l_read_done)
  next
    case (LForFirst i p)
    then have len: "1 < length (l_list j)"
      using assms(1) by simp
    then have "lnext (plinks st) (PortHead p) = Some (ConnNode (hd (l_list j)))"
      using LForFirst r(5) assms(2) by (cases "l_list j") auto
    then have "pc' = LVisit i p (Some (ConnNode (hd (l_list j))))" "st' = st"
      using LForFirst assms(2,4) r(2) by (auto simp: l_read_done)
    with LForFirst show ?thesis
      using visit_ok(1) [OF assms(5) searching_first [OF len]] by (simp del: listen_ok.simps)
  next
    case (LVisit i p c)
    then obtain ks k ms where v: "c = Some (ConnNode k)" "searching lower j ks k ms"
      using assms(1) by auto
    then have "lvalid (plinks st) (ConnNode k)"
      using job_at(1) [OF assms(5)] by (auto simp: searching_def)
    then have "pc' = (if lower k then LBefore i p k else LPeek i p k)" "st' = st"
      using LVisit v(1) assms(2-4) by (auto simp: l_visit_def)
    with LVisit show ?thesis
      using visit_ok(2,4) [OF assms(5) v(2)] by (simp del: listen_ok.simps)
  next
    case (LPeek i p k)
    then obtain ks ms where v: "searching lower j ks k ms" "\<not> lower k"
      using assms(1) by auto
    then have at: "lvalid (plinks st) (ConnNode k)"
      "lnext (plinks st) (ConnNode k) = Some (hd (map ConnNode ms @ [PortHead (l_port j)]))"
      using job_at [OF assms(5)] by (auto simp: searching_def)
    have "lnext (plinks st) (ConnNode k) = Some (PortHead p) \<longleftrightarrow> ms = []"
      using at(2) assms(2) LPeek by (cases ms) auto
    then have "pc' = (if ms = [] then LOpen i p else LAdvance i p k)" "st' = st"
      using LPeek at(1) assms(4) by (simp_all add: l_read_done split: if_splits)
    moreover have "listen_ok lower j (LOpen i p) (plinks st)" if "ms = []"
      using searching_end [of lower j ks k] v that r(1) by simp
    ultimately show ?thesis
      using LPeek visit_ok(3) [OF assms(5) v] by (simp del: listen_ok.simps)
  next
    case (LAdvance i p k)
    then obtain ks ms where v: "searching lower j ks k ms" "\<not> lower k" "ms \<noteq> []"
      using assms(1) by auto
    then have "lvalid (plinks st) (ConnNode k)" "lnext (plinks st) (ConnNode k) = Some (ConnNode (hd ms))"
      using job_at [OF assms(5)] by (cases ms; auto simp: searching_def)+
    then have "pc' = LVisit i p (Some (ConnNode (hd ms)))" "st' = st"
      using LAdvance assms(4) by (auto simp: l_read_done)
    with LAdvance show ?thesis
      using visit_ok(1) [OF assms(5) searching_next [OF v]] by (simp del: listen_ok.simps)
  next
    case (LBefore i p k)
    then obtain ks ms where v: "searching lower j ks k ms" "lower k"
      using assms(1) by auto
    then have at: "lvalid (plinks st) (ConnNode k)"
      "lprev (plinks st) (ConnNode k) = Some (last (PortHead (l_port j) # map ConnNode ks))"
      using job_at [OF assms(5)] by (auto simp: searching_def)
    then have "writing lower j 0 (lprev (plinks st) (ConnNode k)) (Some (ConnNode k)) (plinks st)"
      using assms(5) place_before [OF v] by (auto simp: writing_def agree_def)
    with LBefore at(1) show ?thesis
      using assms(2,4) by (auto simp: l_read_done)
  qed (use assms r in \<open>auto simp: l_read_done\<close>)
qed

lemma listen_access_ok:
  assumes "listen_ok lower j pc (plinks st)" "pc_of pc = (l_sock j, l_port j)"
    and "lower = lower_priority st (l_sock j)" "listen_access pc st = Some (pc', st')"
  shows "listen_ok lower j pc' (plinks st') \<and> pc_of pc' = pc_of pc \<and> keeps_rest j st st'
    \<and> ((\<exists>i p. pc' = LDone i p) \<longrightarrow> port_state st' (l_port j) = PORT_OPEN)"
proof -
  note wr = l_write_done writing_step(1) keeps_write region_list
  consider i p pv nx where "pc = LNextPrev i p pv nx" | i p pv nx where "pc = LNewNext i p pv nx"
    | i p pv nx where "pc = LNewPrev i p pv nx" | i p pv nx where "pc = LPrevNext i p pv nx"
    | i p where "pc = LOpen i p"
    | "\<forall>i p pv nx. pc \<noteq> LNextPrev i p pv nx" "\<forall>i p pv nx. pc \<noteq> LNewNext i p pv nx"
      "\<forall>i p pv nx. pc \<noteq> LNewPrev i p pv nx" "\<forall>i p pv nx. pc \<noteq> LPrevNext i p pv nx" "\<forall>i p. pc \<noteq> LOpen i p"
    by (cases pc) auto
  then show ?thesis
  proof cases
    case 1
    then have w: "writing lower j 0 pv nx (plinks st)"
      using assms(1) by simp
    from writing_step(1) [OF w] obtain q where "nx = Some q" "lvalid (plinks st) q" "q \<in> region j"
      by auto
    then show ?thesis
      using 1 assms(2,4) writing_step(2) [OF w _ refl, of q] by (auto simp: l_write_done keeps_write)
  next
    case 2
    then have w: "writing lower j 1 pv nx (plinks st)"
      using assms(1) by simp
    from writing_step(1) [OF w] have "lvalid (plinks st) (ConnNode (l_sock j))"
      by auto
    then show ?thesis
      using 2 assms(2,4) writing_step(3) [OF w] region_list(2) by (auto simp: l_write_done keeps_write)
  next
    case 3
    then have w: "writing lower j 2 pv nx (plinks st)"
      using assms(1) by simp
    from writing_step(1) [OF w] have "lvalid (plinks st) (ConnNode (l_sock j))"
      by auto
    then show ?thesis
      using 3 assms(2,4) writing_step(4) [OF w] region_list(2) by (auto simp: l_write_done keeps_write)
  next
    case 4
    then have w: "writing lower j 3 pv nx (plinks st)"
      using assms(1) by simp
    from writing_step(1) [OF w] obtain p' where "pv = Some p'" "lvalid (plinks st) p'" "p' \<in> region j"
      by auto
    then show ?thesis
      using 4 assms(2,4) writing_step(5) [OF w _ refl, of p'] by (auto simp: l_write_done keeps_write)
  next
    case 5
    then show ?thesis
      using assms(1,2,4) by (auto simp: keeps_rest_def same_outside_def)
  next
    case 6
    then have "job_ok (plinks st) j"
      using assms(1,4) by (cases pc) auto
    from listen_search_ok [OF assms(1-4) this 6] show ?thesis
      by auto
  qed
qed

subsection \<open>How many accesses a thread has left\<close>

definition from_socket :: "listen_job \<Rightarrow> nat \<Rightarrow> nat" where
  "from_socket j k = length (dropWhile (\<lambda>x. x \<noteq> k) (l_list j))"

fun todo :: "listen_job \<Rightarrow> listen_pc \<Rightarrow> nat" where
  "todo j (LTestNext i p) = 3 * length (l_list j) + 13"
| "todo j (LTestPrev i p nx) = 3 * length (l_list j) + 12"
| "todo j (LForNext i p) = 3 * length (l_list j) + 11"
| "todo j (LForPrev i p nx) = 3 * length (l_list j) + 10"
| "todo j (LForFirst i p) = 3 * length (l_list j) + 9"
| "todo j (LVisit i p (Some (ConnNode k))) = 3 * from_socket j k + 8"
| "todo j (LPeek i p k) = 3 * from_socket j k + 7"
| "todo j (LAdvance i p k) = 3 * from_socket j k + 6"
| "todo j (LFetch i p) = 6"
| "todo j (LBefore i p k) = 6"
| "todo j (LNextPrev i p pv nx) = 5"
| "todo j (LNewNext i p pv nx) = 4"
| "todo j (LNewPrev i p pv nx) = 3"
| "todo j (LPrevNext i p pv nx) = 2"
| "todo j (LOpen i p) = 1"
| "todo j _ = 0"

lemma from_socket_at:
  assumes "job_ok h j" "l_list j = ks @ k # ms"
  shows "from_socket j k = Suc (length ms)"
proof -
  have "distinct (l_list j)"
    using job_ring(1) [OF assms(1)] by (simp add: ring_def distinct_map)
  then have "k \<notin> set ks"
    using assms(2) by simp
  then have "dropWhile (\<lambda>x. x \<noteq> k) (l_list j) = k # ms"
    unfolding assms(2) by (induction ks) auto
  then show ?thesis
    by (simp add: from_socket_def)
qed

lemma todo_less:
  assumes "listen_ok lower j pc (plinks st)" "pc_of pc = (l_sock j, l_port j)"
    and "lower = lower_priority st (l_sock j)" "listen_access pc st = Some (pc', st')"
  shows "todo j pc' < todo j pc"
proof -
  have crash: "listen_ok lower j pc' (plinks st')"
    using listen_access_ok [OF assms] by simp
  show ?thesis
  proof (cases pc)
    case (LForFirst i p)
    then have job: "job_ok (plinks st) j" and len: "1 < length (l_list j)"
      using assms(1) by simp_all
    then obtain k ms where l: "l_list j = [] @ k # ms"
      by (cases "l_list j") auto
    then have "pc' = LVisit i p (Some (ConnNode k))"
      using LForFirst assms(2,4) job_ring [OF job] by (auto simp: l_read_done)
    then show ?thesis
      using LForFirst from_socket_at [OF job l] l by simp
  next
    case (LVisit i p c)
    then show ?thesis
      using assms(1,4) crash by (auto simp: l_visit_def split: option.splits exec.splits pnode.splits if_splits)
  next
    case (LAdvance i p k)
    then obtain ks ms where v: "searching lower j ks k ms" "\<not> lower k" "ms \<noteq> []" and job: "job_ok (plinks st) j"
      using assms(1) by auto
    then obtain m r where m: "ms = m # r"
      by (cases ms) auto
    then have l: "l_list j = ks @ k # m # r" "l_list j = (ks @ [k]) @ m # r"
      using v by (simp_all add: searching_def)
    then have "pc' = LVisit i p (Some (ConnNode m))"
      using LAdvance assms(4) job_at [OF job l(1)] by (auto simp: l_read_done)
    then show ?thesis
      using LAdvance from_socket_at [OF job l(1)] from_socket_at [OF job l(2)] by simp
  qed (use assms(4) crash in \<open>auto simp: l_read_def l_write_def split: exec.splits if_splits\<close>)
qed

subsection \<open>All threads\<close>

definition listen_inv :: "nat set \<Rightarrow> (nat \<Rightarrow> listen_job) \<Rightarrow> listen_sys \<Rightarrow> listen_sys \<Rightarrow> bool" where
  "listen_inv T js s0 s \<longleftrightarrow> conns (lst s) = conns (lst s0) \<and> (\<forall>t. t \<notin> T \<longrightarrow> lpcs s t = LIdle)
     \<and> (\<forall>t\<in>T. listen_ok (lower_priority (lst s0) (l_sock (js t))) (js t) (lpcs s t) (plinks (lst s))
          \<and> pc_of (lpcs s t) = (l_sock (js t), l_port (js t))
          \<and> ((\<exists>i p. lpcs s t = LDone i p) \<longrightarrow> port_state (lst s) (l_port (js t)) = PORT_OPEN))
     \<and> same_outside (\<Union>t\<in>T. region (js t)) (plinks (lst s0)) (plinks (lst s))
     \<and> (\<forall>q. q \<notin> (\<lambda>t. l_port (js t)) ` T \<longrightarrow> port_state (lst s) q = port_state (lst s0) q)"

lemma listen_inv_start: "listen_start T js s \<Longrightarrow> listen_inv T js s s"
  by (auto simp: listen_start_def listen_inv_def same_outside_def)

lemma ports_apart:
  assumes "listen_start T js s" "t \<in> T" "u \<in> T" "t \<noteq> u"
  shows "region (js t) \<inter> region (js u) = {}" "l_port (js t) \<noteq> l_port (js u)"
proof -
  show d: "region (js t) \<inter> region (js u) = {}"
    using assms by (simp add: listen_start_def)
  show "l_port (js t) \<noteq> l_port (js u)"
  proof
    assume "l_port (js t) = l_port (js u)"
    then show False
      using d region_list(3) [of "js t"] region_list(3) [of "js u"] by auto
  qed
qed

lemma listen_inv_step:
  assumes "listen_step s s'" "listen_inv T js s0 s" "listen_start T js s0"
  shows "listen_inv T js s0 s' \<and> (\<exists>u\<in>T. todo (js u) (lpcs s' u) < todo (js u) (lpcs s u)
    \<and> (\<forall>t. t \<noteq> u \<longrightarrow> lpcs s' t = lpcs s t))"
  using assms(1)
proof cases
  case (listen_go u pc st)
  have u: "u \<in> T"
    using assms(2) listen_go(2) by (cases "u \<in> T") (auto simp: listen_inv_def)
  let ?low = "\<lambda>t. lower_priority (lst s0) (l_sock (js t))"
  have low: "?low u = lower_priority (lst s) (l_sock (js u))"
    using assms(2) by (simp add: listen_inv_def lower_priority_def fun_eq_iff)
  have ok: "listen_ok (?low u) (js u) (lpcs s u) (plinks (lst s))" "pc_of (lpcs s u) = (l_sock (js u), l_port (js u))"
    using assms(2) u by (simp_all add: listen_inv_def)
  note step = listen_access_ok [OF ok low listen_go(2)]
  have rest: "keeps_rest (js u) (lst s) st"
    using step by simp
  have other: "listen_ok (?low t) (js t) (lpcs s t) (plinks st) \<and> port_state st (l_port (js t)) = port_state (lst s) (l_port (js t))"
    if "t \<in> T" "t \<noteq> u" for t
  proof
    have "agree (region (js t)) (plinks st) (plinks (lst s))"
      using rest ports_apart(1) [OF assms(3) that(1) u that(2)] by (intro agree_outside) (auto simp: keeps_rest_def)
    then show "listen_ok (?low t) (js t) (lpcs s t) (plinks st)"
      using assms(2) that(1) by (intro listen_ok_agree [OF _ _ \<open>agree _ _ _\<close>]) (simp_all add: listen_inv_def)
    show "port_state st (l_port (js t)) = port_state (lst s) (l_port (js t))"
      using rest ports_apart(2) [OF assms(3) that(1) u that(2)] by (simp add: keeps_rest_def)
  qed
  have inv: "conns (lst s) = conns (lst s0)" "\<forall>t. t \<notin> T \<longrightarrow> lpcs s t = LIdle"
    "same_outside (\<Union>t\<in>T. region (js t)) (plinks (lst s0)) (plinks (lst s))"
    "\<forall>q. q \<notin> (\<lambda>t. l_port (js t)) ` T \<longrightarrow> port_state (lst s) q = port_state (lst s0) q"
    "\<forall>t\<in>T. pc_of (lpcs s t) = (l_sock (js t), l_port (js t))
      \<and> ((\<exists>i p. lpcs s t = LDone i p) \<longrightarrow> port_state (lst s) (l_port (js t)) = PORT_OPEN)"
    using assms(2) unfolding listen_inv_def by blast+
  have s': "lst s' = st" "lpcs s' u = pc" "\<And>t. t \<noteq> u \<Longrightarrow> lpcs s' t = lpcs s t"
    using listen_go(1) by simp_all
  have "same_outside (\<Union>t\<in>T. region (js t)) (plinks (lst s0)) (plinks st)"
    using rest inv(3) u unfolding keeps_rest_def same_outside_def by fastforce
  moreover have "\<forall>q. q \<notin> (\<lambda>t. l_port (js t)) ` T \<longrightarrow> port_state st q = port_state (lst s0) q"
  proof (intro allI impI)
    fix q assume q: "q \<notin> (\<lambda>t. l_port (js t)) ` T"
    then have "q \<noteq> l_port (js u)"
      using u by blast
    with q rest inv(4) show "port_state st q = port_state (lst s0) q"
      by (simp add: keeps_rest_def)
  qed
  moreover have "conns st = conns (lst s0)"
    using rest inv(1) by (simp add: keeps_rest_def)
  moreover have "\<forall>t. t \<notin> T \<longrightarrow> lpcs s' t = LIdle"
    using inv(2) s'(3) u by metis
  moreover have "listen_ok (?low t) (js t) (lpcs s' t) (plinks st) \<and> pc_of (lpcs s' t) = (l_sock (js t), l_port (js t))
      \<and> ((\<exists>i p. lpcs s' t = LDone i p) \<longrightarrow> port_state st (l_port (js t)) = PORT_OPEN)" if "t \<in> T" for t
  proof (cases "t = u")
    case True
    then show ?thesis
      using step s'(2) ok(2) by simp
  next
    case False
    then show ?thesis
      using other [OF that False] s'(3) inv(5) that by simp
  qed
  ultimately have "listen_inv T js s0 s'"
    unfolding listen_inv_def s'(1) by blast
  then show ?thesis
    using todo_less [OF ok low listen_go(2)] u s'(2,3) by (intro conjI bexI [of _ u]) auto
qed

interpretation listeners: step_invariant "\<lambda>s. listen_start T js s0 \<and> s = s0" listen_step
  "\<lambda>s. listen_start T js s0 \<and> listen_inv T js s0 s" for T js s0
  by unfold_locales (use listen_inv_start listen_inv_step in blast)+

lemma todo_sum:
  assumes "(listen_step ^^ k) s0 s" "listen_start T js s0" "finite T"
  shows "k + (\<Sum>t\<in>T. todo (js t) (lpcs s t)) \<le> (\<Sum>t\<in>T. todo (js t) (lpcs s0 t))"
  using assms(1)
proof (induction k arbitrary: s)
  case (Suc k)
  then obtain s1 where s1: "(listen_step ^^ k) s0 s1" "listen_step s1 s"
    by auto
  have "listen_inv T js s0 s1"
    using listeners.inv_reachable [of T js s0 s0 s1] assms(2) s1(1) relpowp_imp_rtranclp by metis
  from listen_inv_step [OF s1(2) this assms(2)] obtain u where
    u: "u \<in> T" "todo (js u) (lpcs s u) < todo (js u) (lpcs s1 u)" "\<forall>t. t \<noteq> u \<longrightarrow> lpcs s t = lpcs s1 t"
    by blast
  have "(\<Sum>t\<in>T. todo (js t) (lpcs s t)) < (\<Sum>t\<in>T. todo (js t) (lpcs s1 t))"
    by (rule sum_strict_mono_ex1 [OF assms(3)]) (use u in \<open>auto, metis less_or_eq_imp_le\<close>)
  with Suc.IH [OF s1(1)] show ?case
    by simp
qed simp

lemma listener_moves:
  assumes "listen_ok lower j (lpcs s t) h" "\<nexists>i p. lpcs s t = LDone i p"
  shows "\<exists>pc st. listen_access (lpcs s t) (lst s) = Some (pc, st)"
  using assms by (cases "lpcs s t") (auto simp: l_read_def l_write_def split: exec.splits)

lemma jobs_start: "listen_start T js s0 \<Longrightarrow> t \<in> T \<Longrightarrow> job_ok (plinks (lst s0)) (js t)"
  by (simp add: listen_start_def)

lemma job_alone:
  assumes "job_ok (plinks st) j"
  shows "\<exists>h. listen_insert (l_sock j) (l_port j) st = Done h
    \<and> ring h (PortHead (l_port j)) (map ConnNode (listen_place (lower_priority st (l_sock j)) (l_sock j) (l_list j)))"
proof -
  note r = job_ring [OF assms]
  have "(\<lambda>sk. priority (attr (conns st sk)) < priority (attr (conns st (l_sock j)))) = lower_priority st (l_sock j)"
    by (simp add: lower_priority_def fun_eq_iff)
  with listen_insert_ring [OF r(1) r(4) r(3)] show ?thesis
    by auto
qed

subsection \<open>The property\<close>

text \<open>
  C13. Calls of \<open>lsp_listen\<close> on different ports do not disturb each other, although the nodes of all the ports are in
  one pool and no mutex is held. In every run of any finite number of threads, each with a port, a socket and the sockets
  of that port, none of them shared, whatever the order of their accesses: no access is undefined, a thread that is through
  has left its port open and with the list that the call alone would have made of the list at the start, all other lists
  and ports are as they were, the accesses are at most three times the lengths of the lists and thirteen for each thread,
  and a thread that is not through can always go on.
\<close>

theorem listens_on_different_ports:
  assumes "listen_start T js s0" and "finite T" and "(listen_step ^^ k) s0 s"
  shows "k \<le> (\<Sum>t\<in>T. 3 * length (l_list (js t)) + 13)
    \<and> (\<forall>t e. lpcs s t \<noteq> LCrash e)
    \<and> (\<forall>t i p. lpcs s t = LDone i p \<longrightarrow> t \<in> T \<and> i = l_sock (js t) \<and> p = l_port (js t)
         \<and> port_state (lst s) p = PORT_OPEN
         \<and> (\<exists>h xs. listen_insert i p (lst s0) = Done h \<and> ring h (PortHead p) xs \<and> ring (plinks (lst s)) (PortHead p) xs))
    \<and> same_outside (\<Union>t\<in>T. region (js t)) (plinks (lst s0)) (plinks (lst s))
    \<and> (\<forall>q. q \<notin> (\<lambda>t. l_port (js t)) ` T \<longrightarrow> port_state (lst s) q = port_state (lst s0) q)
    \<and> (\<forall>t\<in>T. (\<exists>i p. lpcs s t = LDone i p)
         \<or> (\<exists>pc st. listen_access (lpcs s t) (lst s) = Some (pc, st)
               \<and> listen_step s \<lparr>lst = st, lpcs = (lpcs s)(t := pc)\<rparr>))"
proof (intro conjI)
  have inv: "listen_inv T js s0 s"
    using listeners.inv_reachable [of T js s0 s0 s] assms(1,3) relpowp_imp_rtranclp by metis
  have ok: "listen_ok (lower_priority (lst s0) (l_sock (js t))) (js t) (lpcs s t) (plinks (lst s))"
    "pc_of (lpcs s t) = (l_sock (js t), l_port (js t))"
    "(\<exists>i p. lpcs s t = LDone i p) \<Longrightarrow> port_state (lst s) (l_port (js t)) = PORT_OPEN" if "t \<in> T" for t
    using inv that by (auto simp: listen_inv_def)
  have idle: "lpcs s t = LIdle" if "t \<notin> T" for t
    using inv that by (simp add: listen_inv_def)
  show "k \<le> (\<Sum>t\<in>T. 3 * length (l_list (js t)) + 13)"
    using todo_sum [OF assms(3,1,2)] assms(1) by (simp add: listen_start_def cong: sum.cong)
  show "\<forall>t e. lpcs s t \<noteq> LCrash e"
    using ok(1) idle by (metis listen_ok.simps(18) listen_pc.distinct)
  show "\<forall>t i p. lpcs s t = LDone i p \<longrightarrow> t \<in> T \<and> i = l_sock (js t) \<and> p = l_port (js t)
      \<and> port_state (lst s) p = PORT_OPEN
      \<and> (\<exists>h xs. listen_insert i p (lst s0) = Done h \<and> ring h (PortHead p) xs \<and> ring (plinks (lst s)) (PortHead p) xs)"
  proof (intro allI impI)
    fix t i p assume d: "lpcs s t = LDone i p"
    then have t: "t \<in> T"
      using idle by fastforce
    with d ok show "t \<in> T \<and> i = l_sock (js t) \<and> p = l_port (js t) \<and> port_state (lst s) p = PORT_OPEN
      \<and> (\<exists>h xs. listen_insert i p (lst s0) = Done h \<and> ring h (PortHead p) xs \<and> ring (plinks (lst s)) (PortHead p) xs)"
      using job_alone [OF jobs_start [OF assms(1) t]] by fastforce
  qed
  show "same_outside (\<Union>t\<in>T. region (js t)) (plinks (lst s0)) (plinks (lst s))"
    "\<forall>q. q \<notin> (\<lambda>t. l_port (js t)) ` T \<longrightarrow> port_state (lst s) q = port_state (lst s0) q"
    using inv by (simp_all add: listen_inv_def)
  show "\<forall>t\<in>T. (\<exists>i p. lpcs s t = LDone i p)
      \<or> (\<exists>pc st. listen_access (lpcs s t) (lst s) = Some (pc, st)
            \<and> listen_step s \<lparr>lst = st, lpcs = (lpcs s)(t := pc)\<rparr>)"
    using ok(1) listener_moves listen_go by blast
qed

text \<open>Two threads on two empty ports.\<close>

definition listens_example :: listen_sys where
  "listens_example = \<lparr>lst = listen_example, lpcs = (\<lambda>_. LIdle)(0 := LTestNext 0 3, 1 := LTestNext 1 4)\<rparr>"

definition jobs_example :: "nat \<Rightarrow> listen_job" where
  "jobs_example t = (if t = 0 then \<lparr>l_sock = 0, l_port = 3, l_list = []\<rparr> else \<lparr>l_sock = 1, l_port = 4, l_list = []\<rparr>)"

lemma listens_example_start: "listen_start {0, 1} jobs_example listens_example"
  by (auto simp: listen_start_def listens_example_def jobs_example_def job_ok_def region_def ring_def listen_example_def)

lemma listens_example_alone:
  "listen_insert 0 3 (lst listens_example) = Done h \<Longrightarrow> lnext h (PortHead 3) = Some (ConnNode 0)"
  "listen_insert 1 4 (lst listens_example) = Done h \<Longrightarrow> lnext h (PortHead 4) = Some (ConnNode 1)"
  by (auto simp: listens_example_def listen_example_def listen_insert_def lsp_list_is_empty_def lsp_list_add_def
      lsp_list_add_between_def rd_next_def rd_prev_def wr_next_def wr_prev_def)

theorem listens_on_different_ports_witness:
  "\<exists>s. rtranclp listen_step listens_example s \<and> lpcs s 0 = LDone 0 3 \<and> lpcs s 1 = LDone 1 4
     \<and> lnext (plinks (lst s)) (PortHead 3) = Some (ConnNode 0) \<and> lnext (plinks (lst s)) (PortHead 4) = Some (ConnNode 1)"
proof -
  note claim = listens_on_different_ports [OF listens_example_start finite.insertI [OF finite.insertI [OF finite.emptyI]]]
  have sum: "(\<Sum>t\<in>{0, 1}. 3 * length (l_list (jobs_example t)) + 13) = 26"
    by (simp add: jobs_example_def)
  have "k \<le> 26" if "(listen_step ^^ k) listens_example s" for k s
    using claim [OF that, THEN conjunct1] by (simp only: sum)
  then obtain k s where s: "(listen_step ^^ k) listens_example s"
    and last: "\<And>s'. \<not> (listen_step ^^ Suc k) listens_example s'"
    using longest_run [of listen_step listens_example 26] by blast
  have "\<nexists>s'. listen_step s s'"
    using relpowp_Suc_I [OF s] last by blast
  then have "\<forall>t\<in>{0, 1}. \<exists>i p. lpcs s t = LDone i p"
    using claim [OF s] by blast
  then obtain i p j q where ip: "lpcs s 0 = LDone i p" "lpcs s 1 = LDone j q"
    by blast
  have fin: "i = l_sock (jobs_example t) \<and> p = l_port (jobs_example t) \<and> (\<exists>h xs. listen_insert i p (lst listens_example) = Done h
      \<and> ring h (PortHead p) xs \<and> ring (plinks (lst s)) (PortHead p) xs)" if "lpcs s t = LDone i p" for t i p
    using claim [OF s] that by blast
  have d: "lpcs s 0 = LDone 0 3" "lpcs s 1 = LDone 1 4"
    using fin [OF ip(1)] fin [OF ip(2)] ip by (simp_all add: jobs_example_def)
  have "lnext (plinks (lst s)) (PortHead 3) = Some (ConnNode 0)"
    using fin [OF d(1)] listens_example_alone(1) ring_first by metis
  moreover have "lnext (plinks (lst s)) (PortHead 4) = Some (ConnNode 1)"
    using fin [OF d(2)] listens_example_alone(2) ring_first by metis
  ultimately show ?thesis
    using relpowp_imp_rtranclp [OF s] d by blast
qed

end
