(* ===== verification/LspCoreConc.thy ===== *)
theory LspCoreConc imports LspCore LspQueueHistory LspQueueSignal begin

section \<open>The core thread and those who send it events\<close>

text \<open>
  \<open>lsp_core_task\<close> runs in a thread of its own, any other thread may call \<open>lsp_core_sendevent\<close>. A step is one
  critical section: a send (its timeout is 0, so it never waits), or the part of a round of the task
  up to or from its wait. The mutex can be refused to either (\<open>lock_rc\<close>). How the wait of the task
  ends is up to the environment: \<open>ends s rc\<close> says that it may end with code \<open>rc\<close> in state \<open>s\<close>. A step
  is labelled with what can be seen of it: the result of a send, the return code of a pop and the
  event the task switches on.
\<close>

datatype task_pc = AtPop | AtWait | AtWoken

record core_sys =
  cq :: lsp_queue
  task :: task_pc
  task_var :: core_event

datatype core_act = Sent core_event int | Seen int core_event | Sleeps

text \<open>A send that succeeds signals \<open>cond_empty\<close>, on which only the task can be blocked.\<close>

definition wake_task :: "task_pc \<Rightarrow> task_pc" where
  "wake_task pc = (if pc = AtWait then AtWoken else pc)"

inductive core_step ::
  "(core_sys \<Rightarrow> int \<Rightarrow> bool) \<Rightarrow> u32 \<Rightarrow> core_sys \<Rightarrow> core_act \<Rightarrow> core_sys \<Rightarrow> bool" for ends no_ev where
  core_send:
    "lock_rc \<in> {LSP_ERR_NONE, LSP_ERR_MUTEX} \<Longrightarrow>
     lsp_core_sendevent lock_rc w pad e (HLive (cq s)) = Done (rc, HLive q') \<Longrightarrow>
     core_step ends no_ev s (Sent e rc)
       (s\<lparr>cq := q', task := (if rc = LSP_ERR_NONE then wake_task (task s) else task s)\<rparr>)"
| core_round:
    "task s = AtPop \<Longrightarrow> lock_rc \<in> {LSP_ERR_NONE, LSP_ERR_MUTEX} \<Longrightarrow>
     pop_enter lock_rc 500 (cq s) = Done (Some (rc, x), q') \<Longrightarrow>
     e = task_event no_ev rc x (task_var s) \<Longrightarrow>
     core_step ends no_ev s (Seen rc e) (s\<lparr>cq := q', task_var := e\<rparr>)"
| core_sleep:
    "task s = AtPop \<Longrightarrow> pop_enter LSP_ERR_NONE 500 (cq s) = Done (None, q') \<Longrightarrow>
     core_step ends no_ev s Sleeps (s\<lparr>cq := q', task := AtWait\<rparr>)"
| core_end:
    "task s \<noteq> AtPop \<Longrightarrow> ends s wait_rc \<Longrightarrow>
     pop_resume wait_rc (cq s) = Done (rc, x, q') \<Longrightarrow>
     e = task_event no_ev rc x (task_var s) \<Longrightarrow>
     core_step ends no_ev s (Seen rc e) (s\<lparr>cq := q', task := AtPop, task_var := e\<rparr>)"

inductive core_run ::
  "(core_sys \<Rightarrow> int \<Rightarrow> bool) \<Rightarrow> u32 \<Rightarrow> core_sys \<Rightarrow> core_act list \<Rightarrow> core_sys \<Rightarrow> bool" for ends no_ev s where
  core_nil: "core_run ends no_ev s [] s"
| core_snoc: "core_run ends no_ev s as s1 \<Longrightarrow> core_step ends no_ev s1 a s2 \<Longrightarrow>
     core_run ends no_ev s (as @ [a]) s2"

text \<open>What the senders were told was sent, and what the task took out of the queue.\<close>

fun accepted :: "core_act list \<Rightarrow> core_event list" where
  "accepted [] = []"
| "accepted (Sent e rc # as) = (if rc = LSP_ERR_NONE then e # accepted as else accepted as)"
| "accepted (_ # as) = accepted as"

fun handled :: "core_act list \<Rightarrow> core_event list" where
  "handled [] = []"
| "handled (Seen rc e # as) = (if rc = LSP_ERR_NONE then e # handled as else handled as)"
| "handled (_ # as) = handled as"

text \<open>The rounds of the task, and those among them in which it did not get the mutex.\<close>

definition rounds :: "core_act list \<Rightarrow> nat" where
  "rounds as = length (filter (\<lambda>a. \<exists>rc e. a = Seen rc e) as)"

definition busy_rounds :: "core_act list \<Rightarrow> nat" where
  "busy_rounds as = length (filter (\<lambda>a. \<exists>e. a = Seen LSP_ERR_MUTEX e) as)"

text \<open>The wait does not end well without a signal; it may time out or fail, also when signalled.\<close>

definition task_signalled :: "core_sys \<Rightarrow> int \<Rightarrow> bool" where
  "task_signalled s rc \<longleftrightarrow> (task s = AtWait \<longrightarrow> rc \<noteq> 0)"

definition core_inv :: "core_sys \<Rightarrow> bool" where
  "core_inv s \<longleftrightarrow> event_queue (cq s) \<and> waiting_full (cq s) = 0
     \<and> waiting_empty (cq s) = (if task s = AtPop then 0 else 1)
     \<and> (task s = AtWait \<longrightarrow> q_length (cq s) = 0) \<and> (task s = AtWoken \<longrightarrow> 0 < q_length (cq s))"

text \<open>The only start in which the queue outlives \<open>lsp_core_start\<close>: the new thread already waits on it.\<close>

definition core_started :: "core_sys \<Rightarrow> bool" where
  "core_started s \<longleftrightarrow> task s = AtWait \<and>
     (\<exists>q. core_create LSP_DEFAULT_CORE_EVQUEUE_LEN SIZEOF_core_event = Done (Some q)
       \<and> pop_enter LSP_ERR_NONE 500 q = Done (None, cq s)
       \<and> lsp_core_start 0 core_create 0 (\<lambda>_. cq s) = Done (LSP_ERR_NONE, HLive (cq s)))"

subsection \<open>One step\<close>

lemma accepted_append [simp]: "accepted (as @ bs) = accepted as @ accepted bs"
  by (induction as rule: accepted.induct) auto

lemma handled_append [simp]: "handled (as @ bs) = handled as @ handled bs"
  by (induction as rule: handled.induct) auto

lemma sendevent_enter:
  "lsp_core_sendevent lock_rc w pad e (HLive q) = Done (rc, HLive q') \<longleftrightarrow>
   push_enter lock_rc (event_bytes pad e) 0 q = Done (Some rc, q')"
  by (auto simp: lsp_core_sendevent_def lsp_queue_push_def push_enter_def exec_simps split: if_splits)

lemma event_item: "event_queue q \<Longrightarrow> length (event_bytes pad e) = unat (itemsize q)"
  by (simp add: event_queue_def SIZEOF_core_event_def length_event_bytes)

lemma event_queue_wf: "event_queue q \<Longrightarrow> q_wf q" "event_queue q \<Longrightarrow> q_inv q"
  by (simp_all add: event_queue_def q_inv_def)

lemma event_queue_frame [simp]:
  "event_queue (q\<lparr>waiting_full := w\<rparr>) = event_queue q" "event_queue (q\<lparr>waiting_empty := w\<rparr>) = event_queue q"
  by (simp_all add: event_queue_def)

lemma event_queue_stored:
  "event_queue q \<Longrightarrow> q_length q < uint (queue_size q) \<Longrightarrow> event_queue (stored (event_bytes pad e) q)"
  using stored_inv [of q "event_bytes pad e"] event_item [of q pad e] by (simp add: event_queue_def)

lemma event_queue_taken: "event_queue q \<Longrightarrow> 0 < q_length q \<Longrightarrow> event_queue (taken q)"
  using taken_inv [of q] by (simp add: event_queue_def)

text \<open>The three ways a critical section ends: it failed, it began a wait, or it moved an item.\<close>

lemma send_result:
  assumes "event_queue q" "push_enter lock_rc (event_bytes pad e) 0 q = Done (Some rc, q')"
  shows "(rc \<noteq> LSP_ERR_NONE \<and> q' = q)
    \<or> (rc = LSP_ERR_NONE \<and> q' = stored (event_bytes pad e) q \<and> q_length q < uint (queue_size q))"
proof -
  have "\<not> int_to_size (q_length q) \<ge> queue_size q \<longleftrightarrow> q_length q < uint (queue_size q)"
    using full_test [of q] assms(1) by (auto simp: event_queue_def q_inv_def)
  then show ?thesis
    using push_enter_cases [OF event_queue_wf(1) [OF assms(1)] event_item [OF assms(1)] assms(2)] by auto
qed

lemma round_result:
  assumes "q_wf q" "lock_rc \<in> {LSP_ERR_NONE, LSP_ERR_MUTEX}" "pop_enter lock_rc 500 q = Done (r, q')"
  shows "(r = Some (LSP_ERR_MUTEX, None) \<and> q' = q)
    \<or> (r = None \<and> q_length q \<le> 0 \<and> q' = q\<lparr>waiting_empty := waiting_empty q + 1\<rparr>)
    \<or> (r = Some (LSP_ERR_NONE, Some (entry q (nat (q_head q)))) \<and> 0 < q_length q \<and> q' = taken q)"
  using assms queue_take_wf [of q]
  by (auto simp: pop_enter_def c_inc_def lsp_consts split: if_splits)

lemma end_result:
  assumes "q_wf q" "pop_resume wait_rc q = Done (rc, x, q')"
  defines "q1 \<equiv> q\<lparr>waiting_empty := waiting_empty q - 1\<rparr>"
  shows "(wait_rc \<noteq> 0 \<and> rc = wait_error wait_rc \<and> x = None \<and> q' = q1)
    \<or> (wait_rc = 0 \<and> rc = LSP_ERR_NONE \<and> x = Some (entry q1 (nat (q_head q1))) \<and> q' = taken q1)"
  using assms queue_take_wf [of q1]
  by (auto simp: pop_resume_def c_dec_def Let_def split: if_splits)

lemma wait_error_codes:
  "wait_error rc \<noteq> LSP_ERR_NONE" "wait_error rc \<noteq> LSP_ERR_MUTEX" "LSP_ERR_MUTEX \<noteq> LSP_ERR_NONE"
  by (simp_all add: wait_error_def lsp_consts)

lemma task_event_simps:
  "task_event no_ev LSP_ERR_NONE (Some item) before = bytes_event item"
  "rc \<noteq> LSP_ERR_NONE \<Longrightarrow> ev (task_event no_ev rc x before) = no_ev"
  by (simp_all add: task_event_def Let_def lsp_consts)

lemma core_inv_step:
  assumes "core_step task_signalled no_ev s a s'" "core_inv s"
  shows "core_inv s'"
  using assms(1)
proof (cases rule: core_step.cases)
  case (core_send lock_rc w pad e rc q')
  have q: "event_queue (cq s)"
    using assms(2) by (simp add: core_inv_def)
  show ?thesis
    using send_result [OF q core_send(4) [unfolded sendevent_enter]] core_send(2) assms(2)
      event_queue_stored [OF q, of pad e]
    by (auto simp: core_inv_def wake_task_def event_queue_def q_inv_def)
next
  case (core_round lock_rc rc x q' e)
  have q: "event_queue (cq s)"
    using assms(2) by (simp add: core_inv_def)
  show ?thesis
    using round_result [OF event_queue_wf(1) [OF q] core_round(4,5)] core_round assms(2)
      event_queue_taken [OF q] by (auto simp: core_inv_def)
next
  case (core_sleep q')
  have q: "event_queue (cq s)"
    using assms(2) by (simp add: core_inv_def)
  show ?thesis
    using round_result [OF event_queue_wf(1) [OF q] _ core_sleep(4)] core_sleep assms(2)
    by (auto simp: core_inv_def event_queue_def q_inv_def)
next
  case (core_end wait_rc rc x q' e)
  have q: "event_queue (cq s)"
    using assms(2) by (simp add: core_inv_def)
  then have "event_queue (taken ((cq s)\<lparr>waiting_empty := 0\<rparr>))" if "0 < q_length (cq s)"
    using that by (intro event_queue_taken) simp_all
  then show ?thesis
    using end_result [OF event_queue_wf(1) [OF q] core_end(5)] core_end assms(2)
    by (cases "task s") (auto simp: core_inv_def task_signalled_def)
qed

lemma core_step_fifo:
  assumes "core_step task_signalled no_ev s a s'" "core_inv s"
  shows "map bytes_event (q_items (cq s)) @ accepted [a] = handled [a] @ map bytes_event (q_items (cq s'))"
  using assms(1)
proof (cases rule: core_step.cases)
  case (core_send lock_rc w pad e rc q')
  have q: "event_queue (cq s)"
    using assms(2) by (simp add: core_inv_def)
  show ?thesis
    using send_result [OF q core_send(4) [unfolded sendevent_enter]] core_send(1,2)
      q_items_stored [OF event_queue_wf(2) [OF q] event_item [OF q], of pad e]
    by (auto simp: event_bytes_inverse)
next
  case (core_round lock_rc rc x q' e)
  have q: "event_queue (cq s)"
    using assms(2) by (simp add: core_inv_def)
  show ?thesis
    using round_result [OF event_queue_wf(1) [OF q] core_round(4,5)] core_round(1,2,6)
      q_items_take [OF event_queue_wf(2) [OF q]]
    by (auto simp: task_event_simps wait_error_codes)
next
  case (core_sleep q')
  have q: "event_queue (cq s)"
    using assms(2) by (simp add: core_inv_def)
  show ?thesis
    using round_result [OF event_queue_wf(1) [OF q] _ core_sleep(4)] core_sleep by auto
next
  case (core_end wait_rc rc x q' e)
  have q: "event_queue (cq s)"
    using assms(2) by (simp add: core_inv_def)
  let ?q = "(cq s)\<lparr>waiting_empty := waiting_empty (cq s) - 1\<rparr>"
  have "q_items ?q = entry ?q (nat (q_head ?q)) # q_items (taken ?q)" if "0 < q_length (cq s)"
    using q that by (intro q_items_take) (simp_all add: event_queue_def)
  then show ?thesis
    using end_result [OF event_queue_wf(1) [OF q] core_end(5)] core_end assms(2)
    by (cases "task s")
       (auto simp: core_inv_def task_signalled_def task_event_simps wait_error_codes)
qed

subsection \<open>Runs\<close>

lemma core_run_fifo:
  "core_run task_signalled no_ev s as s' \<Longrightarrow> core_inv s \<Longrightarrow>
     core_inv s' \<and> map bytes_event (q_items (cq s)) @ accepted as = handled as @ map bytes_event (q_items (cq s'))"
proof (induction rule: core_run.induct)
  case (core_snoc as s1 a s2)
  then have IH: "core_inv s1"
    "map bytes_event (q_items (cq s)) @ accepted as = handled as @ map bytes_event (q_items (cq s1))"
    by simp_all
  then show ?case
    using core_inv_step [OF core_snoc(2) IH(1)] core_step_fifo [OF core_snoc(2) IH(1)]
    by (metis accepted_append handled_append append.assoc)
qed simp

lemma core_create_value:
  "core_create LSP_DEFAULT_CORE_EVQUEUE_LEN SIZEOF_core_event = Done (Some
     \<lparr>q_length = 0, q_head = 0, q_tail = 0, waiting_full = 0, waiting_empty = 0,
      queue_size = 32, itemsize = 16, qdata = replicate 512 0\<rparr>)"
  by (simp add: core_create_def lsp_queue_create_def queue_blocksize_def int_to_size_def
      lsp_mutex_init_def SIZEOF_core_event_def lsp_consts Let_def word_le_nat_alt)

lemma core_started_queue:
  assumes "core_started s"
  shows "task s = AtWait" and "cq s = \<lparr>q_length = 0, q_head = 0, q_tail = 0, waiting_full = 0,
    waiting_empty = 1, queue_size = 32, itemsize = 16, qdata = replicate 512 0\<rparr>"
  using assms by (auto simp: core_started_def core_create_value pop_enter_def c_inc_def)

lemma core_started_inv: "core_started s \<Longrightarrow> core_inv s"
  by (simp add: core_inv_def core_started_queue event_queue_def q_inv_def q_wf_def SIZEOF_core_event_def)

lemma core_started_example:
  "core_started \<lparr>cq = \<lparr>q_length = 0, q_head = 0, q_tail = 0, waiting_full = 0, waiting_empty = 1,
     queue_size = 32, itemsize = 16, qdata = replicate 512 0\<rparr>, task = AtWait, task_var = e\<rparr>"
  unfolding core_started_def core_create_value lsp_core_start_def
  by (simp add: pop_enter_def c_inc_def lsp_thread_create_def lsp_queue_destroy_def)

interpretation core_thread: step_invariant core_started
  "\<lambda>s s'. \<exists>a. core_step task_signalled no_ev s a s'" core_inv for no_ev
  by unfold_locales (auto intro: core_started_inv core_inv_step)

subsection \<open>The events in the slots\<close>

text \<open>The last 32 accepted events are in the slots, whether they have been taken or not.\<close>

definition slots :: "core_event list \<Rightarrow> lsp_queue \<Rightarrow> bool" where
  "slots acc q \<longleftrightarrow> queue_size q = 32 \<and> itemsize q = 16 \<and> q_tail q = int (length acc mod 32)
     \<and> (\<forall>j<length acc. length acc \<le> j + 32 \<longrightarrow> bytes_event (entry q (j mod 32)) = acc ! j)
     \<and> (\<forall>k<32. length acc \<le> k \<longrightarrow> bytes_event (entry q k) = \<lparr>ev = 0, ev_data = 0\<rparr>)"

lemma slots_frame [simp]:
  "slots acc (q\<lparr>waiting_full := w\<rparr>) = slots acc q" "slots acc (q\<lparr>waiting_empty := w\<rparr>) = slots acc q"
  "slots acc (taken q) = slots acc q"
  by (simp_all add: slots_def entry_def taken_def)

lemma bytes_word_zero: "bytes_word (replicate n 0) = 0"
  by (induction n) (simp_all add: bytes_word_def)

lemma zero_event: "bytes_event (replicate 16 0) = \<lparr>ev = 0, ev_data = 0\<rparr>"
  by (simp add: bytes_event_def bytes_word_zero)

lemma core_started_slots: "core_started s \<Longrightarrow> slots [] (cq s)"
  using zero_event by (simp add: slots_def entry_def core_started_queue(2))

lemma slot_apart:
  assumes "j < n" "n < j + 32"
  shows "j mod 32 \<noteq> n mod (32 :: nat)"
proof
  assume "j mod 32 = n mod 32"
  then have "32 dvd n - j"
    using assms(1) by (metis less_imp_le mod_eq_dvd_iff_nat)
  then show False
    using assms nat_dvd_not_less [of "n - j" 32] by simp
qed

lemma slots_stored:
  assumes "slots acc q" "event_queue q"
  shows "slots (acc @ [e]) (stored (event_bytes pad e) q)"
proof -
  let ?n = "length acc" and ?q = "stored (event_bytes pad e) q"
  have tail: "nat (q_tail q) = ?n mod 32" and size: "queue_size q = 32" "itemsize q = 16"
    using assms(1) by (simp_all add: slots_def)
  have entry: "entry ?q k = (if k = ?n mod 32 then event_bytes pad e else entry q k)" if "k < 32" for k
    using entry_stored [OF event_queue_wf(1) [OF assms(2)] event_item [OF assms(2)], of k pad e] that
    by (simp add: size tail)
  have old: "bytes_event (entry ?q (j mod 32)) = acc ! j" if "j < ?n" "Suc ?n \<le> j + 32" for j
  proof -
    have "j mod 32 \<noteq> ?n mod 32" "j mod 32 < 32"
      using that slot_apart [of j ?n] by simp_all
    then show ?thesis
      using entry [of "j mod 32"] that assms(1) by (simp add: slots_def)
  qed
  have fresh: "bytes_event (entry ?q k) = \<lparr>ev = 0, ev_data = 0\<rparr>" if "k < 32" "Suc ?n \<le> k" for k
    using entry [of k] that assms(1) by (simp add: slots_def)
  have new: "bytes_event (entry ?q (?n mod 32)) = e"
    using entry [of "?n mod 32"] by (simp add: event_bytes_inverse)
  have "q_tail ?q = (int (?n mod 32) + 1) mod 32"
    using assms(1) by (simp add: stored_def Let_def slots_def)
  then have tail': "q_tail ?q = int (length (acc @ [e]) mod 32)"
    by (simp add: zmod_int mod_simps add.commute)
  have "bytes_event (entry ?q (j mod 32)) = (acc @ [e]) ! j"
    if "j < length (acc @ [e])" "length (acc @ [e]) \<le> j + 32" for j
    using that old [of j] new by (cases "j = ?n") (simp_all add: nth_append)
  then show ?thesis
    using fresh size tail' by (simp add: slots_def)
qed

lemma core_run_slots:
  "core_run task_signalled no_ev s as s' \<Longrightarrow> core_inv s \<Longrightarrow> slots [] (cq s) \<Longrightarrow> slots (accepted as) (cq s')"
proof (induction rule: core_run.induct)
  case (core_snoc as s1 a s2)
  then have q: "event_queue (cq s1)" and sl: "slots (accepted as) (cq s1)"
    using core_run_fifo [OF core_snoc(1)] by (simp_all add: core_inv_def)
  from core_snoc(2) show ?case
  proof (cases rule: core_step.cases)
    case (core_send lock_rc w pad e rc q')
    then show ?thesis
      using send_result [OF q core_send(4) [unfolded sendevent_enter]] slots_stored [OF sl q, of e pad] sl
      by auto
  next
    case (core_round lock_rc rc x q' e)
    then show ?thesis
      using round_result [OF event_queue_wf(1) [OF q] core_round(4,5)] sl by auto
  next
    case (core_sleep q')
    then show ?thesis
      using round_result [OF event_queue_wf(1) [OF q] _ core_sleep(4)] sl by auto
  next
    case (core_end wait_rc rc x q' e)
    then show ?thesis
      using end_result [OF event_queue_wf(1) [OF q] core_end(5)] sl by auto
  qed
qed simp

subsection \<open>How many rounds can pass\<close>

definition failed_rounds :: "core_act list \<Rightarrow> nat" where
  "failed_rounds as =
     length (filter (\<lambda>a. \<exists>rc e. a = Seen rc e \<and> rc \<noteq> LSP_ERR_NONE \<and> rc \<noteq> LSP_ERR_MUTEX) as)"

lemma rounds_split: "rounds as = length (handled as) + busy_rounds as + failed_rounds as"
proof (induction as)
  case (Cons a as)
  then show ?case
    using wait_error_codes(3) by (cases a) (auto simp: rounds_def busy_rounds_def failed_rounds_def)
qed (simp add: rounds_def busy_rounds_def failed_rounds_def)

lemma failed_append [simp]: "failed_rounds (as @ bs) = failed_rounds as + failed_rounds bs"
  by (simp add: failed_rounds_def)

lemma items_length: "length (q_items q) = nat (q_length q)"
  by (simp add: q_items_def)

text \<open>With an item in the queue, a round fails only if the task was already woken, and once.\<close>

lemma failed_step:
  assumes "core_step task_signalled no_ev s a s'" "core_inv s" "0 < q_length (cq s)"
  shows "failed_rounds [a] = 0 \<and> (task s = AtPop \<longrightarrow> task s' = AtPop)
    \<or> failed_rounds [a] = 1 \<and> task s \<noteq> AtPop \<and> task s' = AtPop"
  using assms(1)
proof (cases rule: core_step.cases)
  case (core_send lock_rc w pad e rc q')
  then show ?thesis
    by (simp add: failed_rounds_def wake_task_def)
next
  case (core_round lock_rc rc x q' e)
  then show ?thesis
    using round_result [OF _ core_round(4,5)] assms(2)
    by (auto simp: failed_rounds_def core_inv_def event_queue_wf)
next
  case (core_sleep q')
  then show ?thesis
    using round_result [OF _ _ core_sleep(4)] assms(2,3) by (auto simp: core_inv_def event_queue_wf)
next
  case (core_end wait_rc rc x q' e)
  then show ?thesis
    by (auto simp: failed_rounds_def)
qed

lemma few_failures:
  "core_run task_signalled no_ev s as s' \<Longrightarrow> core_inv s \<Longrightarrow>
   length (handled as) < length (q_items (cq s)) \<Longrightarrow>
   failed_rounds as = 0 \<or> failed_rounds as = 1 \<and> task s' = AtPop"
proof (induction rule: core_run.induct)
  case (core_snoc as s1 a s2)
  then have less: "length (handled as) < length (q_items (cq s))"
    by simp
  have run: "core_inv s1 \<and> map bytes_event (q_items (cq s)) @ accepted as
      = handled as @ map bytes_event (q_items (cq s1))"
    using core_run_fifo [OF core_snoc(1,4)] .
  then have "length (q_items (cq s)) + length (accepted as) = length (handled as) + length (q_items (cq s1))"
    by (metis length_append length_map)
  then have "0 < q_length (cq s1)"
    using less by (simp add: items_length)
  then show ?case
    using failed_step [OF core_snoc(2)] run core_snoc.IH [OF core_snoc(4) less] by auto
qed (simp add: failed_rounds_def)

lemma enough_rounds:
  assumes "core_run task_signalled no_ev s as s'" "core_inv s"
    and "length (q_items (cq s)) + 1 + busy_rounds as \<le> rounds as"
  shows "take (length (q_items (cq s))) (handled as) = map bytes_event (q_items (cq s))"
proof -
  have "length (q_items (cq s)) \<le> length (handled as)"
    using few_failures [OF assms(1,2)] assms(3) rounds_split [of as] by linarith
  moreover have "map bytes_event (q_items (cq s)) @ accepted as = handled as @ map bytes_event (q_items (cq s'))"
    using core_run_fifo [OF assms(1,2)] by simp
  ultimately show ?thesis
    by (metis append_eq_append_conv_if length_map take_append take_all_iff order_refl append_Nil2)
qed

lemma core_run_append:
  "core_run ends no_ev s1 bs s2 \<Longrightarrow> core_run ends no_ev s as s1 \<Longrightarrow> core_run ends no_ev s (as @ bs) s2"
  by (induction rule: core_run.induct) (auto simp flip: append_assoc intro: core_snoc)

text \<open>The task is never stuck while there is an item.\<close>

lemma task_can_go_on:
  assumes "core_inv s" "0 < q_length (cq s)"
  shows "\<exists>e s'. core_step task_signalled no_ev s (Seen LSP_ERR_NONE e) s'"
proof (cases "task s = AtPop")
  case True
  then show ?thesis
    using core_round [of s LSP_ERR_NONE LSP_ERR_NONE "Some (entry (cq s) (nat (q_head (cq s))))"
        "taken (cq s)" _ no_ev task_signalled] assms queue_take_wf [of "cq s"]
    by (auto simp: pop_enter_def core_inv_def event_queue_wf)
next
  case False
  let ?q = "(cq s)\<lparr>waiting_empty := 0\<rparr>"
  have "pop_resume 0 (cq s) = Done (LSP_ERR_NONE, Some (entry ?q (nat (q_head ?q))), taken ?q)"
    using queue_take_wf [of ?q] assms False
    by (simp add: pop_resume_def c_dec_def core_inv_def event_queue_wf)
  then show ?thesis
    using core_end [of s task_signalled 0 _ _ _ _ no_ev] False assms
    by (auto simp: task_signalled_def core_inv_def)
qed

subsection \<open>After a wait that ended for no reason\<close>

definition core_dead :: "core_sys \<Rightarrow> bool" where
  "core_dead s \<longleftrightarrow> q_wf (cq s) \<and> q_length (cq s) = - 1 \<and> task s \<noteq> AtWoken"

lemma core_dead_step:
  assumes "core_step task_signalled no_ev s a s'" "core_dead s"
  shows "core_dead s' \<and> accepted [a] = [] \<and> handled [a] = []
    \<and> (\<forall>e rc. a = Sent e rc \<longrightarrow> rc = LSP_ERR_QUEUE_FULL \<or> rc = LSP_ERR_MUTEX)"
  using assms(1)
proof (cases rule: core_step.cases)
  case (core_send lock_rc w pad e rc q')
  then show ?thesis
    using negative_is_full [of "cq s"] assms(2)
    by (auto simp: sendevent_enter push_enter_def core_dead_def lsp_consts)
next
  case (core_round lock_rc rc x q' e)
  then show ?thesis
    using round_result [OF _ core_round(4,5)] assms(2) wait_error_codes(3) by (auto simp: core_dead_def)
next
  case (core_sleep q')
  then show ?thesis
    using round_result [OF _ _ core_sleep(4)] assms(2) by (auto simp: core_dead_def)
next
  case (core_end wait_rc rc x q' e)
  then show ?thesis
    using end_result [OF _ core_end(5)] assms(2) wait_error_codes(1) [of wait_rc]
    by (cases "task s") (auto simp: core_dead_def task_signalled_def)
qed

lemma core_dead_run:
  "core_run task_signalled no_ev s as s' \<Longrightarrow> core_dead s \<Longrightarrow> core_dead s' \<and> accepted as = [] \<and> handled as = []
    \<and> (\<forall>e rc. Sent e rc \<in> set as \<longrightarrow> rc = LSP_ERR_QUEUE_FULL \<or> rc = LSP_ERR_MUTEX)"
proof (induction rule: core_run.induct)
  case (core_snoc as s1 a s2)
  then show ?case
    using core_dead_step [OF core_snoc(2)] by auto
qed simp

subsection \<open>The core thread as a thread of the queue\<close>

text \<open>Thread 0 is the task, and every send is a call of thread 1.\<close>

definition core_sig :: "core_sys \<Rightarrow> ssys" where
  "core_sig s = \<lparr>sq = cq s, sthr = (\<lambda>_. Idle)
     (0 := (case task s of AtPop \<Rightarrow> Idle | AtWait \<Rightarrow> PopAsleep | AtWoken \<Rightarrow> PopWoken))\<rparr>"

lemma core_sig_simps [simp]:
  "sq (core_sig s) = cq s" "sthr (core_sig s) (Suc t) = Idle"
  "sthr (core_sig s) 0 = (case task s of AtPop \<Rightarrow> Idle | AtWait \<Rightarrow> PopAsleep | AtWoken \<Rightarrow> PopWoken)"
  by (simp_all add: core_sig_def)

lemma core_signal:
  "signals wake_pop rc (sthr (core_sig s))
     (sthr (core_sig (s\<lparr>cq := q, task := (if rc = LSP_ERR_NONE then wake_task (task s) else task s)\<rparr>)))"
proof (cases "rc = LSP_ERR_NONE \<and> task s = AtWait")
  case True
  let ?th = "sthr (core_sig s)"
  have "cond_signal wake_pop ?th (\<lambda>u. if u \<in> {0} then wake_pop (?th u) else ?th u)"
    using True by (intro some_blocked [of 0]) (simp_all add: wake_pop_def)
  moreover have "(\<lambda>u. if u \<in> {0} then wake_pop (?th u) else ?th u) = sthr (core_sig (s\<lparr>cq := q, task := AtWoken\<rparr>))"
    using True by (auto simp: fun_eq_iff core_sig_def wake_pop_def)
  ultimately show ?thesis
    using True by (simp add: signals_def wake_task_def)
next
  case False
  have "cond_signal wake_pop (sthr (core_sig s)) (sthr (core_sig s))" if "rc = LSP_ERR_NONE"
    using False that by (intro none_blocked) (auto simp: core_sig_def wake_pop_def split: task_pc.splits)
  then show ?thesis
    using False by (cases "task s") (auto simp: signals_def wake_task_def core_sig_def)
qed

lemma no_push_signal:
  "\<forall>t item. th t \<noteq> PushAsleep item \<Longrightarrow> signals wake_push rc th th"
  by (auto simp: signals_def wake_push_def intro!: none_blocked split: sig_thread.splits)

lemma core_sig_task:
  "(core_sig s)\<lparr>sq := q, sthr := (sthr (core_sig s))(0 := PopAsleep)\<rparr> = core_sig (s\<lparr>cq := q, task := AtWait\<rparr>)"
  "(core_sig s)\<lparr>sq := q, sthr := (sthr (core_sig s))(0 := Idle)\<rparr>
     = core_sig (s\<lparr>cq := q, task := AtPop, task_var := e\<rparr>)"
  "(core_sig s)\<lparr>sq := q, sthr := sthr (core_sig (s\<lparr>cq := q, task := pc\<rparr>))\<rparr> = core_sig (s\<lparr>cq := q, task := pc\<rparr>)"
  "task s = AtPop \<Longrightarrow> (core_sig s)\<lparr>sq := q, sthr := sthr (core_sig s)\<rparr> = core_sig (s\<lparr>cq := q, task_var := e\<rparr>)"
  by (auto simp: core_sig_def fun_eq_iff)

lemma core_step_sig:
  assumes "core_step ends no_ev s a s'" "itemsize (cq s) = 16"
    and "\<And>rc. ends s rc \<Longrightarrow> ends' (core_sig s) 0 rc"
  shows "sig_step ends' (core_sig s) (core_sig s')"
  using assms(1)
proof (cases rule: core_step.cases)
  case (core_send lock_rc w pad e rc q')
  let ?s' = "s\<lparr>cq := q', task := (if rc = LSP_ERR_NONE then wake_task (task s) else task s)\<rparr>"
  have "sig_step ends' (core_sig s) ((core_sig s)\<lparr>sq := q', sthr := sthr (core_sig ?s')\<rparr>)"
    using core_send(4) assms(2) unfolding sendevent_enter
    by (intro push_call [of "core_sig s" 1 "event_bytes pad e", OF _ _ _ core_signal])
       (simp_all add: length_event_bytes)
  then show ?thesis
    unfolding core_send(2) core_sig_task(3) .
next
  case (core_round lock_rc rc x q' e)
  have "signals wake_push rc (sthr (core_sig s)) (sthr (core_sig s))"
    by (rule no_push_signal) (auto simp: core_sig_def split: task_pc.splits)
  then have "sig_step ends' (core_sig s) ((core_sig s)\<lparr>sq := q', sthr := sthr (core_sig s)\<rparr>)"
    using core_round by (intro pop_call [of "core_sig s" 0 lock_rc 500 rc x]) simp_all
  then show ?thesis
    unfolding core_round(2) core_sig_task(4) [OF core_round(3), where q = q' and e = e] .
next
  case (core_sleep q')
  then show ?thesis
    using pop_sleep [of "core_sig s" 0 500 q' ends'] by (simp add: core_sig_task)
next
  case (core_end wait_rc rc x q' e)
  have "signals wake_push rc ((sthr (core_sig s))(0 := Idle)) ((sthr (core_sig s))(0 := Idle))"
    by (rule no_push_signal) (auto simp: core_sig_def)
  then have "sig_step ends' (core_sig s) ((core_sig s)\<lparr>sq := q', sthr := (sthr (core_sig s))(0 := Idle)\<rparr>)"
    using core_end assms(3) [of wait_rc]
    by (intro pop_end [of "core_sig s" 0 ends' wait_rc rc x]) (cases "task s"; simp)+
  then show ?thesis
    unfolding core_end(2) core_sig_task(2) [where q = q' and e = e] .
qed

lemma core_wf_step:
  assumes "core_step ends no_ev s a s'" "q_wf (cq s)" "itemsize (cq s) = 16"
  shows "q_wf (cq s') \<and> itemsize (cq s') = 16"
  using assms(1)
proof (cases rule: core_step.cases)
  case (core_send lock_rc w pad e rc q')
  have "length (event_bytes pad e) = unat (itemsize (cq s))"
    using assms(3) by (simp add: length_event_bytes)
  then show ?thesis
    using push_enter_cases [OF assms(2) _ core_send(4) [unfolded sendevent_enter]]
      stored_wf [OF assms(2), of "event_bytes pad e"] core_send(2) assms(2,3) by auto
next
  case (core_round lock_rc rc x q' e)
  then show ?thesis
    using pop_enter_cases [OF assms(2) core_round(5)] taken_wf [OF assms(2)] assms(2,3) by auto
next
  case (core_sleep q')
  then show ?thesis
    using pop_enter_cases [OF assms(2) core_sleep(4)] taken_wf [OF assms(2)] assms(2,3) by auto
next
  case (core_end wait_rc rc x q' e)
  then show ?thesis
    using end_result [OF assms(2) core_end(5)] assms(2,3)
      taken_wf [of "(cq s)\<lparr>waiting_empty := waiting_empty (cq s) - 1\<rparr>"] by auto
qed

lemma core_run_sig:
  assumes "core_run ends no_ev s as s'" "q_wf (cq s)" "itemsize (cq s) = 16"
    and "\<And>s rc. ends s rc \<Longrightarrow> ends' (core_sig s) 0 rc"
  shows "rtranclp (sig_step ends') (core_sig s) (core_sig s') \<and> q_wf (cq s') \<and> itemsize (cq s') = 16"
  using assms(1)
proof (induction rule: core_run.induct)
  case (core_snoc as s1 a s2)
  then show ?case
    using core_step_sig [OF core_snoc(2), where ends' = ends'] assms(4) core_wf_step [OF core_snoc(2)]
    by (auto intro: rtranclp.rtrancl_into_rtrancl)
qed (use assms in auto)

lemma core_started_sig:
  assumes "core_started s"
  shows "\<exists>s0. sig_start s0 \<and> sig_step ends s0 (core_sig s)"
proof -
  let ?q = "(cq s)\<lparr>waiting_empty := 0\<rparr>" and ?idle = "\<lambda>_ :: nat. Idle"
  have "pop_enter LSP_ERR_NONE 500 ?q = Done (None, cq s)"
    by (simp add: core_started_queue [OF assms] pop_enter_def c_inc_def)
  then have "sig_step ends \<lparr>sq = ?q, sthr = ?idle\<rparr>
      (\<lparr>sq = ?q, sthr = ?idle\<rparr>\<lparr>sq := cq s, sthr := ?idle(0 := PopAsleep)\<rparr>)"
    using pop_sleep [of "\<lparr>sq = ?q, sthr = ?idle\<rparr>" 0 500 "cq s" ends] by simp
  moreover have "\<lparr>sq = ?q, sthr = ?idle\<rparr>\<lparr>sq := cq s, sthr := ?idle(0 := PopAsleep)\<rparr> = core_sig s"
    by (simp add: core_sig_def core_started_queue [OF assms])
  moreover have "sig_start \<lparr>sq = ?q, sthr = ?idle\<rparr>"
    using core_started_inv [OF assms]
    by (simp add: sig_start_def core_inv_def event_queue_def)
  ultimately show ?thesis
    by auto
qed

subsection \<open>Properties\<close>

text \<open>A run: the task waits, an event is sent, and the task wakes up.\<close>

definition core_example :: core_sys where
  "core_example = \<lparr>cq = \<lparr>q_length = 0, q_head = 0, q_tail = 0, waiting_full = 0, waiting_empty = 1,
     queue_size = 32, itemsize = 16, qdata = replicate 512 0\<rparr>, task = AtWait, task_var = \<lparr>ev = 0, ev_data = 0\<rparr>\<rparr>"

lemma core_example_started: "core_started core_example"
  by (simp add: core_example_def core_started_example)

lemma core_example_sent:
  "\<exists>s. core_run task_signalled no_ev core_example [Sent e LSP_ERR_NONE] s \<and> task s = AtWoken"
proof -
  have q: "event_queue (cq core_example)" "q_items (cq core_example) = []" "queue_size (cq core_example) = 32"
    using core_started_inv [OF core_example_started] by (simp_all add: core_inv_def) (simp_all add: core_example_def q_items_def)
  obtain q' where "lsp_core_sendevent LSP_ERR_NONE (\<lambda>q. (0, q)) [] e (HLive (cq core_example)) = Done (LSP_ERR_NONE, HLive q')"
    using sendevent_live [OF q(1), of "\<lambda>q. (0, q)" "[]" e] q(2,3) by auto
  then have "core_step task_signalled no_ev core_example (Sent e LSP_ERR_NONE) (core_example\<lparr>cq := q', task := AtWoken\<rparr>)"
    using core_send [of LSP_ERR_NONE "\<lambda>q. (0, q)" "[]" e core_example LSP_ERR_NONE q' task_signalled no_ev]
    by (simp add: core_example_def wake_task_def)
  then show ?thesis
    using core_snoc [OF core_nil] by fastforce
qed

lemma empty_round:
  assumes "core_inv s" "task s = AtPop" "q_items (cq s) = []"
  shows "\<exists>e s'. core_run task_signalled no_ev s [Sleeps, Seen LSP_ERR_TIMEOUT e] s'"
proof -
  let ?q = "(cq s)\<lparr>waiting_empty := 1\<rparr>"
  let ?s1 = "s\<lparr>cq := ?q, task := AtWait\<rparr>"
  have "pop_enter LSP_ERR_NONE 500 (cq s) = Done (None, ?q)"
    using assms by (simp add: core_inv_def pop_enter_def c_inc_def q_items_def)
  then have "core_step task_signalled no_ev s Sleeps ?s1"
    using core_sleep assms(2) by blast
  moreover have "pop_resume ETIMEDOUT ?q = Done (LSP_ERR_TIMEOUT, None, cq s)"
    using assms(1,2) by (simp add: pop_resume_def c_dec_def wait_error_def core_inv_def)
  then have "\<exists>e s2. core_step task_signalled no_ev ?s1 (Seen LSP_ERR_TIMEOUT e) s2"
    using core_end [of ?s1 task_signalled ETIMEDOUT LSP_ERR_TIMEOUT None "cq s" _ no_ev]
    by (auto simp: task_signalled_def)
  ultimately show ?thesis
    using core_snoc [OF core_snoc [OF core_nil]] by fastforce
qed

lemma core_example_round:
  assumes "core_run task_signalled no_ev core_example [Sent e LSP_ERR_NONE] s"
  shows "\<exists>e1 e2 s'. core_run task_signalled no_ev s [Seen LSP_ERR_NONE e1, Sleeps, Seen LSP_ERR_TIMEOUT e2] s'"
proof -
  have s: "core_inv s" "length (q_items (cq s)) = 1"
    using core_run_fifo [OF assms core_started_inv [OF core_example_started]]
    by (auto simp: q_items_def core_example_def dest: arg_cong [where f = length])
  then have "0 < q_length (cq s)"
    by (simp add: items_length)
  then obtain e1 s1 where step: "core_step task_signalled no_ev s (Seen LSP_ERR_NONE e1) s1"
    using task_can_go_on [OF s(1), of no_ev] by blast
  then have run: "core_run task_signalled no_ev s [Seen LSP_ERR_NONE e1] s1" and "task s1 = AtPop"
    using core_snoc [OF core_nil step] by (auto elim: core_step.cases)
  moreover have "core_inv s1" "q_items (cq s1) = []"
    using core_run_fifo [OF run s(1)] s(2) by (auto dest: arg_cong [where f = length])
  ultimately show ?thesis
    using empty_round [of s1 no_ev] core_run_append [OF _ run] by fastforce
qed

text \<open>
  The core thread and its senders are threads of the queue: forgetting the labels, every run of theirs,
  however the waits end, is a run of \<open>LspQueueSignal\<close> from its initial state. So the queue stays well formed,
  and \<open>lsp_queue_destroy\<close> refuses the event queue exactly while the task waits.
\<close>

theorem core_runs_are_queue_runs:
  assumes "core_started s" and "core_run ends no_ev s as s'"
    and "\<forall>s rc. ends s rc \<longrightarrow> ends' (core_sig s) 0 rc"
  shows "(\<exists>s0. sig_start s0 \<and> rtranclp (sig_step ends') s0 (core_sig s'))
    \<and> q_wf (cq s') \<and> (snd (lsp_queue_destroy garbage (cq s')) = None \<longleftrightarrow> task s' = AtPop)"
proof -
  have wf: "q_wf (cq s)" "itemsize (cq s) = 16"
    using core_started_inv [OF assms(1)] by (simp_all add: core_inv_def event_queue_wf core_started_queue [OF assms(1)])
  have run: "rtranclp (sig_step ends') (core_sig s) (core_sig s')" "q_wf (cq s')"
    using core_run_sig [OF assms(2) wf, where ends' = ends'] assms(3) by simp_all
  obtain s0 where s0: "sig_start s0" "rtranclp (sig_step ends') s0 (core_sig s')"
    using core_started_sig [OF assms(1), of ends'] run(1)
    by (blast intro: converse_rtranclp_into_rtranclp)
  have "conc_inv (forget (core_sig s'))"
    using any_run.inv_reachable [OF sig_start_forget [OF s0(1)] sig_run_qstep [OF s0(2), of False]] by simp
  then have "waiting_full (cq s') = 0" "waiting_empty (cq s') = (if task s' = AtPop then 0 else 1)"
    by (cases "task s'"; auto simp: conc_inv_def push_waiters_def pop_waiters_def core_sig_def)+
  then show ?thesis
    using s0 run(2) by (auto simp: lsp_queue_destroy_def)
qed

theorem core_runs_are_queue_runs_witness:
  "\<exists>s s0. task s = AtWoken \<and> sig_start s0 \<and> rtranclp (sig_step no_spurious) s0 (core_sig s)
     \<and> snd (lsp_queue_destroy 0 (cq s)) \<noteq> None"
proof -
  obtain s where s: "core_run task_signalled 0 core_example [Sent \<lparr>ev = 1, ev_data = 0\<rparr> LSP_ERR_NONE] s" "task s = AtWoken"
    using core_example_sent by blast
  have "\<forall>s rc. task_signalled s rc \<longrightarrow> no_spurious (core_sig s) 0 rc"
    by (auto simp: task_signalled_def no_spurious_def asleep_def split: task_pc.splits)
  with core_runs_are_queue_runs [OF core_example_started s(1), of no_spurious 0] s(2) show ?thesis
    by auto
qed

text \<open>
  C7. The core thread keeps every event, in order. In every run of the task and of any number of senders, in which
  the wait of the task does not end well without a signal - it may time out, also when it was signalled, and the
  mutex may be refused - the events the task has taken out, followed by those in the queue, are the events
  whose send has returned success. The queue never holds more than its 32 entries, a send is refused only
  because the queue is full or the mutex was not to be had, and a round that takes nothing out is a round
  without an event.
\<close>

theorem core_keeps_events:
  assumes "core_started s" and "core_run task_signalled no_ev s as s'"
  shows "handled as @ map bytes_event (q_items (cq s')) = accepted as
    \<and> q_inv (cq s') \<and> length (q_items (cq s')) \<le> 32
    \<and> (\<forall>e rc. Sent e rc \<in> set as \<longrightarrow> rc \<in> {LSP_ERR_NONE, LSP_ERR_QUEUE_FULL, LSP_ERR_MUTEX})
    \<and> (\<forall>e rc. Seen rc e \<in> set as \<longrightarrow> rc \<noteq> LSP_ERR_NONE \<longrightarrow> ev e = no_ev)"
proof -
  have inv: "core_inv s" and "q_items (cq s) = []"
    using core_started_inv [OF assms(1)] core_started_queue(2) [OF assms(1)] by (simp_all add: q_items_def)
  moreover have "rc \<in> {LSP_ERR_NONE, LSP_ERR_QUEUE_FULL, LSP_ERR_MUTEX}"
    if "Sent e rc \<in> set as" for e rc
    using assms(2) that
  proof (induction rule: core_run.induct)
    case (core_snoc as s1 a s2)
    then show ?case
      by (auto elim!: core_step.cases simp: sendevent_enter push_enter_def exec_simps split: if_splits)
  qed simp
  moreover have "rc \<noteq> LSP_ERR_NONE \<longrightarrow> ev e = no_ev" if "Seen rc e \<in> set as" for e rc
    using assms(2) that
  proof (induction rule: core_run.induct)
    case (core_snoc as s1 a s2)
    then show ?case
      by (auto elim!: core_step.cases simp: task_event_simps)
  qed simp
  moreover have end': "core_inv s'" "queue_size (cq s') = 32"
    using core_run_fifo [OF assms(2) inv] core_run_slots [OF assms(2) inv core_started_slots [OF assms(1)]]
    by (simp_all add: slots_def)
  moreover have q': "q_inv (cq s')"
    using end'(1) by (simp add: core_inv_def event_queue_wf)
  moreover have "length (q_items (cq s')) \<le> 32"
    using q' end'(2) q_length_bound [of "cq s'"] by simp
  ultimately show ?thesis
    using core_run_fifo [OF assms(2) inv] by simp
qed

theorem core_keeps_events_witness:
  "\<exists>s. core_run task_signalled 0 core_example [Sent \<lparr>ev = 1, ev_data = 4096\<rparr> LSP_ERR_NONE] s
     \<and> map bytes_event (q_items (cq s)) = [\<lparr>ev = 1, ev_data = 4096\<rparr>]"
proof -
  obtain s where s: "core_run task_signalled 0 core_example [Sent \<lparr>ev = 1, ev_data = 4096\<rparr> LSP_ERR_NONE] s"
    using core_example_sent by blast
  from core_keeps_events [OF core_example_started this] s show ?thesis
    by auto
qed

text \<open>
  C8. The core thread delivers what it was sent. Whatever has been accepted when the queue holds \<open>n\<close> items, the task has handled after
  \<open>n + 1\<close> more rounds in which it got the mutex, whatever the senders do meanwhile: while there is an item, only
  a wait that was going on may still time out. And it can always go on: while there is an item, the task is not
  asleep without a signal.
\<close>

theorem core_delivers_events:
  assumes "core_started s0" and "core_run task_signalled no_ev s0 as s"
    and "core_run task_signalled no_ev s bs s'"
    and "length (q_items (cq s)) + 1 + busy_rounds bs \<le> rounds bs"
  shows "take (length (accepted as)) (handled (as @ bs)) = accepted as
    \<and> (q_items (cq s') \<noteq> [] \<longrightarrow> (\<exists>e s''. core_step task_signalled no_ev s' (Seen LSP_ERR_NONE e) s''))"
proof -
  note start = core_started_inv [OF assms(1)]
  have "q_items (cq s0) = []"
    using core_started_queue(2) [OF assms(1)] by (simp add: q_items_def)
  then have s: "core_inv s" "accepted as = handled as @ map bytes_event (q_items (cq s))"
    using core_run_fifo [OF assms(2) start] by simp_all
  have "take (length (q_items (cq s))) (handled bs) = map bytes_event (q_items (cq s))"
    using enough_rounds [OF assms(3) s(1) assms(4)] .
  then have "take (length (accepted as)) (handled (as @ bs)) = accepted as"
    by (simp add: s(2))
  moreover have "core_inv s'"
    using core_run_fifo [OF assms(3) s(1)] by simp
  ultimately show ?thesis
    using task_can_go_on [of s' no_ev] by (auto simp: items_length simp flip: length_greater_0_conv)
qed

theorem core_delivers_events_witness:
  "\<exists>s s' e2. core_run task_signalled 0 core_example [Sent \<lparr>ev = 1, ev_data = 4096\<rparr> LSP_ERR_NONE] s
     \<and> core_run task_signalled 0 s
         [Seen LSP_ERR_NONE \<lparr>ev = 1, ev_data = 4096\<rparr>, Sleeps, Seen LSP_ERR_TIMEOUT e2] s'"
proof -
  obtain s where s: "core_run task_signalled 0 core_example [Sent \<lparr>ev = 1, ev_data = 4096\<rparr> LSP_ERR_NONE] s"
    using core_example_sent by blast
  then obtain e1 e2 s' where r: "core_run task_signalled 0 s [Seen LSP_ERR_NONE e1, Sleeps, Seen LSP_ERR_TIMEOUT e2] s'"
    using core_example_round by blast
  have "length (q_items (cq s)) = 1"
    using core_run_fifo [OF s core_started_inv [OF core_example_started]]
    by (auto simp: q_items_def core_example_def dest: arg_cong [where f = length])
  from core_delivers_events [OF core_example_started s r] this have "e1 = \<lparr>ev = 1, ev_data = 4096\<rparr>"
    by (simp add: busy_rounds_def rounds_def lsp_consts)
  with s r show ?thesis
    by blast
qed

text \<open>
  C20. One wait that ends for no reason is the end of the core thread. POSIX lets a wait end with 0 without a signal, and
  the pop does not test the queue again: the task then handles an event nobody has just sent, the one
  that was accepted 32 events ago (an event of zeros when there were fewer), and the length of the queue is -1.
  From then on every send is refused and no event is ever handled, even if no wait ever does this again.
\<close>

theorem spurious_wakeup_ends_core:
  assumes "core_started s0" and "core_run task_signalled no_ev s0 as s" and "task s = AtWait"
    and "core_step (\<lambda>_ rc. rc = 0) no_ev s (Seen rc e) s'"
  shows "rc = LSP_ERR_NONE
    \<and> e = (if length (accepted as) < 32 then \<lparr>ev = 0, ev_data = 0\<rparr> else accepted as ! (length (accepted as) - 32))
    \<and> q_length (cq s') = - 1
    \<and> (\<forall>bs s''. core_run task_signalled no_ev s' bs s'' \<longrightarrow>
        handled bs = [] \<and> accepted bs = [] \<and> q_length (cq s'') = - 1
        \<and> (\<forall>e rc. Sent e rc \<in> set bs \<longrightarrow> rc \<in> {LSP_ERR_QUEUE_FULL, LSP_ERR_MUTEX}))"
proof -
  note start = core_started_inv [OF assms(1)]
  have sl: "slots (accepted as) (cq s)"
    using core_run_slots [OF assms(2) start core_started_slots [OF assms(1)]] .
  have s: "core_inv s" "q_length (cq s) = 0" "q_wf (cq s)"
    using core_run_fifo [OF assms(2) start] assms(3) by (auto simp: core_inv_def event_queue_wf)
  let ?q = "(cq s)\<lparr>waiting_empty := waiting_empty (cq s) - 1\<rparr>"
  from assms(4) have r: "rc = LSP_ERR_NONE" "e = bytes_event (entry ?q (nat (q_head ?q)))" "cq s' = taken ?q"
    "task s' = AtPop"
    by (cases rule: core_step.cases; use assms(3) end_result [OF s(3)] in \<open>fastforce simp: task_event_simps\<close>)+
  let ?n = "length (accepted as)"
  have head: "nat (q_head (cq s)) = ?n mod 32" "entry ?q k = entry (cq s) k" for k
    using s(2,3) sl by (auto simp: q_wf_def slots_def entry_def)
  have "(?n - 32) mod 32 = ?n mod 32" if "32 \<le> ?n"
    using that by (metis le_mod_geq)
  then have "e = (if ?n < 32 then \<lparr>ev = 0, ev_data = 0\<rparr> else accepted as ! (?n - 32))"
    using sl r(2) head by (auto simp: slots_def not_less dest: spec [of _ "?n - 32"] spec [of _ ?n])
  moreover have "core_dead s'"
    using r(3,4) s(2,3) taken_wf [of ?q] by (simp add: core_dead_def)
  ultimately show ?thesis
    using r core_dead_run [of no_ev s'] by (auto simp: core_dead_def)
qed

theorem spurious_wakeup_ends_core_witness:
  "\<exists>s. core_step (\<lambda>_ rc. rc = 0) 5 core_example (Seen LSP_ERR_NONE \<lparr>ev = 0, ev_data = 0\<rparr>) s \<and> q_length (cq s) = - 1"
proof -
  let ?q = "(cq core_example)\<lparr>waiting_empty := 0\<rparr>"
  have "q_wf ?q" "task core_example = AtWait"
    by (simp_all add: core_example_def q_wf_def)
  then have "pop_resume 0 (cq core_example) = Done (LSP_ERR_NONE, Some (entry ?q (nat (q_head ?q))), taken ?q)"
    using queue_take_wf [of ?q] by (simp add: pop_resume_def c_dec_def) (simp add: core_example_def)
  then obtain e s where s: "core_step (\<lambda>_ rc. rc = 0) 5 core_example (Seen LSP_ERR_NONE e) s"
    using core_end [of core_example "\<lambda>_ rc. rc = 0" 0] by (fastforce simp: core_example_def)
  from spurious_wakeup_ends_core [OF core_example_started core_nil _ s] s show ?thesis
    by (auto simp: core_example_def)
qed

end
