(* ===== verification/Spec2Isabelle.thy ===== *)
theory Spec2Isabelle
  imports LspList LspQueue LspQueueConc LspQueueHistory LspQueueSignal LspEgroup LspMemory LspMutex LspTime LspInterface LspBuffer
    LspRouting LspRouteMap LspRoutingConc LspEgroupConc LspConf LspLog LspConn LspConnFree LspConnConc LspPort LspSocket
    LspPortLists LspTags LspCore LspListConc LspListenConc LspCoreConc
begin

text \<open>
  liblsp is a small C library for a link-layer style protocol: packet buffers, interfaces, a route
  table, connections with a socket interface on top, a core thread that is fed events, and a
  layer over POSIX threads (queues, event groups, mutexes, clocks, memory). The development
  models the functions of \<open>src/\<close>, one theory per component, in the order in which they
  use each other, and proves what they do, on every branch, the defective ones included.

  \<^bold>\<open>How C is modelled.\<close> \<open>LspPrelude\<close>: code that may run into undefined behaviour or not return has the
  result type \<open>exec\<close> (\<open>Done\<close>, \<open>Fault\<close> with its kind, \<open>Hang\<close>); sizes, pointers and unsigned fields
  are words of their width (LP64), an \<open>int\<close> is an \<open>int\<close> whose increment and decrement fault at
  the limits; NULL is \<open>None\<close>. What the platform returns (allocations, pthread results, the clock) and
  the value of a variable that is read before it is written are arguments, so that a theorem
  holds for all of them. Log calls are left out of the functions, as they change no
  state, except that of the log's own functions (\<open>LspLog\<close>) and the two of \<open>lsp_route_add\<close>, which read the name of an
  interface that may be NULL (\<open>log_ifname\<close>). A loop that may
  not end is a \<open>partial_function (option)\<close> and \<open>of_loop\<close> turns \<open>None\<close> into \<open>Hang\<close>, so a theorem with
  \<open>Done\<close> on the right says that the code returns; no fuel is used, except that \<open>pop_all\<close> and
  \<open>core_task_rounds\<close> count rounds, as many as there are items, and \<open>drive\<close>, \<open>pool_drive\<close> and \<open>add_drive\<close> count the
  accesses of one thread (38 are enough for an allocation, see \<open>pool_alone\<close>).

  \<^bold>\<open>How threads are modelled.\<close> A thread is a program counter with the values of its locals, a system is
  the shared state with a program counter per thread, and a step is what one thread does
  without another one being able to interfere: a critical section where the code keeps its mutex
  (queues, event groups, core thread), one access to the shared memory where it does not (route table, pool of
  connections, a list nobody guards, the lists of the ports). A queue's mutex may be refused to any call
  that does not wait for it; the loops of \<open>lsp_conn_free\<close> and \<open>lsp_conn_rxq_flush\<close>, which pop until a certain result, read from the
  field \<open>refusals\<close> of \<open>conn_sys\<close> what the mutex answers to each pop. Any number of threads take steps in any order; the memory is sequentially
  consistent. For the event groups, the routes, the pool and the lists a theorem says that the steps of one thread
  alone are the sequential function, for the ports that each thread leaves the list the sequential function leaves; the
  others are about all runs.

  \<^bold>\<open>The parts.\<close>
  \<^item> \<open>LspTypes\<close>: \<open>include/lsp_types.h\<close>, \<open>lsp_defaults.h\<close>: constants, alignment macros, and the layout
    of the packet header (\<open>struct lsp_packet_s\<close>), with its round trip through bytes.
  \<^item> \<open>LspList\<close>: \<open>include/lsp_list.h\<close>, the intrusive circular list that routes, interfaces, ports and
    the debug allocator use. \<open>ring\<close> abstracts the links to a list of nodes; the lemmas say
    what each operation does to it and what it leaves alone. The locale \<open>node_store\<close> is what the route table
    and the interface list use of it. \<open>LspListConc\<close> runs any number of threads that add to one list which no mutex
    guards (the interface list, the blocks of the \<open>DEBUG\<close> allocator): what a search may rely on, and how a node is lost.
  \<^item> \<open>LspTime\<close>, \<open>LspMutex\<close>, \<open>LspMemory\<close>: \<open>arch/posix/lsp_time.c\<close>, \<open>lsp_mutex.c\<close>, \<open>lsp_thread.c\<close> and
    \<open>lsp_memory.c\<close> (both builds).
  \<^item> \<open>LspQueue\<close>: \<open>arch/posix/lsp_queue.c\<close> over the bytes of the chunk. \<open>q_abs\<close> is the abstract bounded
    queue it refines; the locale \<open>fifo\<close> is the contract of a queue, interpreted on the ring buffer
    (\<open>ring_buffer\<close>) and on the abstract queue. \<open>LspQueueConc\<close> runs any number of threads on one
    queue, one critical section per step: what holds in every run, what holds when every wake-up
    is prompt, and the run in which a stolen wake-up overflows the buffer. \<open>LspQueueHistory\<close> adds what
    the calls return: with prompt wake-ups all threads together see one first-in-first-out queue.
    \<open>LspQueueSignal\<close> adds the condition variables: what their signals guarantee, that the waits of
    \<open>LspQueueConc\<close> are exactly those POSIX allows, and how a wake-up is lost.
  \<^item> \<open>LspEgroup\<close>: \<open>arch/posix/lsp_egroup.c\<close>; a wait is described by the list of its wake-ups.
    \<open>LspEgroupConc\<close> runs any number of threads on one event group: what a wait returns and when, that no wake-up is lost, that an event that
    nobody else may clear is delivered, and that \<open>clearOnExit\<close> takes the events of others away. What
    \<open>lsp_egroup_set\<close> returns is read after the unlock, in a step of its own.
  \<^item> \<open>LspInterface\<close>: \<open>lsp_interface.c\<close>, \<open>lsp_iflist.c\<close>. \<open>LspRouting\<close>: \<open>lsp_routing.c\<close>, with the invariant
    of the table over all sequences of calls; \<open>LspRouteMap\<close> shows that from the second route on it
    refines a finite map. \<open>LspRoutingConc\<close> runs any number of threads on the table:
    what the unlocked search may rely on while others insert, that it ends, and the two races.
  \<^item> \<open>LspBuffer\<close>: \<open>lsp_buffer.c\<close>. The specification is a row of bytes with two borders (\<open>zip_put\<close>,
    \<open>zip_push\<close>, \<open>zip_pull\<close>); the locale \<open>staged_packet\<close> is the contract, interpreted on the buffer.
  \<^item> \<open>LspConf\<close>, \<open>LspLog\<close>: \<open>lsp_conf.c\<close>, \<open>port/generic/lsp_log.c\<close> (messages and their levels, hex dump,
    assertion).
  \<^item> \<open>LspConn\<close>: \<open>lsp_conn.c\<close>, the pool of connections, for both values of its two compile-time switches.
    \<open>LspConnFree\<close>: freeing a server ends however its children and their children are related.
    \<open>LspConnConc\<close> runs any number of threads that allocate and free: a connection can be given to two of
    them, and cannot if allocations are serialised. The state of the pool is shared by \<open>LspPort\<close>
    (\<open>lsp_port.c\<close>, which extends it by the port table) and \<open>LspSocket\<close> (\<open>lsp_socket.c\<close>): a socket is a
    connection, a port has a list of them. \<open>LspSocket\<close> also has the step relation \<open>api_step\<close> of a
    program that calls the public functions in any order, and what is true in every state it
    can reach. \<open>LspPortLists\<close> is about the lists of all ports, which share the nodes in the
    connections: what every function keeps of them (the step relation \<open>list_step\<close>), and what a socket does to
    them that listens while it is on one. \<open>LspListenConc\<close> runs any number of threads in \<open>lsp_listen\<close>, each on a port
    of its own: none disturbs another. \<open>LspTags\<close> is about all states instead: the tag of a connection always tells which
    member of its union is there, proved with a small calculus of partial correctness.
  \<^item> \<open>LspCore\<close>: \<open>lsp_core.c\<close>, the event queue and the task of the core thread. \<open>LspCoreConc\<close> runs the task with any
    number of senders on the threads of \<open>LspQueueSignal\<close> (\<open>core_runs_are_queue_runs\<close>): no event is lost and every one is
    handled, until a wait ends for no reason.
  \<^item> This theory: properties that span components.

  The locale \<open>step_invariant\<close> of the prelude is the contract between a step relation and its invariant;
  it is interpreted on the threads of a queue (twice without and twice with its signals), of an event group
  (twice), of the core, of the route table, of a list nobody guards, of
  the ports and of the pool of connections, on the uses of a buffer, on the sequences of calls on the route table, on the
  programs over the socket interface, and on the calls that change the lists of the ports.

  \<^bold>\<open>What the theorems show.\<close> The list operations, the ring buffer, the event groups, the packet
  buffers and the allocation of connections do what their callers need, and the theorems say so in full. Several
  functions do not, and the theorems say what they do instead: the pool of connections is
  freed by its own initialisation, the receive queue is not flushed, a socket cannot be bound to
  a port and never listens, lists of one element count as empty, a waiting push can overwrite an
  item, a signal can be lost, one spurious wake-up ends the core thread, a new socket can find the packets of an old one, a closed socket stays on the list
  of its port, and two threads can hold one connection. Where a component cannot be reached in a sound state through the functions of the library
  (the pool, the event queue of the core), its functions are described from any well-formed state,
  and the theorem about the initialisation says that the code does not produce one.

  \<^bold>\<open>What is not modelled.\<close> \<open>_lsp_flush\<close>, \<open>lsp_printmem\<close> and \<open>lsp_buffer_debug\<close> (output only);
  \<open>lsp_core_handle_rxev\<close> (an empty body that nothing calls); what the driver functions of an interface
  do, as nothing calls them; the functions that headers declare and no
  file defines (\<open>lsp_init\<close>, \<open>lsp_queue_len\<close>, send, receive, socket options); threads on the list of
  one port, which no mutex guards either (two sockets that listen on an empty port do what \<open>LspListConc\<close> says of
  \<open>lsp_list_add\<close>); the build with \<open>LSP_QUEUE_ALIGNMEM\<close>, in which the call of \<open>lsp_verb\<close> at the end of \<open>lsp_queue_create\<close> is
  never closed, so that it does not compile; weaker memory orders than sequential consistency.
\<close>

section \<open>Properties that span components\<close>

text \<open>
  C34. A packet through a buffer. A buffer allocated without an interface has room for exactly one
  packet header in front of its data. Putting a payload and pushing a header, with the caller
  storing the bytes at the returned addresses, makes the packet: its first eight bytes read back
  as the same header, and pulling them off leaves the payload. But the packet pointer of the
  buffer does not follow the header: it points behind it, at the payload.
\<close>

theorem packet_through_buffer:
  assumes "unat p + 88 + unat len < 2 ^ 64" and "malloc (80 + len + 8) = Some p"
    and "length bs \<le> unat len"
  shows "\<exists>b a1 b1 a2 b2 b3.
    lsp_buffer_alloc ifs malloc None len = Done (Some b)
    \<and> lsp_buffer_put b (of_nat (length bs)) = (Some a1, b1)
    \<and> lsp_buffer_push b1 8 = (Some a2, b2) \<and> lsp_buffer_pull b2 8 = (a2, b3)
    \<and> (let mem' = store_bytes (store_bytes mem a1 bs) a2 (packet_bytes pk) in
         bytes_packet (take 8 (payload mem' b2)) = Some pk \<and> payload mem' b3 = bs)
    \<and> b_packet b2 = b_data b2 + 8"
proof -
  have h: "header_room ifs None = 8" "int_to_size 8 = 8"
    by (simp_all add: header_room_def int_to_size_def)
  obtain b where b: "lsp_buffer_alloc ifs malloc None len = Done (Some b)" "buf_wf b"
    "lsp_buffer_length b = 0" "b_packet b = b_data b" "unat (headroom b) = 8" "tailroom b = len"
    using buffer_alloc_facts [of ifs None p len malloc] assms by (auto simp: h)
  have pk: "length (packet_bytes pk) = 8" "bytes_packet (packet_bytes pk) = Some pk"
    using packet_bytes_inverse by simp_all
  have e: "payload mem b = []"
    using b(2,3) buffer_length_unat [OF b(2)] by (simp add: payload_def flip: length_0_conv)
  obtain a1 b1 a2 b2 b3 where r:
    "lsp_buffer_put b (of_nat (length bs)) = (Some a1, b1)"
    "lsp_buffer_push b1 8 = (Some a2, b2)" "lsp_buffer_pull b2 8 = (a2, b3)"
    "payload (store_bytes (store_bytes mem a1 bs) a2 (packet_bytes pk)) b2 = packet_bytes pk @ bs"
    "payload (store_bytes (store_bytes mem a1 bs) a2 (packet_bytes pk)) b3 = bs"
    using buffer_build_facts [OF b(2), of bs "packet_bytes pk" mem] assms(3) b(5,6)
    by (auto simp: pk e Let_def)
  have "b_packet b2 = b_data b2 + 8"
    using r(1,2) b(4) by (auto simp: lsp_buffer_put_def lsp_buffer_push_def Let_def split: if_splits)
  with b(1) r pk show ?thesis
    by (auto simp: Let_def)
qed

definition packet_example :: lsp_packet where
  "packet_example = \<lparr>dst_addr = 1, src_addr = 2, plen = 2, proto = 1, frag = 0, seqnum = 3,
     src_port = 4, dst_port = 31\<rparr>"

theorem packet_through_buffer_witness:
  "\<exists>b a1 b1 a2 b2.
    lsp_buffer_alloc (\<lambda>_. interface_zero) (\<lambda>_. Some 4096) None 64 = Done (Some b)
    \<and> lsp_buffer_put b 2 = (Some a1, b1) \<and> lsp_buffer_push b1 8 = (Some a2, b2)
    \<and> bytes_packet (take 8 (payload
          (store_bytes (store_bytes (\<lambda>_. 0) a1 [1, 2]) a2 (packet_bytes packet_example)) b2))
        = Some packet_example
    \<and> b_packet b2 = b_data b2 + 8"
  using packet_through_buffer [of 4096 64 "\<lambda>_. Some 4096" "[1, 2]" "\<lambda>_. interface_zero" "\<lambda>_. 0"
      packet_example]
  by (simp add: Let_def) blast

text \<open>Where there is room a push does not wait, so its timeout does not matter.\<close>

lemma push_with_room:
  assumes "q_inv q" "length item = unat (itemsize q)" "length (q_items q) < unat (queue_size q)"
  shows "\<exists>q'. lsp_queue_push LSP_ERR_NONE w item timeout q = Done (LSP_ERR_NONE, q') \<and> q_inv q'
    \<and> q_items q' = q_items q @ [item]"
proof -
  have "q_length q \<noteq> uint (queue_size q)"
    using assms(3) by auto
  then have "lsp_queue_push LSP_ERR_NONE w item timeout q = lsp_queue_push LSP_ERR_NONE w item 0 q"
    using full_test [OF assms(1)] length_in_range [OF assms(1)] assms(1)
    by (auto simp: lsp_queue_push_def push_enter_def)
  then show ?thesis
    using ring_buffer.push_room [OF assms, of w] by auto
qed

lemma setup_conn_keeps_queue:
  assumes "rx_queue (conns st i) = HLive q" "c_egroup (conns st i) \<noteq> HNull \<or> new_egroup env = Some eg"
  shows "\<exists>st'. setup_conn env i st = Done (Some i, st') \<and> rx_queue (conns st' i) = HLive q"
proof -
  have rx: "need_rx_queue env i st = Done (True, st)"
    using assms(1) by (simp add: need_rx_queue_def)
  obtain e where "need_egroup env i st = (True, upd_conn i (\<lambda>c. c\<lparr>c_egroup := e\<rparr>) st)"
    using need_egroup_ok [OF assms(2)] by blast
  with rx assms(1) show ?thesis
    by (simp add: setup_conn_def reset_conn_def)
qed

text \<open>
  C35. A closed socket leaves its packets to the next one. A packet is delivered to the receive queue of a
  socket, the socket is closed (with the unset \<open>rc\<close> of \<open>lsp_conn_free\<close> being 0, so that the
  connection goes back to the pool), and a socket is opened: if the connection is the lowest free one, the
  new socket is the same connection, and its receive queue holds everything the old one had not
  read. Nothing flushes it: \<open>lsp_conn_close\<close> is not called for a socket that is closed already, and
  \<open>lsp_conn_alloc\<close> takes the queue it finds.
\<close>

theorem stale_packets:
  assumes "live n st" and "i < n" and "i < 32"
    and "c_state (conns st i) = CONN_CLOSED" and "c_type (conns st i) \<noteq> CONN_SERVER"
    and "\<forall>j<i. c_state (conns st j) \<noteq> CONN_FREE" and "rc0 env i = LSP_ERR_NONE"
    and "rx_queue (conns st i) = HLive q" and "q_inv q" and "length b = unat (itemsize q)"
    and "length (q_items q) < unat (queue_size q)"
    and "c_egroup (conns st i) \<noteq> HNull \<or> new_egroup env = Some eg"
    and "stype = LSP_SOCK_RAW \<or> stype = LSP_SOCK_STREAM"
  shows "\<exists>st0 st1 st2 q'. lsp_conn_rxq_push LSP_ERR_NONE w b (Some i) st = Done (LSP_ERR_NONE, st0)
    \<and> lsp_closesocket env (Some i) how st0 = Done st1
    \<and> lsp_socket env AF_LSP stype LSPPROTO_LSP st1 = Done (Some i, st2)
    \<and> rx_queue (conns st2 i) = HLive q' \<and> q_items q' = q_items q @ [b]"
proof -
  obtain q' where q': "lsp_queue_push LSP_ERR_NONE w b LSP_DEFAULT_QUEUE_TIMEOUT_MS q = Done (LSP_ERR_NONE, q')"
    "q_items q' = q_items q @ [b]"
    using push_with_room [OF assms(9-11)] by blast
  define st0 where "st0 = upd_conn i (\<lambda>c. c\<lparr>rx_queue := HLive q'\<rparr>) st"
  have push: "lsp_conn_rxq_push LSP_ERR_NONE w b (Some i) st = Done (LSP_ERR_NONE, st0)"
    using assms(1,2,8) q'(1) by (simp add: lsp_conn_rxq_push_def conn_deref_live st0_def)
  define st1 where "st1 = upd_conn i (\<lambda>c. c\<lparr>c_state := CONN_FREE\<rparr>) st0"
  have st0: "live n st0" "c_state (conns st0 i) = CONN_CLOSED" "c_type (conns st0 i) \<noteq> CONN_SERVER"
    using assms(1,4,5) by (simp_all add: st0_def)
  have close: "lsp_closesocket env (Some i) how st0 = Done st1"
    using conn_free_value [OF live_pool [OF st0(1)] assms(2) st0(3), of env] st0(2) assms(7)
    by (simp add: lsp_closesocket_def st1_def)
  have st1: "live n st1" "rx_queue (conns st1 i) = HLive q'"
    "c_egroup (conns st1 i) \<noteq> HNull \<or> new_egroup env = Some eg"
    using assms(1,12) by (simp_all add: st0_def st1_def)
  have "find (\<lambda>j. n \<le> j \<or> c_state (conns st1 j) = CONN_FREE) [0..<32] = Some i"
    using assms(2,3,6) by (auto simp: find_upt_Some st0_def st1_def)
  then have "lsp_conn_alloc env st1 = setup_conn env i st1"
    using conn_alloc_search [OF st1(1), of env] assms(2) by simp
  with setup_conn_keeps_queue [OF st1(2,3)] obtain st2 where
    "lsp_socket env AF_LSP stype LSPPROTO_LSP st1 = Done (Some i, st2)" "rx_queue (conns st2 i) = HLive q'"
    using assms(13) by (auto simp: lsp_socket_def)
  with push close q'(2) show ?thesis
    by blast
qed

definition stale_example :: conn_sys where
  "stale_example = upd_conn 0 (\<lambda>c. c\<lparr>c_state := CONN_CLOSED\<rparr>) rx_example"

theorem stale_packets_witness:
  "\<exists>st0 st1 st2 q'. lsp_conn_rxq_push LSP_ERR_NONE (\<lambda>q. (0, q)) [7] (Some 0) stale_example = Done (0, st0)
    \<and> lsp_closesocket env_example (Some 0) 0 st0 = Done st1
    \<and> lsp_socket env_example AF_LSP LSP_SOCK_RAW LSPPROTO_LSP st1 = Done (Some 0, st2)
    \<and> rx_queue (conns st2 0) = HLive q' \<and> q_items q' = [[7]]"
proof -
  have q: "q_items queue_example = []" "unat (itemsize queue_example) = 1" "0 < unat (queue_size queue_example)"
    by (simp_all add: q_items_def queue_example_def)
  have "live 1 stale_example" "rx_queue (conns stale_example 0) = HLive queue_example"
    "c_state (conns stale_example 0) = CONN_CLOSED" "c_type (conns stale_example 0) = 0"
    by (simp_all add: stale_example_def rx_example_def pool_example_live conn_zero_def)
  then show ?thesis
    using stale_packets [of 1 stale_example 0 env_example queue_example "[7]" "\<lparr>event_bits = 0\<rparr>" LSP_SOCK_RAW
        "\<lambda>q. (0, q)" 0] q queue_example_inv
    by (simp add: lsp_consts)
qed

end
